(* ===== verification/Prelude.thy ===== *)
theory Prelude
  imports Main "HOL-Library.Word"
begin

text \<open>
  Shared vocabulary of the mhp development: bytes and Go strings, Go error values with the
  wrapping discipline of \<open>fmt.Errorf\<close> and \<open>errors.Is\<close>, signed 64-bit durations, reachable
  states of a step relation, and the interfaces that several components implement
  (\<open>inductive_invariant\<close>, \<open>machine_invariant\<close> and \<open>machine_refinement\<close> for state machines,
  \<open>bounded_slots\<close> for admission counters).
\<close>

named_theorems conn_simps \<open>effects of the connection and reader/writer primitives\<close>
named_theorems step_simps \<open>unfolding rules of the state-machine steps\<close>

section \<open>Bytes and strings\<close>

type_synonym byte = "8 word"
type_synonym bytes = "byte list"

text \<open>A Go string is a sequence of bytes; \<open>string\<close> is a list of 8-bit characters.\<close>

definition byte_of_char :: "char \<Rightarrow> byte" where
  "byte_of_char c = of_nat (of_char c)"

definition char_of_byte :: "byte \<Rightarrow> char" where
  "char_of_byte b = char_of (unat b)"

definition bytes_of_string :: "string \<Rightarrow> bytes" where
  "bytes_of_string s = map byte_of_char s"

definition string_of_bytes :: "bytes \<Rightarrow> string" where
  "string_of_bytes bs = map char_of_byte bs"

section \<open>Digits\<close>

abbreviation code :: "char \<Rightarrow> nat" where "code c \<equiv> of_char c"

text \<open>\<open>strconv.Itoa\<close> of a non-negative number, and hexadecimal digits.\<close>

fun show_nat :: "nat \<Rightarrow> string" where
  "show_nat n = (if n < 10 then [char_of (48 + n)] else show_nat (n div 10) @ [char_of (48 + n mod 10)])"

definition hex_digit :: "nat \<Rightarrow> char" where
  "hex_digit n = ''0123456789abcdef'' ! n"

definition is_digit :: "char \<Rightarrow> bool" where
  "is_digit c \<longleftrightarrow> 48 \<le> code c \<and> code c \<le> 57"

definition hex_val :: "char \<Rightarrow> nat option" where
  "hex_val c =
     (if is_digit c then Some (code c - 48)
      else if 97 \<le> code c \<and> code c \<le> 102 then Some (code c - 87)
      else if 65 \<le> code c \<and> code c \<le> 70 then Some (code c - 55)
      else None)"

declare show_nat.simps [simp del]

section \<open>Go errors\<close>

text \<open>
  The sentinel errors of the packages under \<open>src/internal\<close> and of the standard library that
  the code compares with \<open>errors.Is\<close>. \<open>Env\<close> stands for any other error an operating-system,
  TLS, yamux or SOCKS5 call returns.
\<close>

datatype sentinel =
    EOF | ErrUnexpectedEOF | IoErrShortWrite | Canceled | DeadlineExceeded | NetErrClosed | OsErrExist
  | ErrFrameTooLarge | ErrShortWrite | ErrMalformedRecord | ErrEncodeFailed
  | ErrProtocolVersion | ErrUnexpectedRole | ErrUnexpectedStatus
  | ErrListenTLS | ErrRecvFailure | ErrSendFailure | ErrEmptyBearer | ErrBadRole | ErrWrongToken
  | ErrNilSession | ErrAuthentication | ErrExchange | ErrCloseFailed
  | ErrDial | ErrHandshake | ErrUntrustedCA | ErrInvalidTiming | ErrDrainTimeout
  | Env string

text \<open>
  An error value: a sentinel, a \<open>*config.ValidationError\<close>, or the result of \<open>fmt.Errorf\<close> with
  its format string and the operands it wraps with \<open>%w\<close>. An operand printed with \<open>%v\<close> or
  \<open>%s\<close> is text only and is therefore not a child.
\<close>

datatype gerr =
    Sentinel sentinel
  | ValidationError string string
  | Errorf string "gerr list"

fun errors_is :: "gerr \<Rightarrow> sentinel \<Rightarrow> bool" where
  "errors_is (Sentinel s) t = (s = t)"
| "errors_is (ValidationError f r) t = False"
| "errors_is (Errorf fmt es) t = list_ex (\<lambda>e. errors_is e t) es"

type_synonym 'a result = "gerr + 'a"

section \<open>Signed 64-bit integers\<close>

text \<open>\<open>time.Duration\<close> and \<open>int\<close> are two's complement 64-bit integers: arithmetic wraps.\<close>

definition wrap64 :: "int \<Rightarrow> int" where
  "wrap64 x = (x + 2 ^ 63) mod 2 ^ 64 - 2 ^ 63"

definition in64 :: "int \<Rightarrow> bool" where
  "in64 x \<longleftrightarrow> - (2 ^ 63) \<le> x \<and> x < 2 ^ 63"

section \<open>Reachable states\<close>

inductive reachable :: "('s \<Rightarrow> bool) \<Rightarrow> ('s \<Rightarrow> 's \<Rightarrow> bool) \<Rightarrow> 's \<Rightarrow> bool"
  for init :: "'s \<Rightarrow> bool" and step :: "'s \<Rightarrow> 's \<Rightarrow> bool" where
  reachable_init: "init s \<Longrightarrow> reachable init step s"
| reachable_step: "reachable init step s \<Longrightarrow> step s t \<Longrightarrow> reachable init step t"

text \<open>
  Executable machines: \<open>f s ev\<close> is the state after event \<open>ev\<close>, \<open>None\<close> if the event is
  not enabled in \<open>s\<close>. Which enabled event happens next is up to the scheduler and the environment.
\<close>

definition steps :: "('s \<Rightarrow> 'e \<Rightarrow> 's option) \<Rightarrow> 's \<Rightarrow> 's \<Rightarrow> bool" where
  "steps f s t \<longleftrightarrow> (\<exists>ev. f s ev = Some t)"

fun run_events :: "('s \<Rightarrow> 'e \<Rightarrow> 's option) \<Rightarrow> 's \<Rightarrow> 'e list \<Rightarrow> 's option" where
  "run_events f s [] = Some s"
| "run_events f s (e # es) = (case f s e of None \<Rightarrow> None | Some t \<Rightarrow> run_events f t es)"

abbreviation reaches :: "('s \<Rightarrow> 'e \<Rightarrow> 's option) \<Rightarrow> 's \<Rightarrow> 's \<Rightarrow> bool" where
  "reaches f s0 \<equiv> reachable (\<lambda>s. s = s0) (steps f)"

section \<open>Shared lemmas\<close>

lemma run_events_reachable:
  "reachable I (steps f) s \<Longrightarrow> run_events f s es = Some t \<Longrightarrow> reachable I (steps f) t"
proof (induction es arbitrary: s)
  case (Cons e es)
  then obtain u where u: "f s e = Some u" "run_events f u es = Some t"
    by (auto split: option.splits)
  then have "steps f s u" by (auto simp: steps_def)
  then show ?case using Cons u by (blast intro: reachable_step)
qed simp

lemma run_events_reaches: "run_events f s0 es = Some t \<Longrightarrow> reaches f s0 t"
  by (rule run_events_reachable [OF reachable_init]) simp_all

lemma run_events_append:
  "run_events f s (xs @ ys) = Option.bind (run_events f s xs) (\<lambda>t. run_events f t ys)"
  by (induction xs arbitrary: s) (auto split: option.splits)

lemma char_of_byte_of_char [simp]: "char_of_byte (byte_of_char c) = c"
  by (simp add: char_of_byte_def byte_of_char_def unat_of_nat)

lemma byte_of_char_of_byte [simp]: "byte_of_char (char_of_byte b) = b"
proof -
  have "unat b < 2 ^ LENGTH(8)" by (rule unsigned_less)
  then show ?thesis by (simp add: char_of_byte_def byte_of_char_def)
qed

text \<open>A statement about every byte is decided by checking the 256 values.\<close>

lemma all_byte: "(\<forall>x :: byte. P x) \<longleftrightarrow> list_all P (map of_nat [0..<256])"
proof
  assume all: "list_all P (map of_nat [0..<256])"
  show "\<forall>x :: byte. P x"
  proof
    fix x :: byte
    have "unat x < 2 ^ LENGTH(8)" by (rule unsigned_less)
    then have lt: "unat x < 256" by simp
    have "\<forall>n < 256. P (of_nat n)" using all by (simp add: list_all_iff)
    from this [rule_format, OF lt] have "P (of_nat (unat x))" .
    then show "P x" by simp
  qed
qed (simp add: list_all_iff)

lemma string_of_bytes_of_string [simp]: "string_of_bytes (bytes_of_string s) = s"
  by (simp add: string_of_bytes_def bytes_of_string_def o_def)

lemma bytes_of_string_of_bytes [simp]: "bytes_of_string (string_of_bytes b) = b"
  by (simp add: string_of_bytes_def bytes_of_string_def o_def)

lemma length_bytes_of_string [simp]: "length (bytes_of_string s) = length s"
  by (simp add: bytes_of_string_def)

lemma wrap64_id: "in64 x \<Longrightarrow> wrap64 x = x"
  by (simp add: wrap64_def in64_def)

lemma wrap64_in64 [simp]: "in64 (wrap64 x)"
proof -
  have "0 \<le> (x + 2 ^ 63) mod 2 ^ 64" "(x + 2 ^ 63) mod 2 ^ 64 < 2 ^ 64" by simp_all
  then show ?thesis by (simp add: wrap64_def in64_def)
qed

lemma in64_sum: "0 \<le> a \<Longrightarrow> a \<le> m \<Longrightarrow> 0 \<le> x \<Longrightarrow> x \<le> m \<Longrightarrow> m < 2 ^ 62 \<Longrightarrow> in64 (a + x)"
  by (simp add: in64_def)

lemma hex_val_hex_digit: "n < 16 \<Longrightarrow> hex_val (hex_digit n) = Some n"
proof -
  assume "n < 16"
  then have "n \<in> set [0..<16]" by simp
  moreover have "list_all (\<lambda>n. hex_val (hex_digit n) = Some n) [0..<16]" by code_simp
  ultimately show ?thesis by (simp only: list_all_iff)
qed

lemma is_digit_char_of: "(n :: nat) < 10 \<Longrightarrow> is_digit (char_of (48 + n))"
  by (simp add: is_digit_def)

lemma show_nat_digits: "show_nat n \<noteq> [] \<and> list_all is_digit (show_nat n)"
proof (induction n rule: show_nat.induct)
  case (1 n)
  then show ?case by (subst (1 2) show_nat.simps) (simp add: is_digit_char_of)
qed

text \<open>Counting and summing over a list with one entry replaced.\<close>

lemma filter_update:
  "i < length xs \<Longrightarrow> length (filter P (xs[i := x])) + (if P (xs ! i) then 1 else 0) = length (filter P xs) + (if P x then 1 else 0)"
proof (induction xs arbitrary: i)
  case (Cons y ys)
  then show ?case by (cases i) auto
qed simp

lemma sum_list_update_eq:
  fixes f :: "'a \<Rightarrow> nat"
  shows "i < length xs \<Longrightarrow> sum_list (map f (xs[i := x])) + f (xs ! i) = sum_list (map f xs) + f x"
proof (induction xs arbitrary: i)
  case (Cons y ys)
  then show ?case by (cases i) (auto simp: add.assoc)
qed simp

lemma sum_list_update_less:
  fixes f :: "'a \<Rightarrow> nat"
  shows "i < length xs \<Longrightarrow> f x < f (xs ! i) \<Longrightarrow> sum_list (map f (xs[i := x])) < sum_list (map f xs)"
proof (induction xs arbitrary: i)
  case (Cons y ys)
  then show ?case by (cases i) auto
qed simp

section \<open>Interfaces\<close>

text \<open>An invariant of a step relation: it holds initially and every step keeps it.\<close>

locale inductive_invariant =
  fixes init :: "'s \<Rightarrow> bool" and step :: "'s \<Rightarrow> 's \<Rightarrow> bool" and inv :: "'s \<Rightarrow> bool"
  assumes init_inv: "init s \<Longrightarrow> inv s"
    and step_inv: "inv s \<Longrightarrow> step s t \<Longrightarrow> inv t"
begin

lemma reachable_inv: "reachable init step s \<Longrightarrow> inv s"
  by (induction rule: reachable.induct) (auto intro: init_inv step_inv)

end

locale machine_invariant =
  fixes start :: 's and f :: "'s \<Rightarrow> 'e \<Rightarrow> 's option" and inv :: "'s \<Rightarrow> bool"
  assumes start_inv: "inv start" and event_inv: "inv s \<Longrightarrow> f s ev = Some t \<Longrightarrow> inv t"
begin

sublocale inductive_invariant "\<lambda>s. s = start" "steps f" inv
  by unfold_locales (auto simp: steps_def intro: start_inv event_inv)

lemma reaches_inv: "reaches f start s \<Longrightarrow> inv s"
  by (rule reachable_inv)

end

text \<open>
  A machine that implements an abstract one: every step either leaves the abstract state alone or is
  a step of the specification.
\<close>

locale machine_refinement = machine_invariant +
  fixes abs :: "'a \<Rightarrow> 'c" and astep :: "'c \<Rightarrow> 'c \<Rightarrow> bool"
  assumes event_abs: "inv s \<Longrightarrow> f s ev = Some t \<Longrightarrow> abs t = abs s \<or> astep (abs s) (abs t)"
begin

lemma reaches_abs: "reaches f start s \<Longrightarrow> reachable (\<lambda>a. a = abs start) astep (abs s)"
proof (induction rule: reachable.induct)
  case (reachable_step s t)
  then obtain ev where "f s ev = Some t" by (auto simp: steps_def)
  then have "abs t = abs s \<or> astep (abs s) (abs t)" using event_abs reaches_inv [OF reachable_step.hyps(1)] by blast
  then show ?case using reachable_step.IH by (metis reachable.reachable_step)
qed (simp add: reachable_init)

end

text \<open>
  A counter of occupied slots with a fixed capacity: \<open>acquire\<close> refuses exactly when the
  capacity is reached and never blocks, \<open>release\<close> gives an occupied slot back.
\<close>

locale bounded_slots =
  fixes ok :: "'s \<Rightarrow> bool" and used :: "'s \<Rightarrow> nat" and cap :: nat
    and acquire :: "'s \<Rightarrow> 's option" and release :: "'s \<Rightarrow> 's"
  assumes acquire_full: "ok s \<Longrightarrow> acquire s = None \<longleftrightarrow> cap \<le> used s"
    and acquire_used: "ok s \<Longrightarrow> acquire s = Some t \<Longrightarrow> ok t \<and> used t = Suc (used s)"
    and release_used: "ok s \<Longrightarrow> 0 < used s \<Longrightarrow> ok (release s) \<and> used (release s) = used s - 1"
begin

lemma acquire_bound: "ok s \<Longrightarrow> acquire s = Some t \<Longrightarrow> used t \<le> cap"
  using acquire_full [of s] acquire_used [of s t] by (cases "cap \<le> used s") auto

lemma acquire_release: "ok s \<Longrightarrow> acquire s = Some t \<Longrightarrow> used (release t) = used s"
  using acquire_used [of s t] release_used [of t] by simp

lemma release_readmits:
  assumes "ok s" and "0 < used s" and "used s \<le> cap"
  shows "\<exists>t. acquire (release s) = Some t \<and> used t = used s"
proof -
  have r: "ok (release s)" "used (release s) = used s - 1" using release_used assms by auto
  then have "acquire (release s) \<noteq> None" using acquire_full [of "release s"] assms by simp
  then obtain t where t: "acquire (release s) = Some t" by blast
  then show ?thesis using acquire_used [OF r(1) t] r assms by simp
qed

end

end
