(* ===== verification/Framing.thy ===== *)
theory Framing
  imports Prelude
begin

text \<open>
  \<open>src/internal/transport/framing.go\<close>: length-prefixed frames over a byte stream, and the
  \<open>io.Reader\<close> / \<open>io.Writer\<close> behaviour it relies on. A reader delivers its bytes in arbitrary
  chunks, a writer may accept a prefix of what it is given and may fail.
\<close>

unbundle bit_operations_syntax

section \<open>Readers and writers\<close>

text \<open>
  The peer's bytes in the chunks in which successive \<open>Read\<close> calls see them, and the error that
  \<open>Read\<close> reports once they are used up.
\<close>

record reader =
  pending :: "bytes list"
  fate :: gerr

definition conn_read :: "nat \<Rightarrow> reader \<Rightarrow> bytes result \<times> reader" where
  "conn_read n r = (case pending r of
      [] \<Rightarrow> (Inl (fate r), r)
    | c # cs \<Rightarrow>
        (Inr (take n c),
         if length c \<le> n then r\<lparr>pending := cs\<rparr> else r\<lparr>pending := drop n c # cs\<rparr>))"

text \<open>\<open>io.ReadFull\<close>, that is \<open>io.ReadAtLeast\<close> with the buffer's length as the minimum.\<close>

function read_full_loop :: "nat \<Rightarrow> bytes \<Rightarrow> reader \<Rightarrow> bytes result \<times> reader" where
  "read_full_loop need acc r =
     (if need = 0 then (Inr acc, r)
      else case conn_read need r of
        (Inl e, r') \<Rightarrow>
          (Inl (if acc \<noteq> [] \<and> e = Sentinel EOF then Sentinel ErrUnexpectedEOF else e), r')
      | (Inr d, r') \<Rightarrow> read_full_loop (need - length d) (acc @ d) r')"
  by pat_completeness auto
termination
  by (relation "measure (\<lambda>(need, acc, r). need + length (pending r))")
     (auto simp: conn_read_def split: list.splits if_splits)

definition read_full :: "nat \<Rightarrow> reader \<Rightarrow> bytes result \<times> reader" where
  "read_full n r = read_full_loop n [] r"

text \<open>
  A writer records the bytes it passed on. Each pending script entry answers one \<open>Write\<close> call:
  how many bytes it takes at most and the error it returns; without entries it takes all.
\<close>

record writer =
  sent :: bytes
  wscript :: "(nat \<times> gerr option) list"

definition conn_write :: "writer \<Rightarrow> bytes \<Rightarrow> (nat \<times> gerr option) \<times> writer" where
  "conn_write w d = (case wscript w of
      [] \<Rightarrow> ((length d, None), w\<lparr>sent := sent w @ d\<rparr>)
    | (k, e) # xs \<Rightarrow>
        (let n = min k (length d)
         in ((n, e), w\<lparr>sent := sent w @ take n d, wscript := xs\<rparr>)))"

section \<open>Frames\<close>

definition frameHeaderLen :: nat where "frameHeaderLen = 4"

definition maxFrameBytes :: "32 word" where "maxFrameBytes = 4096"

text \<open>\<open>binary.BigEndian.Uint32\<close> and \<open>PutUint32\<close>.\<close>

definition be_uint32 :: "bytes \<Rightarrow> 32 word" where
  "be_uint32 b = ucast (b ! 3) OR push_bit 8 (ucast (b ! 2))
     OR push_bit 16 (ucast (b ! 1)) OR push_bit 24 (ucast (b ! 0))"

definition put_uint32 :: "32 word \<Rightarrow> bytes" where
  "put_uint32 v =
     [ucast (drop_bit 24 v), ucast (drop_bit 16 v), ucast (drop_bit 8 v), ucast v]"

definition readFrame :: "reader \<Rightarrow> bytes result \<times> reader" where
  "readFrame r = (case read_full frameHeaderLen r of
      (Inl err, r1) \<Rightarrow> (Inl (Errorf ''read frame header: %w'' [err]), r1)
    | (Inr hdr, r1) \<Rightarrow>
        (let len = be_uint32 hdr in
         if len > maxFrameBytes then (Inl (Errorf ''%w: %d'' [Sentinel ErrFrameTooLarge]), r1)
         else case read_full (unat len) r1 of
             (Inl err, r2) \<Rightarrow> (Inl (Errorf ''read frame body: %w'' [err]), r2)
           | (Inr body, r2) \<Rightarrow> (Inr body, r2)))"

definition writeFrame :: "writer \<Rightarrow> bytes \<Rightarrow> gerr option \<times> writer" where
  "writeFrame w d = (case conn_write w (put_uint32 (of_nat (length d))) of
      ((_, Some err), w1) \<Rightarrow> (Some (Errorf ''write frame header: %w'' [err]), w1)
    | ((_, None), w1) \<Rightarrow>
        (case conn_write w1 d of
           ((_, Some err), w2) \<Rightarrow> (Some (Errorf ''write frame body: %w'' [err]), w2)
         | ((n, None), w2) \<Rightarrow>
             if n \<noteq> length d then (Some (Errorf ''%w: wrote %d of %d'' [Sentinel ErrShortWrite]), w2)
             else (None, w2)))"

text \<open>The record functions take the JSON codec of the record type as an argument.\<close>

definition readJSON :: "(bytes \<Rightarrow> 'v result) \<Rightarrow> reader \<Rightarrow> 'v result \<times> reader" where
  "readJSON unmarshal r = (case readFrame r of
      (Inl err, r1) \<Rightarrow> (Inl (Errorf ''read frame: %w'' [err]), r1)
    | (Inr data, r1) \<Rightarrow>
        (case unmarshal data of
           Inl err \<Rightarrow> (Inl (Errorf ''%w: %w'' [Sentinel ErrMalformedRecord, err]), r1)
         | Inr v \<Rightarrow> (Inr v, r1)))"

definition writeJSON :: "('v \<Rightarrow> bytes result) \<Rightarrow> writer \<Rightarrow> 'v \<Rightarrow> gerr option \<times> writer" where
  "writeJSON marshal w v = (case marshal v of
      Inl err \<Rightarrow> (Some (Errorf ''%w: %w'' [Sentinel ErrEncodeFailed, err]), w)
    | Inr data \<Rightarrow> writeFrame w data)"

section \<open>Reference semantics on the flat byte stream\<close>

definition short_read :: "bytes \<Rightarrow> gerr \<Rightarrow> gerr" where
  "short_read got e = (if got \<noteq> [] \<and> e = Sentinel EOF then Sentinel ErrUnexpectedEOF else e)"

definition take_full :: "nat \<Rightarrow> bytes \<Rightarrow> gerr \<Rightarrow> bytes result \<times> bytes" where
  "take_full n s e =
     (if length s < n then (Inl (short_read s e), []) else (Inr (take n s), drop n s))"

definition frame_of_stream :: "bytes \<Rightarrow> gerr \<Rightarrow> bytes result \<times> bytes" where
  "frame_of_stream s e = (case take_full 4 s e of
      (Inl err, s1) \<Rightarrow> (Inl (Errorf ''read frame header: %w'' [err]), s1)
    | (Inr hdr, s1) \<Rightarrow>
        if 4096 < unat (be_uint32 hdr) then (Inl (Errorf ''%w: %d'' [Sentinel ErrFrameTooLarge]), s1)
        else case take_full (unat (be_uint32 hdr)) s1 e of
            (Inl err, s2) \<Rightarrow> (Inl (Errorf ''read frame body: %w'' [err]), s2)
          | (Inr body, s2) \<Rightarrow> (Inr body, s2))"

definition frame_bytes :: "bytes \<Rightarrow> bytes" where
  "frame_bytes d = put_uint32 (of_nat (length d)) @ d"

section \<open>Reading in chunks is reading the flat stream\<close>

declare read_full_loop.simps [simp del]

lemma read_full_loop_flat:
  "map_prod id (\<lambda>r'. (concat (pending r'), fate r')) (read_full_loop need acc r) =
     (if length (concat (pending r)) < need
      then (Inl (short_read (acc @ concat (pending r)) (fate r)), ([], fate r))
      else (Inr (acc @ take need (concat (pending r))),
            (drop need (concat (pending r)), fate r)))"
proof (induction need acc r rule: read_full_loop.induct)
  case (1 need acc r)
  show ?case
  proof (cases "need = 0")
    case True
    then show ?thesis by (simp add: read_full_loop.simps [of 0 acc r])
  next
    case need: False
    show ?thesis
    proof (cases "pending r")
      case Nil
      with need show ?thesis
        by (simp add: read_full_loop.simps [of need acc r] conn_read_def short_read_def)
    next
      case (Cons c cs)
      let ?r' = "if length c \<le> need then r\<lparr>pending := cs\<rparr> else r\<lparr>pending := drop need c # cs\<rparr>"
      have rd: "conn_read need r = (Inr (take need c), ?r')"
        using Cons by (simp add: conn_read_def)
      have "read_full_loop need acc r =
          read_full_loop (need - length (take need c)) (acc @ take need c) ?r'"
        using need rd by (simp add: read_full_loop.simps [of need acc r])
      moreover note "1.IH" [OF need rd [symmetric] refl]
      ultimately show ?thesis using Cons by auto
    qed
  qed
qed

lemma read_full_flat:
  "map_prod id (\<lambda>r'. (concat (pending r'), fate r')) (read_full n r) =
     map_prod id (\<lambda>s. (s, fate r)) (take_full n (concat (pending r)) (fate r))"
  by (simp add: read_full_def read_full_loop_flat take_full_def)

lemma read_full_cases:
  assumes "read_full n r = (x, r')"
  shows "take_full n (concat (pending r)) (fate r) = (x, concat (pending r')) \<and> fate r' = fate r"
  using read_full_flat [of n r] assms
  by (cases "take_full n (concat (pending r)) (fate r)") auto

section \<open>Big-endian words\<close>

lemma length_put_uint32 [simp]: "length (put_uint32 v) = 4"
  by (simp add: put_uint32_def)

lemma nth_four:
  "[a, b, c, d] ! 0 = a" "[a, b, c, d] ! 1 = b" "[a, b, c, d] ! 2 = c" "[a, b, c, d] ! 3 = d"
  by (simp_all add: numeral_eq_Suc)

lemma be_put_uint32 [simp]: "be_uint32 (put_uint32 v) = v"
proof -
  have "bit (be_uint32 (put_uint32 v)) n = bit v n" if n: "n < LENGTH(32)" for n
  proof (cases "24 \<le> n")
    case True
    then have "24 + (n - 24) = n" by simp
    then show ?thesis using n True unfolding be_uint32_def put_uint32_def nth_four
      by (simp only: bit_simps bit_or_iff bit_push_bit_iff bit_ucast_iff bit_drop_bit_eq) auto
  next
    case False
    then show ?thesis using n unfolding be_uint32_def put_uint32_def nth_four
      by (simp only: bit_simps bit_or_iff bit_push_bit_iff bit_ucast_iff bit_drop_bit_eq)
        (cases "16 \<le> n", auto)
  qed
  then show ?thesis by (rule bit_word_eqI)
qed

section \<open>Frames read from any chunking\<close>

lemma readFrame_flat:
  "map_prod id (\<lambda>r'. (concat (pending r'), fate r')) (readFrame r) =
     map_prod id (\<lambda>s. (s, fate r)) (frame_of_stream (concat (pending r)) (fate r))"
proof -
  obtain x r1 where h: "read_full 4 r = (x, r1)" by (cases "read_full 4 r")
  note fh = read_full_cases [OF h]
  show ?thesis
  proof (cases x)
    case (Inl e)
    then show ?thesis using h fh by (simp add: readFrame_def frame_of_stream_def frameHeaderLen_def)
  next
    case (Inr hdr)
    obtain y r2 where b: "read_full (unat (be_uint32 hdr)) r1 = (y, r2)"
      by (cases "read_full (unat (be_uint32 hdr)) r1")
    have gt: "be_uint32 hdr > maxFrameBytes \<longleftrightarrow> 4096 < unat (be_uint32 hdr)"
      by (simp add: maxFrameBytes_def word_less_nat_alt)
    show ?thesis using Inr h fh b read_full_cases [OF b]
      by (auto simp: readFrame_def frame_of_stream_def frameHeaderLen_def Let_def gt
          split: sum.splits)
  qed
qed

lemma readFrame_flat_eq:
  assumes "frame_of_stream (concat (pending r)) (fate r) = (x, s)"
  shows "\<exists>r'. readFrame r = (x, r') \<and> concat (pending r') = s \<and> fate r' = fate r"
  using readFrame_flat [of r] assms by (cases "readFrame r") auto

lemma frame_of_stream_frame:
  assumes "length d \<le> 4096"
  shows "frame_of_stream (frame_bytes d @ rest) e = (Inr d, rest)"
  using assms by (simp add: frame_of_stream_def frame_bytes_def take_full_def unat_of_nat)

lemma frame_of_stream_oversize:
  assumes "4096 < length d" and "length d < 2 ^ 32"
  shows "frame_of_stream (frame_bytes d @ rest) e
    = (Inl (Errorf ''%w: %d'' [Sentinel ErrFrameTooLarge]), d @ rest)"
  using assms by (simp add: frame_of_stream_def frame_bytes_def take_full_def unat_of_nat)

lemma frame_of_stream_bound:
  "frame_of_stream s e = (Inr d, rest) \<Longrightarrow> length d \<le> 4096"
  by (auto simp: frame_of_stream_def take_full_def split: if_splits prod.splits sum.splits)

section \<open>Writing frames\<close>

lemma conn_write_all [conn_simps]:
  "wscript w = [] \<Longrightarrow> conn_write w d = ((length d, None), w\<lparr>sent := sent w @ d\<rparr>)"
  by (simp add: conn_write_def)

lemma writeFrame_all [conn_simps]:
  "wscript w = [] \<Longrightarrow> writeFrame w d = (None, w\<lparr>sent := sent w @ frame_bytes d\<rparr>)"
  by (simp add: writeFrame_def conn_simps frame_bytes_def)

lemma conn_write_sent:
  "conn_write w d = ((n, e), w') \<Longrightarrow> sent w' = sent w @ take n d \<and> n \<le> length d"
  by (auto simp: conn_write_def Let_def split: list.splits)

text \<open>
  C13. A frame written by \<open>writeFrame\<close> is what \<open>readFrame\<close> returns, in whatever chunks the
  transport delivers it: a body of at most 4096 bytes comes back unchanged, exactly its own bytes
  are consumed, and everything behind it is left for the next reader.
\<close>

theorem frame_roundtrip:
  assumes "length d \<le> 4096" and "wscript w = []" and "sent w = []"
    and "concat (pending r) = sent (snd (writeFrame w d)) @ rest"
  shows "fst (writeFrame w d) = None \<and>
    (\<exists>r'. readFrame r = (Inr d, r') \<and> concat (pending r') = rest \<and> fate r' = fate r)"
  using assms readFrame_flat_eq [of r] frame_of_stream_frame [OF assms(1)]
  by (simp add: conn_simps)

theorem frame_roundtrip_witness:
  "fst (writeFrame \<lparr>sent = [], wscript = []\<rparr> [7, 8]) = None \<and>
    (\<exists>r'. readFrame \<lparr>pending = [[0, 0], [0, 2, 7], [8, 9]], fate = Sentinel EOF\<rparr> = (Inr [7, 8], r')
      \<and> concat (pending r') = [9] \<and> fate r' = Sentinel EOF)"
  using frame_roundtrip [of "[7, 8]" "\<lparr>sent = [], wscript = []\<rparr>"
      "\<lparr>pending = [[0, 0], [0, 2, 7], [8, 9]], fate = Sentinel EOF\<rparr>" "[9]"]
  by (simp add: conn_simps frame_bytes_def put_uint32_def)

text \<open>
  C14. \<open>readFrame\<close> implements the flat-stream specification: whatever the chunking, its result and
  the bytes it leaves depend only on the concatenated stream, it never returns a body above 4096
  bytes, and a larger declared length is rejected after the four header bytes.
\<close>

theorem readFrame_refines_stream:
  "map_prod id (\<lambda>r'. (concat (pending r'), fate r')) (readFrame r) =
     map_prod id (\<lambda>s. (s, fate r)) (frame_of_stream (concat (pending r)) (fate r)) \<and>
   (case fst (readFrame r) of Inl _ \<Rightarrow> True | Inr d \<Rightarrow> length d \<le> 4096)"
proof -
  obtain x r' where "readFrame r = (x, r')" by (cases "readFrame r")
  then show ?thesis using readFrame_flat [of r] frame_of_stream_bound
    by (cases "frame_of_stream (concat (pending r)) (fate r)") (auto split: sum.splits)
qed

text \<open>
  \<open>writeFrame\<close> has no size check of its own: a body above the limit (and below 2^32 bytes)
  is written without an error, and every peer rejects it with \<open>ErrFrameTooLarge\<close>.
\<close>

theorem writeFrame_oversize_accepted:
  assumes "4096 < length d" and "length d < 2 ^ 32" and "wscript w = []" and "sent w = []"
    and "concat (pending r) = sent (snd (writeFrame w d)) @ rest"
  shows "fst (writeFrame w d) = None \<and>
    (\<exists>err r'. readFrame r = (Inl err, r') \<and> errors_is err ErrFrameTooLarge)"
  using assms readFrame_flat_eq [of r] frame_of_stream_oversize [OF assms(1,2)]
  by (fastforce simp: conn_simps)

theorem writeFrame_oversize_accepted_witness:
  "fst (writeFrame \<lparr>sent = [], wscript = []\<rparr> (replicate 5000 1)) = None \<and>
    (\<exists>err r'. readFrame \<lparr>pending = [frame_bytes (replicate 5000 1)], fate = Sentinel EOF\<rparr>
       = (Inl err, r') \<and> errors_is err ErrFrameTooLarge)"
  using writeFrame_oversize_accepted [of "replicate 5000 1" "\<lparr>sent = [], wscript = []\<rparr>"
      "\<lparr>pending = [frame_bytes (replicate 5000 1)], fate = Sentinel EOF\<rparr>" "[]"]
  by (simp add: conn_simps)

text \<open>
  \<open>writeFrame\<close> reports success only after the whole body was accepted; the bytes on the wire
  are then a prefix of the length header followed by the body, and that prefix is the whole header
  unless the writer took fewer than four bytes of it without an error, which is not checked.
\<close>

theorem writeFrame_success:
  assumes "writeFrame w d = (None, w')"
  shows "\<exists>n. n \<le> 4 \<and> fst (conn_write w (put_uint32 (of_nat (length d)))) = (n, None) \<and>
    sent w' = sent w @ take n (put_uint32 (of_nat (length d))) @ d"
  using assms
  by (auto simp: writeFrame_def split: prod.splits option.splits if_splits dest!: conn_write_sent)

theorem writeFrame_success_witness:
  "\<exists>n. n \<le> 4 \<and>
    fst (conn_write \<lparr>sent = [], wscript = [(3, None)]\<rparr> (put_uint32 (of_nat (length [5 :: byte]))))
      = (n, None) \<and> [0, 0, 0, 5] = [] @ take n (put_uint32 (of_nat (length [5 :: byte]))) @ [5]"
  using writeFrame_success [of "\<lparr>sent = [], wscript = [(3, None)]\<rparr>" "[5]"
      "\<lparr>sent = [0, 0, 0, 5], wscript = []\<rparr>"]
  by (simp add: writeFrame_def conn_write_def put_uint32_def)

end
