(* ===== verification/NetAddr.thy ===== *)
theory NetAddr
  imports Prelude
begin

text \<open>
  The part of Go's \<open>net\<close> and \<open>net/netip\<close> packages that \<open>config.go\<close>, \<open>access.go\<close> and \<open>handler.go\<close>
  use: \<open>net.IP\<close>, its textual form (\<open>IP.String\<close>, \<open>ParseIP\<close>), and host:port addresses
  (\<open>JoinHostPort\<close>, \<open>SplitHostPort\<close>), with the round trips between them.
\<close>

section \<open>net.IP\<close>

type_synonym IP = bytes

definition v4InV6Prefix :: bytes where
  "v4InV6Prefix = [0, 0, 0, 0, 0, 0, 0, 0, 0, 0, 0xFF, 0xFF]"

definition IPv4zero :: IP where "IPv4zero = v4InV6Prefix @ [0, 0, 0, 0]"

definition IPv6unspecified :: IP where
  "IPv6unspecified = [0, 0, 0, 0, 0, 0, 0, 0, 0, 0, 0, 0, 0, 0, 0, 0]"

definition IPv6loopback :: IP where
  "IPv6loopback = [0, 0, 0, 0, 0, 0, 0, 0, 0, 0, 0, 0, 0, 0, 0, 1]"

definition To4 :: "IP \<Rightarrow> IP option" where
  "To4 ip = (if length ip = 4 then Some ip
     else if length ip = 16 \<and> take 12 ip = v4InV6Prefix then Some (drop 12 ip)
     else None)"

definition ip_Equal :: "IP \<Rightarrow> IP \<Rightarrow> bool" where
  "ip_Equal ip x = (if length ip = length x then ip = x
     else if length ip = 4 \<and> length x = 16 then take 12 x = v4InV6Prefix \<and> ip = drop 12 x
     else if length ip = 16 \<and> length x = 4 then take 12 ip = v4InV6Prefix \<and> drop 12 ip = x
     else False)"

definition IsLoopback :: "IP \<Rightarrow> bool" where
  "IsLoopback ip = (case To4 ip of
      Some ip4 \<Rightarrow> ip4 ! 0 = 127
    | None \<Rightarrow> ip_Equal ip IPv6loopback)"

text \<open>The 16 byte form, \<open>netip.Addr.As16\<close>.\<close>

definition As16 :: "IP \<Rightarrow> IP" where
  "As16 ip = (if length ip = 4 then v4InV6Prefix @ ip else ip)"

section \<open>IP.String\<close>

text \<open>Decimal octets without leading zeros, hexadecimal groups likewise.\<close>

definition show_octet :: "byte \<Rightarrow> string" where
  "show_octet b = (let x = unat b in
     (if x \<ge> 100 then [char_of (48 + x div 100)] else [])
     @ (if x \<ge> 10 then [char_of (48 + x div 10 mod 10)] else []) @ [char_of (48 + x mod 10)])"

definition show_group :: "nat \<Rightarrow> string" where
  "show_group x =
     (if x \<ge> 0x1000 then [hex_digit (x div 0x1000)] else []) @ (if x \<ge> 0x100 then [hex_digit (x div 0x100 mod 0x10)] else [])
     @ (if x \<ge> 0x10 then [hex_digit (x div 0x10 mod 0x10)] else []) @ [hex_digit (x mod 0x10)]"

fun join_with :: "char \<Rightarrow> string list \<Rightarrow> string" where
  "join_with c [] = []"
| "join_with c [s] = s"
| "join_with c (s # t # ss) = s @ c # join_with c (t # ss)"

text \<open>The 16-bit groups of an address, and their bytes.\<close>

fun ip_groups :: "bytes \<Rightarrow> nat list" where
  "ip_groups (a # b # bs) = (256 * unat a + unat b) # ip_groups bs"
| "ip_groups _ = []"

definition group_bytes :: "nat \<Rightarrow> bytes" where
  "group_bytes g = [of_nat (g div 256), of_nat g]"

text \<open>
  The run of zero groups that is printed as \<open>::\<close>, as the loop of \<open>netip.Addr.appendTo6\<close> finds it:
  the first one of maximal length, and at least two groups. \<open>(255, 255)\<close> means that there is none.
\<close>

definition zero_end :: "nat list \<Rightarrow> nat \<Rightarrow> nat" where
  "zero_end ws i = i + length (takeWhile (\<lambda>w. w = 0) (drop i ws))"

definition zero_pick :: "nat list \<Rightarrow> nat \<times> nat \<Rightarrow> nat \<Rightarrow> nat \<times> nat" where
  "zero_pick ws r i = (case r of (s, e) \<Rightarrow>
     if zero_end ws i - i \<ge> 2 \<and> zero_end ws i - i > e - s then (i, zero_end ws i) else (s, e))"

definition zero_run :: "nat list \<Rightarrow> nat \<times> nat" where
  "zero_run ws = foldl (zero_pick ws) (255, 255) [0..<8]"

definition show_v6 :: "nat list \<Rightarrow> string" where
  "show_v6 ws = (case zero_run ws of (s, e) \<Rightarrow>
     if s < 8 then join_with (CHR '':'') (map show_group (take s ws)) @ ''::'' @ join_with (CHR '':'') (map show_group (drop e ws))
     else join_with (CHR '':'') (map show_group ws))"

definition IP_String :: "IP \<Rightarrow> string" where
  "IP_String ip =
     (if ip = [] then ''<nil>''
      else if length ip \<noteq> 4 \<and> length ip \<noteq> 16
        then CHR ''?'' # concat (map (\<lambda>b. [hex_digit (unat b div 16), hex_digit (unat b mod 16)]) ip)
      else case To4 ip of
        Some p4 \<Rightarrow> join_with (CHR ''.'') (map show_octet p4)
      | None \<Rightarrow> show_v6 (ip_groups ip))"

section \<open>ParseIP\<close>

text \<open>
  \<open>parseIPv4Fields\<close>: the value and the number of digits of the current octet, and the octets read.
  An empty octet is one that has no digit when its dot or the end comes.
\<close>

fun v4_fields :: "string \<Rightarrow> nat \<Rightarrow> nat \<Rightarrow> bytes \<Rightarrow> bytes option" where
  "v4_fields [] val digLen fs = (if length fs < 3 then None else Some (fs @ [of_nat val]))"
| "v4_fields (c # s) val digLen fs =
     (if is_digit c then
        (if digLen = 1 \<and> val = 0 then None
         else if val * 10 + (code c - 48) > 255 then None
         else v4_fields s (val * 10 + (code c - 48)) (digLen + 1) fs)
      else if c = CHR ''.'' then
        (if digLen = 0 \<or> s = [] then None
         else if length fs = 3 then None
         else v4_fields s 0 0 (fs @ [of_nat val]))
      else None)"

definition parseIPv4 :: "string \<Rightarrow> bytes option" where
  "parseIPv4 s = v4_fields s 0 0 []"

text \<open>A group of hexadecimal digits and what follows it.\<close>

definition hex_digits :: "string \<Rightarrow> string" where
  "hex_digits s = takeWhile (\<lambda>c. hex_val c \<noteq> None) s"

definition hex_value :: "string \<Rightarrow> nat" where
  "hex_value s = foldl (\<lambda>acc c. acc * 16 + the (hex_val c)) 0 s"

text \<open>
  The loop of \<open>parseIPv6\<close>: \<open>n\<close> more groups fit, \<open>ip\<close> are the bytes read, \<open>ell\<close> is the position of
  the ellipsis. The result has the rest of the text, which is not empty if sixteen bytes came first.
\<close>

fun v6_loop :: "nat \<Rightarrow> bytes \<Rightarrow> nat option \<Rightarrow> string \<Rightarrow> (bytes \<times> nat option \<times> string) option" where
  "v6_loop 0 ip ell s = Some (ip, ell, s)"
| "v6_loop (Suc n) ip ell s =
     (let ds = hex_digits s; rest = drop (length ds) s in
      if length ds > 4 \<or> ds = [] then None
      else case rest of
        [] \<Rightarrow> Some (ip @ group_bytes (hex_value ds), ell, [])
      | c # r \<Rightarrow>
          if c = CHR ''.'' then
            (if ell = None \<and> length ip \<noteq> 12 \<or> length ip + 4 > 16 then None
             else case v4_fields s 0 0 [] of None \<Rightarrow> None | Some fs \<Rightarrow> Some (ip @ fs, ell, []))
          else if c \<noteq> CHR '':'' \<or> r = [] then None
          else if hd r = CHR '':'' then
            (if ell \<noteq> None then None
             else if tl r = [] then Some (ip @ group_bytes (hex_value ds), Some (length ip + 2), [])
             else v6_loop n (ip @ group_bytes (hex_value ds)) (Some (length ip + 2)) (tl r))
          else v6_loop n (ip @ group_bytes (hex_value ds)) ell r)"

definition v6_expand :: "(bytes \<times> nat option \<times> string) option \<Rightarrow> bytes option" where
  "v6_expand res = (case res of
      None \<Rightarrow> None
    | Some (ip, ell, s) \<Rightarrow>
        if s \<noteq> [] then None
        else if length ip < 16 then
          (case ell of None \<Rightarrow> None | Some e \<Rightarrow> Some (take e ip @ replicate (16 - length ip) 0 @ drop e ip))
        else if ell \<noteq> None then None
        else Some ip)"

text \<open>A zone is refused by \<open>ParseIP\<close>, an empty zone by \<open>parseIPv6\<close>.\<close>

definition parseIPv6 :: "string \<Rightarrow> bytes option" where
  "parseIPv6 s =
     (if CHR ''%'' \<in> set s then None
      else if take 2 s = ''::'' then
        (if drop 2 s = [] then Some (replicate 16 0) else v6_expand (v6_loop 8 [] (Some 0) (drop 2 s)))
      else v6_expand (v6_loop 8 [] None s))"

text \<open>\<open>ParseAddr\<close> looks for the first dot, colon or percent sign. The result has 16 bytes, as \<open>ParseIP\<close>'s.\<close>

definition addr_mark :: "char \<Rightarrow> bool" where
  "addr_mark c \<longleftrightarrow> c \<in> {CHR ''.'', CHR '':'', CHR ''%''}"

definition ParseIP :: "string \<Rightarrow> IP option" where
  "ParseIP s = (case dropWhile (\<lambda>c. \<not> addr_mark c) s of
      [] \<Rightarrow> None
    | c # _ \<Rightarrow>
        if c = CHR ''.'' then map_option As16 (parseIPv4 s)
        else if c = CHR '':'' then parseIPv6 s
        else None)"

section \<open>host:port\<close>

definition JoinHostPort :: "string \<Rightarrow> string \<Rightarrow> string" where
  "JoinHostPort host port =
     (if CHR '':'' \<in> set host then CHR ''['' # host @ '']:'' @ port else host @ CHR '':'' # port)"

definition index_of :: "char \<Rightarrow> string \<Rightarrow> nat option" where
  "index_of c s = (let n = length (takeWhile (\<lambda>x. x \<noteq> c) s) in if n < length s then Some n else None)"

definition last_index_of :: "char \<Rightarrow> string \<Rightarrow> nat option" where
  "last_index_of c s = map_option (\<lambda>n. length s - 1 - n) (index_of c (rev s))"

definition addrErr :: "string \<Rightarrow> gerr" where
  "addrErr why = Sentinel (Env why)"

definition split_rest :: "string \<Rightarrow> nat \<Rightarrow> nat \<Rightarrow> nat \<Rightarrow> string \<Rightarrow> (string \<times> string) result" where
  "split_rest hostport i j k host =
     (if CHR ''['' \<in> set (drop j hostport) then Inl (addrErr ''unexpected '[' in address'')
      else if CHR '']'' \<in> set (drop k hostport) then Inl (addrErr ''unexpected ']' in address'')
      else Inr (host, drop (i + 1) hostport))"

definition SplitHostPort :: "string \<Rightarrow> (string \<times> string) result" where
  "SplitHostPort hostport = (case last_index_of (CHR '':'') hostport of
      None \<Rightarrow> Inl (addrErr ''missing port in address'')
    | Some i \<Rightarrow>
        if hostport ! 0 = CHR ''['' then
          (case index_of (CHR '']'') hostport of
             None \<Rightarrow> Inl (addrErr ''missing ']' in address'')
           | Some e \<Rightarrow>
               if e + 1 = length hostport then Inl (addrErr ''missing port in address'')
               else if e + 1 = i then split_rest hostport i 1 (e + 1) (drop 1 (take e hostport))
               else if hostport ! (e + 1) = CHR '':'' then Inl (addrErr ''too many colons in address'')
               else Inl (addrErr ''missing port in address''))
        else if CHR '':'' \<in> set (take i hostport) then Inl (addrErr ''too many colons in address'')
        else split_rest hostport i 0 0 (take i hostport))"

section \<open>Digits and groups read back\<close>

lemma code_char_of: "n < 256 \<Longrightarrow> code (char_of n) = n"
  by simp

lemma v4_digit:
  assumes "d < 10" and "\<not> (k = 1 \<and> v = 0)" and "v * 10 + d \<le> 255"
  shows "v4_fields (char_of (48 + d) # s) v k fs = v4_fields s (v * 10 + d) (k + 1) fs"
  using assms is_digit_char_of [OF assms(1)] by auto

lemma v4_octet: "\<exists>k > 0. \<forall>s. v4_fields (show_octet b @ s) 0 0 fs = v4_fields s (unat b) k fs"
proof -
  define x where "x = unat b"
  have "unat b < 2 ^ LENGTH(8)" by (rule unsigned_less)
  then have x: "x < 256" by (simp add: x_def)
  have d: "x div 100 < 10" "x div 10 mod 10 < 10" "x mod 10 < 10" using x by auto
  consider "x < 10" | "10 \<le> x" "x < 100" | "100 \<le> x" by linarith
  then show ?thesis
  proof cases
    case 1
    then have sh: "show_octet b = [char_of (48 + x)]" by (simp add: show_octet_def x_def [symmetric])
    have "v4_fields (show_octet b @ s) 0 0 fs = v4_fields s x 1 fs" for s
      using v4_digit [of x 0 0 s fs] 1 by (simp add: sh del: v4_fields.simps)
    then show ?thesis unfolding x_def by (intro exI [of _ 1]) simp
  next
    case 2
    then have h: "x div 10 mod 10 = x div 10" "0 < x div 10" "x div 10 < 10" "x div 10 * 10 + x mod 10 = x" by auto
    have sh: "show_octet b = [char_of (48 + x div 10), char_of (48 + x mod 10)]"
      using 2 h(1) by (simp add: show_octet_def x_def [symmetric])
    have "v4_fields (show_octet b @ s) 0 0 fs = v4_fields s x 2 fs" for s
      using v4_digit [of "x div 10" 0 0 "char_of (48 + x mod 10) # s" fs] v4_digit [of "x mod 10" 1 "x div 10" s fs] h x
      by (simp add: sh numeral_2_eq_2 del: v4_fields.simps)
    then show ?thesis unfolding x_def by (intro exI [of _ 2]) simp
  next
    case 3
    have "x div 100 = x div 10 div 10" by (simp add: div_mult2_eq [symmetric])
    then have h: "0 < x div 100" "x div 100 * 10 + x div 10 mod 10 = x div 10" "x div 10 * 10 + x mod 10 = x" "x div 10 \<le> 255" "x div 100 \<le> 255"
      "0 < x div 10" using x 3 by auto
    have sh: "show_octet b = [char_of (48 + x div 100), char_of (48 + x div 10 mod 10), char_of (48 + x mod 10)]"
      using 3 by (simp add: show_octet_def x_def [symmetric])
    have "v4_fields (show_octet b @ s) 0 0 fs = v4_fields s x 3 fs" for s
      using v4_digit [of "x div 100" 0 0 "char_of (48 + x div 10 mod 10) # char_of (48 + x mod 10) # s" fs]
        v4_digit [of "x div 10 mod 10" 1 "x div 100" "char_of (48 + x mod 10) # s" fs] v4_digit [of "x mod 10" 2 "x div 10" s fs] h d x
      by (simp add: sh numeral_3_eq_3 numeral_2_eq_2 del: v4_fields.simps)
    then show ?thesis unfolding x_def by (intro exI [of _ 3]) simp
  qed
qed

lemma show_octet_nonempty [simp]: "show_octet b \<noteq> []"
  by (simp add: show_octet_def Let_def)

lemma v4_octet_dot:
  assumes "length fs < 3" and "s \<noteq> []"
  shows "v4_fields (show_octet b @ CHR ''.'' # s) 0 0 fs = v4_fields s 0 0 (fs @ [b])"
proof -
  obtain k where "k > 0" "v4_fields (show_octet b @ CHR ''.'' # s) 0 0 fs = v4_fields (CHR ''.'' # s) (unat b) k fs"
    using v4_octet by blast
  then show ?thesis using assms by (simp add: is_digit_def)
qed

lemma v4_octet_end: "length fs = 3 \<Longrightarrow> v4_fields (show_octet b) 0 0 fs = Some (fs @ [b])"
proof -
  assume n: "length fs = 3"
  obtain k where "v4_fields (show_octet b @ []) 0 0 fs = v4_fields [] (unat b) k fs" using v4_octet by blast
  then show ?thesis using n by simp
qed

lemma parseIPv4_show: "parseIPv4 (join_with (CHR ''.'') (map show_octet [a, b, c, d])) = Some [a, b, c, d]"
  by (simp add: parseIPv4_def v4_octet_dot v4_octet_end)

text \<open>Digits are neither separators nor brackets.\<close>

definition plain_char :: "char \<Rightarrow> bool" where
  "plain_char c \<longleftrightarrow> \<not> addr_mark c \<and> c \<noteq> CHR ''['' \<and> c \<noteq> CHR '']''"

lemma hex_plain: "hex_val c \<noteq> None \<Longrightarrow> plain_char c"
  by (auto simp: is_digit_def hex_val_def plain_char_def addr_mark_def)

lemma digit_plain: "is_digit c \<Longrightarrow> plain_char c"
  by (rule hex_plain) (simp add: hex_val_def)

lemma plain_chars: "\<not> plain_char (CHR ''.'')" "\<not> plain_char (CHR '':'')" "\<not> plain_char (CHR ''%'')" "\<not> plain_char (CHR ''['')" "\<not> plain_char (CHR '']'')"
  by (simp_all add: plain_char_def addr_mark_def)

lemma marks_only: "\<forall>x \<in> set s. x = m \<or> plain_char x \<Longrightarrow> c \<noteq> m \<Longrightarrow> \<not> plain_char c \<Longrightarrow> c \<notin> set s"
  by blast

lemma show_octet_digits: "list_all is_digit (show_octet b)"
proof -
  have "unat b < 2 ^ LENGTH(8)" by (rule unsigned_less)
  then have "unat b div 100 < 10" by simp
  then show ?thesis by (simp add: show_octet_def Let_def is_digit_char_of)
qed

lemma show_group_hex:
  assumes "g < 65536"
  shows "list_all (\<lambda>c. hex_val c \<noteq> None) (show_group g)" and "show_group g \<noteq> []" and "length (show_group g) \<le> 4"
proof -
  have "g div 0x1000 < 16" using assms by simp
  then show "list_all (\<lambda>c. hex_val c \<noteq> None) (show_group g)" by (simp add: show_group_def hex_val_hex_digit)
qed (simp_all add: show_group_def)

lemma hex_value_snoc: "hex_value (s @ [c]) = hex_value s * 16 + the (hex_val c)"
  by (simp add: hex_value_def)

lemma hex_value_show: "g < 65536 \<Longrightarrow> hex_value (show_group g) = g"
proof -
  assume g: "g < 65536"
  have d: "g div 4096 < 16" using g by simp
  have e: "g mod 16 + 16 * (g div 16) = g" "g div 16 mod 16 + 16 * (g div 256) = g div 16" "g div 256 mod 16 + 16 * (g div 4096) = g div 256"
    using mod_mult_div_eq [of g 16] mod_mult_div_eq [of "g div 16" 16] mod_mult_div_eq [of "g div 256" 16] by (simp_all add: div_mult2_eq [symmetric])
  then show ?thesis using d by (auto simp: show_group_def hex_value_def hex_val_hex_digit) (use e in linarith)+
qed

lemma hex_digits_show:
  assumes "g < 65536" and "t = [] \<or> hex_val (hd t) = None"
  shows "hex_digits (show_group g @ t) = show_group g"
proof -
  have "\<forall>c \<in> set (show_group g). hex_val c \<noteq> None" using show_group_hex(1) [OF assms(1)] by (simp add: list_all_iff)
  then show ?thesis using assms(2) unfolding hex_digits_def by (cases t) (auto simp: takeWhile_append)
qed

lemma group_bytes_value: "group_bytes (256 * unat a + unat b) = [a, b]"
proof -
  have "unat b < 2 ^ LENGTH(8)" by (rule unsigned_less)
  then have "(256 * unat a + unat b) div 256 = unat a" by simp
  moreover have z: "(256 :: byte) = 0" by simp
  have "(of_nat (256 * unat a + unat b) :: byte) = b"
    by (simp only: of_nat_add of_nat_mult of_nat_numeral z mult_zero_left add_0_left) simp
  ultimately show ?thesis by (simp add: group_bytes_def)
qed

lemma ip_groups_bytes: "even (length ip) \<Longrightarrow> concat (map group_bytes (ip_groups ip)) = ip"
  by (induction ip rule: ip_groups.induct) (simp_all add: group_bytes_value)

lemma ip_groups_length: "length (ip_groups ip) = length ip div 2"
  by (induction ip rule: ip_groups.induct) auto

lemma ip_groups_bound: "\<forall>g \<in> set (ip_groups ip). g < 65536"
proof (induction ip rule: ip_groups.induct)
  case (1 a b bs)
  have "unat a < 2 ^ LENGTH(8)" "unat b < 2 ^ LENGTH(8)" by (rule unsigned_less)+
  then show ?case using 1 by simp
qed simp_all

section \<open>IPv6 addresses read back\<close>

lemma join_Cons: "join_with c (s # ss) = (if ss = [] then s else s @ c # join_with c ss)"
  by (cases ss) simp_all

abbreviation shown :: "nat list \<Rightarrow> string" where
  "shown ws \<equiv> join_with (CHR '':'') (map show_group ws)"

definition bytes_of_groups :: "nat list \<Rightarrow> bytes" where
  "bytes_of_groups ws = concat (map group_bytes ws)"

lemma bytes_of_groups_simps [simp]:
  "bytes_of_groups [] = []" "bytes_of_groups (w # ws) = group_bytes w @ bytes_of_groups ws"
  "bytes_of_groups (ws @ us) = bytes_of_groups ws @ bytes_of_groups us"
  by (simp_all add: bytes_of_groups_def)

lemma length_bytes_of_groups [simp]: "length (bytes_of_groups ws) = 2 * length ws"
  by (induction ws) (simp_all add: group_bytes_def)

lemma shown_hd:
  assumes "ws \<noteq> []" and "\<forall>w \<in> set ws. w < 65536"
  obtains c s where "shown ws = c # s" "hex_val c \<noteq> None"
proof -
  obtain w us where ws: "ws = w # us" using assms(1) by (cases ws) auto
  then have w: "w < 65536" using assms(2) by simp
  obtain c s where g: "show_group w = c # s" using show_group_hex(2) [OF w] by (cases "show_group w") auto
  then have "hex_val c \<noteq> None" using show_group_hex(1) [OF w] by simp
  then show ?thesis using that ws g by (cases "us = []") (simp_all add: join_Cons)
qed

lemma shown_nonempty: "\<forall>w \<in> set ws. w < 65536 \<Longrightarrow> shown ws = [] \<longleftrightarrow> ws = []"
  by (cases ws) (simp_all add: join_Cons show_group_hex(2))

text \<open>One turn of the loop on a printed group.\<close>

lemma v6_group:
  assumes "w < 65536"
  shows "v6_loop (Suc n) ip ell (show_group w) = Some (ip @ group_bytes w, ell, [])"
    and "r \<noteq> [] \<Longrightarrow> hd r \<noteq> CHR '':'' \<Longrightarrow>
      v6_loop (Suc n) ip ell (show_group w @ CHR '':'' # r) = v6_loop n (ip @ group_bytes w) ell r"
    and "v6_loop (Suc n) ip None (show_group w @ CHR '':'' # CHR '':'' # u) =
      (if u = [] then Some (ip @ group_bytes w, Some (length ip + 2), [])
       else v6_loop n (ip @ group_bytes w) (Some (length ip + 2)) u)"
proof -
  note g = show_group_hex [OF assms] hex_value_show [OF assms]
  have c: "hex_val (CHR '':'') = None" by (simp add: hex_val_def is_digit_def)
  have d: "hex_digits (show_group w) = show_group w" using hex_digits_show [OF assms, of "[]"] by simp
  have dc: "hex_digits (show_group w @ CHR '':'' # t) = show_group w" for t
    using hex_digits_show [OF assms, of "CHR '':'' # t"] c by simp
  show "v6_loop (Suc n) ip ell (show_group w) = Some (ip @ group_bytes w, ell, [])"
    using g by (simp add: d Let_def)
  show "r \<noteq> [] \<Longrightarrow> hd r \<noteq> CHR '':'' \<Longrightarrow>
      v6_loop (Suc n) ip ell (show_group w @ CHR '':'' # r) = v6_loop n (ip @ group_bytes w) ell r"
    using g by (simp add: dc Let_def)
  show "v6_loop (Suc n) ip None (show_group w @ CHR '':'' # CHR '':'' # u) =
      (if u = [] then Some (ip @ group_bytes w, Some (length ip + 2), [])
       else v6_loop n (ip @ group_bytes w) (Some (length ip + 2)) u)"
    using g by (simp add: dc Let_def)
qed

lemma v6_loop_shown:
  "ws \<noteq> [] \<Longrightarrow> length ws \<le> n \<Longrightarrow> \<forall>w \<in> set ws. w < 65536 \<Longrightarrow>
     v6_loop n ip ell (shown ws) = Some (ip @ bytes_of_groups ws, ell, [])"
proof (induction ws arbitrary: n ip)
  case (Cons w ws)
  then obtain m where n: "n = Suc m" by (cases n) auto
  have w: "w < 65536" using Cons.prems by simp
  show ?case
  proof (cases "ws = []")
    case False
    then obtain c s where s: "shown ws = c # s" "hex_val c \<noteq> None" using shown_hd [of ws] Cons.prems(3) by auto
    then have "hd (shown ws) \<noteq> CHR '':''" using hex_plain plain_chars by auto
    then show ?thesis using v6_group(2) [OF w, of "shown ws" m] Cons.IH [OF False, of m] Cons.prems False s(1) n
      by (simp add: join_Cons del: v6_loop.simps)
  qed (use v6_group(1) [OF w] n in simp)
qed simp

lemma v6_loop_ellipsis:
  "ws \<noteq> [] \<Longrightarrow> length ws \<le> n \<Longrightarrow> \<forall>w \<in> set ws. w < 65536 \<Longrightarrow>
     v6_loop n ip None (shown ws @ ''::'' @ u) =
       (if u = [] then Some (ip @ bytes_of_groups ws, Some (length ip + 2 * length ws), [])
        else v6_loop (n - length ws) (ip @ bytes_of_groups ws) (Some (length ip + 2 * length ws)) u)"
proof (induction ws arbitrary: n ip)
  case (Cons w ws)
  then obtain m where n: "n = Suc m" by (cases n) auto
  have w: "w < 65536" using Cons.prems by simp
  show ?case
  proof (cases "ws = []")
    case False
    then obtain c s where s: "shown ws = c # s" "hex_val c \<noteq> None" using shown_hd [of ws] Cons.prems(3) by auto
    then have "hd (shown ws @ ''::'' @ u) \<noteq> CHR '':''" using hex_plain plain_chars by auto
    then show ?thesis using v6_group(2) [OF w, of "shown ws @ ''::'' @ u" m] Cons.IH [OF False, of m] Cons.prems False s(1) n
      by (simp add: join_Cons group_bytes_def del: v6_loop.simps)
  next
    case True
    then show ?thesis using v6_group(3) [OF w, of m ip u] n by (simp del: v6_loop.simps)
  qed
qed simp

text \<open>The run of zeros that is left out.\<close>

definition run_ok :: "nat list \<Rightarrow> nat \<times> nat \<Rightarrow> bool" where
  "run_ok ws r \<longleftrightarrow> r = (255, 255) \<or>
     (case r of (s, e) \<Rightarrow> s < 8 \<and> s + 2 \<le> e \<and> e \<le> length ws \<and> take (e - s) (drop s ws) = replicate (e - s) 0)"

lemma takeWhile_zeros: "takeWhile (\<lambda>w. w = (0 :: nat)) xs = replicate (length (takeWhile (\<lambda>w. w = 0) xs)) 0"
  by (induction xs) auto

lemma zero_pick_ok:
  assumes "run_ok ws r" and "i < 8" and "length ws = 8"
  shows "run_ok ws (zero_pick ws r i)"
proof -
  let ?z = "takeWhile (\<lambda>w. w = 0) (drop i ws)"
  have e: "zero_end ws i = i + length ?z" by (simp add: zero_end_def)
  have "length ?z \<le> length (drop i ws)" by (rule length_takeWhile_le)
  then have "zero_end ws i \<le> length ws" using e assms by simp
  moreover have "take (length ?z) (drop i ws) = replicate (length ?z) 0"
    unfolding takeWhile_eq_take [symmetric] by (rule takeWhile_zeros)
  moreover have "zero_pick ws r i = r \<or> zero_pick ws r i = (i, zero_end ws i) \<and> 2 \<le> zero_end ws i - i"
    by (auto simp: zero_pick_def split: prod.splits)
  ultimately show ?thesis using assms e by (elim disjE) (simp_all add: run_ok_def)
qed

lemma zero_run_ok: "length ws = 8 \<Longrightarrow> run_ok ws (zero_run ws)"
proof -
  assume n: "length ws = 8"
  have "run_ok ws r \<Longrightarrow> \<forall>i \<in> set is. i < 8 \<Longrightarrow> run_ok ws (foldl (zero_pick ws) r is)" for r "is"
    by (induction "is" arbitrary: r) (simp_all add: zero_pick_ok n)
  then show ?thesis by (simp add: zero_run_def run_ok_def)
qed

lemma bytes_of_zeros: "bytes_of_groups (replicate n 0) = replicate (2 * n) 0"
  by (induction n) (simp_all add: group_bytes_def)

lemma run_ok_split:
  assumes "run_ok ws (s, e)" and "s < 8"
  shows "bytes_of_groups ws = bytes_of_groups (take s ws) @ replicate (2 * (e - s)) 0 @ bytes_of_groups (drop e ws)"
    and "s + 2 \<le> e" and "e \<le> length ws"
proof -
  have r: "s + 2 \<le> e" "e \<le> length ws" "take (e - s) (drop s ws) = replicate (e - s) 0"
    using assms by (auto simp: run_ok_def)
  then show "s + 2 \<le> e" "e \<le> length ws" by simp_all
  have "ws = take s ws @ take (e - s) (drop s ws) @ drop e ws"
    using r(1) by (metis append_take_drop_id drop_drop le_add_diff_inverse2 add_leD1)
  then show "bytes_of_groups ws = bytes_of_groups (take s ws) @ replicate (2 * (e - s)) 0 @ bytes_of_groups (drop e ws)"
    using r(3) by (metis bytes_of_groups_simps(3) bytes_of_zeros)
qed

lemma in_set_join: "x \<in> set (join_with c ss) \<Longrightarrow> x = c \<or> (\<exists>s \<in> set ss. x \<in> set s)"
  by (induction c ss rule: join_with.induct) auto

lemma shown_chars: "\<forall>w \<in> set ws. w < 65536 \<Longrightarrow> x \<in> set (shown ws) \<Longrightarrow> x = CHR '':'' \<or> plain_char x"
  using show_group_hex(1) hex_plain by (fastforce simp: list_all_iff dest!: in_set_join)

lemma show_v6_chars:
  assumes "\<forall>w \<in> set ws. w < 65536" and "length ws = 8"
  shows "\<forall>x \<in> set (show_v6 ws). x = CHR '':'' \<or> plain_char x" and "CHR '':'' \<in> set (show_v6 ws)"
proof -
  obtain s e where r: "zero_run ws = (s, e)" by fastforce
  have "\<forall>w \<in> set (take s ws). w < 65536" "\<forall>w \<in> set (drop e ws). w < 65536"
    using assms(1) by (auto dest: in_set_takeD in_set_dropD)
  then show "\<forall>x \<in> set (show_v6 ws). x = CHR '':'' \<or> plain_char x"
    using shown_chars assms(1) by (auto simp: show_v6_def r)
  obtain a b us where "ws = a # b # us" using assms(2) by (cases ws; cases "tl ws") auto
  then have "CHR '':'' \<in> set (shown ws)" by simp
  then show "CHR '':'' \<in> set (show_v6 ws)" by (simp add: show_v6_def r)
qed

lemma parseIPv6_show:
  assumes "\<forall>w \<in> set ws. w < 65536" and n: "length ws = 8"
  shows "parseIPv6 (show_v6 ws) = Some (bytes_of_groups ws)"
proof -
  have pc: "CHR ''%'' \<notin> set (show_v6 ws)"
    by (rule marks_only [OF show_v6_chars(1) [OF assms]]) (simp_all add: plain_chars)
  have front: "take 2 (shown us @ t) \<noteq> ''::''" if us: "us \<noteq> []" "\<forall>w \<in> set us. w < 65536" for us t
  proof -
    obtain c s where "shown us = c # s" "hex_val c \<noteq> None" using shown_hd [OF us] by blast
    then show ?thesis using hex_plain plain_chars by auto
  qed
  obtain s e where r: "zero_run ws = (s, e)" by fastforce
  show ?thesis
  proof (cases "s < 8")
    case False
    have wn: "ws \<noteq> []" using n by auto
    have "v6_loop 8 [] None (shown ws) = Some (bytes_of_groups ws, None, [])"
      using v6_loop_shown [where ws = ws and n = 8 and ip = "[]" and ell = None] wn assms by simp
    moreover have "take 2 (shown ws) \<noteq> ''::''" using front [where us = ws and t = "[]"] wn assms(1) by simp
    ultimately show ?thesis using pc False n by (simp add: parseIPv6_def show_v6_def r v6_expand_def)
  next
    case True
    note ok = run_ok_split [OF zero_run_ok [OF n, unfolded r] True]
    let ?a = "take s ws" and ?b = "drop e ws"
    have ab: "\<forall>w \<in> set ?a. w < 65536" "\<forall>w \<in> set ?b. w < 65536" using assms(1) by (auto dest: in_set_takeD in_set_dropD)
    have la: "length ?a = s" "length ?b = 8 - e" using n True by auto
    have sh: "show_v6 ws = shown ?a @ ''::'' @ shown ?b" using True by (simp add: show_v6_def r)
    have ne: "shown ?b = [] \<longleftrightarrow> ?b = []" using shown_nonempty ab(2) by simp
    have len: "16 - (2 * s + 2 * (8 - e)) = 2 * (e - s)" "2 * s + 2 * (8 - e) < 16" using ok(2,3) n by simp_all
    have exp: "v6_expand (Some (bytes_of_groups ?a @ bytes_of_groups ?b, Some (2 * s), [])) = Some (bytes_of_groups ws)"
      using ok(1) len la by (simp add: v6_expand_def)
    show ?thesis
    proof (cases "s = 0")
      case zero: True
      show ?thesis
      proof (cases "?b = []")
        case True
        then have "e = 8" using ok(3) n by simp
        then show ?thesis using True zero pc ok(1) sh by (simp add: parseIPv6_def)
      next
        case False
        then have "v6_loop 8 [] (Some 0) (shown ?b) = Some (bytes_of_groups ?b, Some 0, [])"
          using v6_loop_shown [where ws = ?b and n = 8 and ip = "[]" and ell = "Some 0"] ab(2) n by auto
        then show ?thesis using zero pc sh ne False exp by (simp add: parseIPv6_def)
      qed
    next
      case False
      then have a: "?a \<noteq> []" using n by auto
      have l: "v6_loop 8 [] None (shown ?a @ ''::'' @ shown ?b)
          = Some (bytes_of_groups ?a @ bytes_of_groups ?b, Some (2 * s), [])"
        using v6_loop_ellipsis [where ws = ?a and n = 8 and ip = "[]" and u = "shown ?b"]
          v6_loop_shown [where ws = ?b and n = "8 - s" and ip = "bytes_of_groups ?a" and ell = "Some (2 * s)"] a ab(1)
          ab(2) la ok(2,3) n ne by (cases "?b = []") simp_all
        have f: "take 2 (show_v6 ws) \<noteq> ''::''" unfolding sh by (rule front [OF a ab(1)])
      show ?thesis using f pc exp unfolding parseIPv6_def by (simp only: sh l if_False)
    qed
  qed
qed

section \<open>Addresses read back\<close>

lemma dropWhile_first:
  "\<forall>x \<in> set s. x = c \<or> \<not> P x \<Longrightarrow> P c \<Longrightarrow> c \<in> set s \<Longrightarrow> \<exists>t. dropWhile (\<lambda>x. \<not> P x) s = c # t"
  by (induction s) auto

lemma first_mark:
  assumes "\<forall>x \<in> set s. x = c \<or> plain_char x" and "addr_mark c" and "c \<in> set s"
  shows "\<exists>t. dropWhile (\<lambda>x. \<not> addr_mark x) s = c # t"
  by (rule dropWhile_first) (use assms in \<open>auto simp: plain_char_def\<close>)

text \<open>The characters an address is printed with, by its form.\<close>

lemma show_v4_chars:
  "\<forall>x \<in> set (join_with (CHR ''.'') (map show_octet [a, b, c, d])). x = CHR ''.'' \<or> plain_char x"
  "CHR ''.'' \<in> set (join_with (CHR ''.'') (map show_octet [a, b, c, d]))"
proof -
  have "\<forall>x \<in> set (show_octet o1). plain_char x" for o1
    using show_octet_digits digit_plain unfolding list_all_iff by blast
  then show "\<forall>x \<in> set (join_with (CHR ''.'') (map show_octet [a, b, c, d])). x = CHR ''.'' \<or> plain_char x" by auto
qed simp

lemma IP_String_cases:
  obtains (v4) a b c d where "As16 ip = v4InV6Prefix @ [a, b, c, d]" "IP_String ip = join_with (CHR ''.'') (map show_octet [a, b, c, d])"
      "length ip = 4 \<or> length ip = 16"
  | (v6) "length ip = 16" "As16 ip = ip" "IP_String ip = show_v6 (ip_groups ip)" "\<forall>w \<in> set (ip_groups ip). w < 65536" "length (ip_groups ip) = 8"
  | (other) "length ip \<noteq> 4" "length ip \<noteq> 16" "\<forall>x \<in> set (IP_String ip). plain_char x"
proof (cases "length ip = 4 \<or> length ip = 16")
  case True
  show ?thesis
  proof (cases "To4 ip")
    case (Some p4)
    then have l: "length p4 = 4" by (auto simp: To4_def split: if_splits)
    then obtain a b c d where p: "p4 = [a, b, c, d]" by (auto simp: numeral_eq_Suc length_Suc_conv)
    have "As16 ip = v4InV6Prefix @ p4"
      using Some by (auto simp: To4_def As16_def split: if_splits) (metis append_take_drop_id)
    moreover have "IP_String ip = join_with (CHR ''.'') (map show_octet p4)" using True Some by (auto simp: IP_String_def)
    ultimately show ?thesis using v4 p True by blast
  next
    case None
    then have l: "length ip = 16" using True by (auto simp: To4_def)
    then have "IP_String ip = show_v6 (ip_groups ip)" using None by (auto simp: IP_String_def)
    then show ?thesis using v6 l ip_groups_bound [of ip] ip_groups_length [of ip] by (simp add: As16_def)
  qed
next
  case False
  have "plain_char (hex_digit (unat (b :: byte) div 16))" "plain_char (hex_digit (unat b mod 16))" for b
  proof -
    have "unat b < 2 ^ LENGTH(8)" by (rule unsigned_less)
    then show "plain_char (hex_digit (unat b div 16))" "plain_char (hex_digit (unat b mod 16))"
      by (simp_all add: hex_val_hex_digit hex_plain)
  qed
  moreover have "\<forall>x \<in> set ''?<nil>''. plain_char x" by (simp add: plain_char_def addr_mark_def)
  ultimately have "\<forall>x \<in> set (IP_String ip). plain_char x" using False by (auto simp: IP_String_def)
  then show ?thesis using other False by blast
qed

lemma ParseIP_IP_String:
  "ParseIP (IP_String ip) = (if length ip = 4 \<or> length ip = 16 then Some (As16 ip) else None)"
proof (cases ip rule: IP_String_cases)
  case (v4 a b c d)
  obtain t where "dropWhile (\<lambda>x. \<not> addr_mark x) (IP_String ip) = CHR ''.'' # t"
    using first_mark [OF show_v4_chars(1) _ show_v4_chars(2), of a b c d] v4(2) by (auto simp: addr_mark_def)
  then show ?thesis using parseIPv4_show [of a b c d] v4 by (simp add: ParseIP_def) (simp add: As16_def)
next
  case v6
  obtain t where "dropWhile (\<lambda>x. \<not> addr_mark x) (IP_String ip) = CHR '':'' # t"
    using first_mark [OF show_v6_chars(1) [OF v6(4,5)] _ show_v6_chars(2) [OF v6(4,5)]] v6(3) by (auto simp: addr_mark_def)
  then show ?thesis using parseIPv6_show [OF v6(4,5)] ip_groups_bytes [of ip] v6 by (simp add: ParseIP_def bytes_of_groups_def)
next
  case other
  then have d: "dropWhile (\<lambda>x. \<not> addr_mark x) (IP_String ip) = []" unfolding dropWhile_eq_Nil_conv by (auto simp: plain_char_def)
  show ?thesis unfolding ParseIP_def d using other by simp
qed

lemma IP_String_brackets: "CHR ''['' \<notin> set (IP_String ip)" "CHR '']'' \<notin> set (IP_String ip)"
proof -
  have "c \<notin> set (IP_String ip)" if c: "\<not> plain_char c" "c \<noteq> CHR ''.''" "c \<noteq> CHR '':''" for c
  proof (cases ip rule: IP_String_cases)
    case v4
    show ?thesis unfolding v4(2) by (rule marks_only [OF show_v4_chars(1) c(2,1)])
  next
    case v6
    show ?thesis unfolding v6(3) by (rule marks_only [OF show_v6_chars(1) [OF v6(4,5)] c(3,1)])
  next
    case other
    then show ?thesis using c by blast
  qed
  then show "CHR ''['' \<notin> set (IP_String ip)" "CHR '']'' \<notin> set (IP_String ip)" using plain_chars by simp_all
qed

lemma index_of_first: "c \<notin> set xs \<Longrightarrow> index_of c (xs @ c # ys) = Some (length xs)"
proof -
  assume "c \<notin> set xs"
  then have "takeWhile (\<lambda>x. x \<noteq> c) (xs @ c # ys) = xs" by (simp add: takeWhile_append)
  then show ?thesis by (simp add: index_of_def)
qed

lemma last_index_of_last: "c \<notin> set ys \<Longrightarrow> last_index_of c (xs @ c # ys) = Some (length xs)"
  using index_of_first [of c "rev ys" "rev xs"] by (simp add: last_index_of_def)

text \<open>\<open>SplitHostPort\<close> undoes \<open>JoinHostPort\<close>.\<close>

lemma SplitHostPort_JoinHostPort:
  assumes host: "CHR ''['' \<notin> set host" "CHR '']'' \<notin> set host" and port: "list_all plain_char port"
  shows "SplitHostPort (JoinHostPort host port) = Inr (host, port)"
proof -
  have p: "CHR '':'' \<notin> set port" "CHR ''['' \<notin> set port" "CHR '']'' \<notin> set port"
    using port plain_chars unfolding list_all_iff by blast+
  show ?thesis
  proof (cases "CHR '':'' \<in> set host")
    case True
    define t where "t = (CHR ''['' # host @ [CHR '']'']) @ CHR '':'' # port"
    have j: "JoinHostPort host port = t" using True by (simp add: JoinHostPort_def t_def)
    have l: "last_index_of (CHR '':'') t = Some (length host + 2)"
      unfolding t_def using last_index_of_last [OF p(1), of "CHR ''['' # host @ [CHR '']'']"] by simp
    have i: "index_of (CHR '']'') t = Some (length host + 1)"
      using index_of_first [of "CHR '']''" "CHR ''['' # host" "CHR '':'' # port"] host(2) by (simp add: t_def)
    have d: "t ! 0 = CHR ''[''" "length t = length host + length port + 3" "drop 1 (take (length host + 1) t) = host"
      "drop 1 t = host @ CHR '']'' # CHR '':'' # port" "drop (length host + 2) t = CHR '':'' # port" "drop (length host + 3) t = port"
      by (simp_all add: t_def numeral_3_eq_3)
    show ?thesis unfolding j using host p d by (simp add: SplitHostPort_def l i split_rest_def eval_nat_numeral)
  next
    case False
    define t where "t = host @ CHR '':'' # port"
    have j: "JoinHostPort host port = t" using False by (simp add: JoinHostPort_def t_def)
    have l: "last_index_of (CHR '':'') t = Some (length host)" unfolding t_def using last_index_of_last [OF p(1)] .
    have d: "t ! 0 \<noteq> CHR ''[''" "take (length host) t = host" "drop (length host + 1) t = port"
      using host(1) by (cases host; auto simp: t_def)+
    have n: "CHR ''['' \<notin> set t" "CHR '']'' \<notin> set t" using host p by (simp_all add: t_def)
    show ?thesis unfolding j using d n False by (simp add: SplitHostPort_def l split_rest_def)
  qed
qed

lemma show_nat_plain: "list_all plain_char (show_nat n)"
  using show_nat_digits [of n] digit_plain unfolding list_all_iff by blast

lemma ParseIP_plain: "list_all plain_char s \<Longrightarrow> ParseIP s = None"
proof -
  assume "list_all plain_char s"
  then have d: "dropWhile (\<lambda>x. \<not> addr_mark x) s = []"
    unfolding dropWhile_eq_Nil_conv list_all_iff by (auto simp: plain_char_def)
  show "ParseIP s = None" unfolding ParseIP_def d by simp
qed

section \<open>Hosts that are read as IPv4 addresses\<close>

text \<open>
  \<open>parseIPv4Fields\<close> accepts only what \<open>IP.String\<close> prints: each octet is read digit by digit in the
  form in which it is shown.
\<close>

lemma show_octet_digit: "d < 10 \<Longrightarrow> show_octet (of_nat d) = [char_of (48 + d)]"
  by (simp add: show_octet_def unat_of_nat take_bit_nat_def)

lemma show_octet_snoc:
  assumes "0 < x" and "x * 10 + d \<le> 255" and "d < 10"
  shows "show_octet (of_nat (x * 10 + d)) = show_octet (of_nat x) @ [char_of (48 + d)]"
proof -
  have small: "unat (of_nat n :: byte) = n" if "n \<le> 255" for n
    using that by (simp add: unat_of_nat take_bit_nat_def)
  have u: "unat (of_nat (x * 10 + d) :: byte) = x * 10 + d" "unat (of_nat x :: byte) = x"
    using small [of "x * 10 + d"] small [of x] assms by linarith+
  have d: "(x * 10 + d) div 10 = x" "(x * 10 + d) mod 10 = d" using assms(3) by auto
  have e: "(x * 10 + d) div 100 = x div 10" using d(1) by (simp add: div_mult2_eq [of _ 10 10, simplified])
  show ?thesis
  proof (cases "x < 10")
    case True
    then show ?thesis using assms u d by (simp add: show_octet_def Let_def del: of_nat_add of_nat_mult)
  next
    case False
    then have "x div 10 mod 10 = x div 10" using assms(2) by simp
    then show ?thesis using False assms u d e by (simp add: show_octet_def Let_def del: of_nat_add of_nat_mult)
  qed
qed

lemma digit_char: "is_digit c \<Longrightarrow> c = char_of (48 + (code c - 48)) \<and> code c - 48 < 10"
  by (auto simp: is_digit_def)

lemma v4_fields_shown:
  assumes "v4_fields s val k fs = Some r" and "length fs \<le> 3" and "k = 0 \<longrightarrow> val = 0 \<and> s \<noteq> []"
    and "k \<noteq> 0 \<longrightarrow> k = length (show_octet (of_nat val)) \<and> val \<le> 255"
  shows "\<exists>os. os \<noteq> [] \<and> r = fs @ os \<and> length r = 4
    \<and> (if k = 0 then [] else show_octet (of_nat val)) @ s = join_with (CHR ''.'') (map show_octet os)"
  using assms
proof (induction s val k fs rule: v4_fields.induct)
  case (1 val k fs)
  then show ?case by (intro exI [of _ "[of_nat val]"]) (auto split: if_splits)
next
  case (2 c s val k fs)
  show ?case
  proof (cases "is_digit c")
    case True
    note c = digit_char [OF True]
    let ?v = "val * 10 + (code c - 48)"
    have step: "\<not> (k = 1 \<and> val = 0)" "?v \<le> 255" "v4_fields s ?v (k + 1) fs = Some r"
      using 2(3) True by (auto split: if_splits)
    have pos: "0 < val" if "k \<noteq> 0"
      using that step(1) 2(6) show_octet_digit [of 0] by (cases "val = 0") auto
    have sh: "show_octet (of_nat ?v) = (if k = 0 then [] else show_octet (of_nat val)) @ [c]"
      using c 2(5) show_octet_digit [of "code c - 48"] show_octet_snoc [of val "code c - 48"] pos step(2) by auto
    then have len: "k + 1 = length (show_octet (of_nat ?v))" using 2(6) by simp
    have p: "\<not> 255 < ?v" "k + 1 = 0 \<longrightarrow> ?v = 0 \<and> s \<noteq> []" using step(2) by simp_all
    have l: "k + 1 \<noteq> 0 \<longrightarrow> k + 1 = length (show_octet (of_nat ?v)) \<and> ?v \<le> 255" using len step(2) by blast
    obtain os where os: "os \<noteq> []" "r = fs @ os" "length r = 4"
        "(if k + 1 = 0 then [] else show_octet (of_nat ?v)) @ s = join_with (CHR ''.'') (map show_octet os)"
      using 2(1) [OF True step(1) p(1) step(3) 2(4) p(2) l] by blast
    have "show_octet (of_nat ?v) @ s = join_with (CHR ''.'') (map show_octet os)"
      using os(4) by (simp only: add_is_0 one_neq_zero simp_thms if_False)
    then have "((if k = 0 then [] else show_octet (of_nat val)) @ [c]) @ s = join_with (CHR ''.'') (map show_octet os)"
      by (simp only: sh)
    then show ?thesis using os(1-3) by (intro exI [of _ os]) simp
  next
    case False
    then have step: "c = CHR ''.''" "k \<noteq> 0" "s \<noteq> []" "length fs \<noteq> 3" "v4_fields s 0 0 (fs @ [of_nat val]) = Some r"
      using 2(3) by (auto split: if_splits)
    have p: "\<not> (k = 0 \<or> s = [])" "length (fs @ [of_nat val]) \<le> 3" using step(2-4) 2(4) by simp_all
    have l: "0 = (0 :: nat) \<longrightarrow> (0 :: nat) = 0 \<and> s \<noteq> []"
        "(0 :: nat) \<noteq> 0 \<longrightarrow> 0 = length (show_octet (of_nat 0)) \<and> (0 :: nat) \<le> 255" using step(3) by simp_all
    obtain os where os: "os \<noteq> []" "r = (fs @ [of_nat val]) @ os" "length r = 4"
        "(if (0 :: nat) = 0 then [] else show_octet (of_nat 0)) @ s = join_with (CHR ''.'') (map show_octet os)"
      using 2(2) [OF False step(1) p(1) step(4,5) p(2) l] by blast
    have "s = join_with (CHR ''.'') (map show_octet os)" using os(4) by simp
    then have "show_octet (of_nat val) @ CHR ''.'' # s = join_with (CHR ''.'') (map show_octet (of_nat val # os))"
      using os(1) by (cases os) simp_all
    then show ?thesis using step(1,2) os(2,3) by (intro exI [of _ "of_nat val # os"]) simp
  qed
qed

lemma IP_String_4: "length p = 4 \<Longrightarrow> IP_String p = join_with (CHR ''.'') (map show_octet p)"
  by (auto simp: IP_String_def To4_def)

lemma parseIPv4_only_shown: "parseIPv4 s = Some p \<Longrightarrow> length p = 4 \<and> s = IP_String p"
proof -
  assume p: "parseIPv4 s = Some p"
  then have "s \<noteq> []" by (auto simp: parseIPv4_def)
  then obtain os where "p = os" "length p = 4" "s = join_with (CHR ''.'') (map show_octet os)"
    using v4_fields_shown [of s 0 0 "[]" p] p by (auto simp: parseIPv4_def)
  then show ?thesis by (simp add: IP_String_4)
qed

text \<open>A host without a colon that is read as an address is a printed IPv4 address.\<close>

lemma ParseIP_no_colon:
  assumes "CHR '':'' \<notin> set host" and "ParseIP host = Some ip"
  shows "\<exists>p. length p = 4 \<and> host = IP_String p \<and> ip = As16 p"
proof (cases "dropWhile (\<lambda>c. \<not> addr_mark c) host")
  case Nil
  have "ParseIP host = None" unfolding ParseIP_def Nil by simp
  then show ?thesis using assms(2) by simp
next
  case (Cons c t)
  then have "c \<in> set host" by (metis dropWhile_eq_Cons_conv in_set_conv_decomp list.set_intros(1) set_dropWhileD)
  then have "c \<noteq> CHR '':''" using assms(1) by blast
  then have "map_option As16 (parseIPv4 host) = Some ip" using assms(2) Cons by (auto simp: ParseIP_def split: if_splits)
  then show ?thesis using parseIPv4_only_shown by blast
qed

lemma SplitHostPort_no_colon: "CHR '':'' \<notin> set s \<Longrightarrow> isl (SplitHostPort s)"
proof -
  assume "CHR '':'' \<notin> set s"
  then have t: "takeWhile (\<lambda>x. x \<noteq> CHR '':'') (rev s) = rev s" by (auto simp: takeWhile_eq_all_conv)
  have "last_index_of (CHR '':'') s = None" unfolding last_index_of_def index_of_def Let_def by (simp add: t)
  then show ?thesis by (simp add: SplitHostPort_def)
qed

text \<open>The loopback addresses.\<close>

lemma IsLoopback_As16:
  assumes "length ip = 4 \<or> length ip = 16"
  shows "IsLoopback (As16 ip) \<longleftrightarrow> (\<exists>b c d. ip = [127, b, c, d] \<or> ip = v4InV6Prefix @ [127, b, c, d]) \<or> ip = IPv6loopback"
proof (cases "To4 ip")
  case (Some p4)
  then obtain a b c d where p: "p4 = [a, b, c, d]" by (auto simp: To4_def numeral_eq_Suc length_Suc_conv split: if_splits)
  have ip: "ip = p4 \<or> ip = v4InV6Prefix @ p4" using Some by (auto simp: To4_def split: if_splits) (metis append_take_drop_id)
  have l: "length v4InV6Prefix = 12" by (simp add: v4InV6Prefix_def)
  then have "As16 ip = v4InV6Prefix @ p4" using ip p by (auto simp: As16_def)
  then have "IsLoopback (As16 ip) \<longleftrightarrow> a = 127" using l p by (simp add: IsLoopback_def To4_def)
  moreover have "ip \<noteq> IPv6loopback" using ip p by (auto simp: IPv6loopback_def v4InV6Prefix_def)
  moreover have "v4InV6Prefix @ xs = ip \<longleftrightarrow> xs = p4" "ip = [127, x, y, z] \<longleftrightarrow> ip = p4 \<and> a = 127 \<and> x = b \<and> y = c \<and> z = d"
    if "ip = v4InV6Prefix @ p4" for xs x y z using that l p by (auto simp: v4InV6Prefix_def)
  ultimately show ?thesis using ip p l by (auto simp: v4InV6Prefix_def)
next
  case None
  then have n: "length ip = 16" "take 12 ip \<noteq> v4InV6Prefix" using assms by (auto simp: To4_def)
  then have "IsLoopback (As16 ip) \<longleftrightarrow> ip = IPv6loopback"
    using None by (simp add: IsLoopback_def As16_def ip_Equal_def IPv6loopback_def)
  moreover have "ip \<noteq> v4InV6Prefix @ xs" for xs using n(2) by (auto simp: v4InV6Prefix_def)
  ultimately show ?thesis using n(1) by auto
qed

end
