(* ===== verification/Config.thy ===== *)
theory Config
  imports NetAddr
begin

text \<open>
  \<open>src/internal/config/config.go\<close>: modes, the configuration record, validation and token
  loading. The file system is an argument (\<open>os.ReadFile\<close>); a Go map that is ranged over is given
  with the order in which the runtime happens to visit it.
\<close>

section \<open>Modes, secrets, configuration\<close>

type_synonym Mode = string

definition ModeRelay :: Mode where "ModeRelay = ''relay''"
definition ModeExit :: Mode where "ModeExit = ''exit-node''"
definition ModeProxy :: Mode where "ModeProxy = ''proxy''"

record Secret =
  sbytes :: bytes

definition emptySecret :: Secret where "emptySecret = \<lparr>sbytes = []\<rparr>"

definition Secret_Value :: "Secret \<Rightarrow> bytes" where
  "Secret_Value s = [] @ sbytes s"

text \<open>
  \<open>subtle.ConstantTimeCompare\<close>: unequal lengths give 0; otherwise the XOR of every byte pair is
  accumulated and compared with zero.
\<close>

definition ConstantTimeCompare :: "bytes \<Rightarrow> bytes \<Rightarrow> nat" where
  "ConstantTimeCompare x y =
     (if length x \<noteq> length y then 0
      else if fold (\<lambda>(a, b) v. Bit_Operations.or v (Bit_Operations.xor a b)) (zip x y) (0 :: byte) = 0
        then 1 else 0)"

definition Secret_Equal :: "Secret \<Rightarrow> Secret \<Rightarrow> bool" where
  "Secret_Equal s t \<longleftrightarrow> ConstantTimeCompare (sbytes s) (sbytes t) = 1"

record Config =
  cMode :: Mode
  cListen :: string
  cRelay :: string
  cTLSName :: string
  cCAPath :: string
  cTLSCert :: string
  cTLSKey :: string
  cTokenFile :: string
  cExitTokenFile :: string
  cProxyTokenFile :: string
  cExitToken :: Secret
  cProxyToken :: Secret
  cToken :: Secret
  cUsername :: string
  cPassword :: string

record ParsedFlags =
  fMode :: Mode
  fListen :: string
  fRelay :: string
  fTLSName :: string
  fCAPath :: string
  fTLSCert :: string
  fTLSKey :: string
  fTokenFile :: string
  fExitTokenFile :: string
  fProxyTokenFile :: string
  fUsername :: string
  fPassword :: string
  fDebug :: bool

text \<open>The zero value of \<open>Config\<close>.\<close>

definition zeroConfig :: Config where
  "zeroConfig = \<lparr>cMode = [], cListen = [], cRelay = [], cTLSName = [], cCAPath = [], cTLSCert = [],
     cTLSKey = [], cTokenFile = [], cExitTokenFile = [], cProxyTokenFile = [],
     cExitToken = emptySecret, cProxyToken = emptySecret, cToken = emptySecret,
     cUsername = [], cPassword = []\<rparr>"

section \<open>Trimming\<close>

text \<open>
  \<open>bytes.TrimSpace\<close> strips every leading and trailing code point with the Unicode white-space
  property. These are their UTF-8 encodings.
\<close>

definition space_encodings :: "bytes list" where
  "space_encodings =
     map (\<lambda>b. [b]) [0x09, 0x0A, 0x0B, 0x0C, 0x0D, 0x20]
     @ [[0xC2, 0x85], [0xC2, 0xA0], [0xE1, 0x9A, 0x80]]
     @ map (\<lambda>b. [0xE2, 0x80, b])
         [0x80, 0x81, 0x82, 0x83, 0x84, 0x85, 0x86, 0x87, 0x88, 0x89, 0x8A, 0xA8, 0xA9, 0xAF]
     @ [[0xE2, 0x81, 0x9F], [0xE3, 0x80, 0x80]]"

definition lead :: "bytes list \<Rightarrow> bytes \<Rightarrow> nat" where
  "lead encs s = (case List.find (\<lambda>e. take (length e) s = e) encs of
      None \<Rightarrow> 0 | Some e \<Rightarrow> length e)"

text \<open>Strip prefixes until none of the encodings matches.\<close>

fun trim_left :: "bytes list \<Rightarrow> bytes \<Rightarrow> bytes" where
  "trim_left encs s =
     (if lead encs s = 0 \<or> s = [] then s else trim_left encs (drop (lead encs s) s))"

definition TrimSpace :: "bytes \<Rightarrow> bytes" where
  "TrimSpace s = rev (trim_left (map rev space_encodings) (rev (trim_left space_encodings s)))"

section \<open>Building and validating\<close>

definition build :: "ParsedFlags \<Rightarrow> Config result" where
  "build p =
     (if fMode p = ModeRelay then
        Inr (zeroConfig\<lparr>cMode := ModeRelay, cListen := fListen p, cTLSCert := fTLSCert p,
          cTLSKey := fTLSKey p, cExitTokenFile := fExitTokenFile p,
          cProxyTokenFile := fProxyTokenFile p\<rparr>)
      else if fMode p = ModeExit then
        Inr (zeroConfig\<lparr>cMode := ModeExit, cRelay := fRelay p, cTLSName := fTLSName p,
          cCAPath := fCAPath p, cTokenFile := fTokenFile p\<rparr>)
      else if fMode p = ModeProxy then
        Inr (zeroConfig\<lparr>cMode := ModeProxy, cListen := fListen p, cRelay := fRelay p,
          cTLSName := fTLSName p, cCAPath := fCAPath p, cTokenFile := fTokenFile p,
          cUsername := fUsername p, cPassword := fPassword p\<rparr>)
      else Inl (ValidationError ''mode'' ''unrecognized mode''))"

definition relay_required :: "Config \<Rightarrow> (string \<times> string) list" where
  "relay_required c =
     [(''-listen'', cListen c), (''-tls-cert'', cTLSCert c), (''-tls-key'', cTLSKey c),
      (''-exit-token-file'', cExitTokenFile c), (''-proxy-token-file'', cProxyTokenFile c)]"

text \<open>\<open>ord\<close> is the iteration order of the required-flag map: a rearrangement of its entries.\<close>

type_synonym map_order = "(string \<times> string) list \<Rightarrow> (string \<times> string) list"

definition config_validate :: "map_order \<Rightarrow> Config \<Rightarrow> gerr option" where
  "config_validate ord c =
     (let e1 =
        (if cMode c = ModeRelay then
           map_option (\<lambda>(f, v). ValidationError f ''required for relay'')
             (List.find (\<lambda>(f, v). v = []) (ord (relay_required c)))
         else if cMode c = ModeExit \<or> cMode c = ModeProxy then
           (if cRelay c = [] then Some (ValidationError ''-relay'' (''required for '' @ cMode c))
            else if cTokenFile c = [] then
              Some (ValidationError ''-token-file'' (''required for '' @ cMode c))
            else None)
         else None)
      in case e1 of
           Some e \<Rightarrow> Some e
         | None \<Rightarrow>
             if cMode c = ModeProxy \<and> (cUsername c = []) \<noteq> (cPassword c = [])
             then Some (ValidationError ''-username/-password''
                    ''both must be provided for proxy authentication'')
             else None)"

section \<open>Loading tokens\<close>

type_synonym files = "string \<Rightarrow> bytes result"

definition loadToken :: "files \<Rightarrow> string \<Rightarrow> Secret result" where
  "loadToken fs path = (case fs path of
      Inl err \<Rightarrow> Inl (Errorf ''read token file %q: %w'' [err])
    | Inr data \<Rightarrow> Inr \<lparr>sbytes = TrimSpace data\<rparr>)"

definition loadTokens :: "files \<Rightarrow> Config \<Rightarrow> Config result" where
  "loadTokens fs c =
     (if cMode c = ModeRelay then
        (case loadToken fs (cExitTokenFile c) of
           Inl err \<Rightarrow> Inl err
         | Inr ex \<Rightarrow>
             (case loadToken fs (cProxyTokenFile c) of
                Inl err \<Rightarrow> Inl err
              | Inr px \<Rightarrow> Inr (c\<lparr>cExitToken := ex, cProxyToken := px\<rparr>)))
      else if cMode c = ModeExit \<or> cMode c = ModeProxy then
        (case loadToken fs (cTokenFile c) of
           Inl err \<Rightarrow> Inl err
         | Inr t \<Rightarrow> Inr (c\<lparr>cToken := t\<rparr>))
      else Inl (ValidationError ''mode'' ''cannot load tokens''))"

text \<open>\<open>ValidationError.Error\<close>.\<close>

definition ValidationError_text :: "string \<Rightarrow> string \<Rightarrow> string" where
  "ValidationError_text field reason = field @ '': '' @ reason"

text \<open>Whether an address, possibly with a port, is a loopback address.\<close>

definition isLoopback :: "string \<Rightarrow> bool" where
  "isLoopback addr =
     (let host = (case SplitHostPort addr of Inr (h, port) \<Rightarrow> h | Inl err \<Rightarrow> addr)
      in case ParseIP host of None \<Rightarrow> False | Some ip \<Rightarrow> IsLoopback ip)"

definition Load :: "map_order \<Rightarrow> files \<Rightarrow> ParsedFlags \<Rightarrow> Config result" where
  "Load ord fs p = (case build p of
      Inl err \<Rightarrow> Inl err
    | Inr c \<Rightarrow>
        (case config_validate ord c of
           Some verr \<Rightarrow> Inl verr
         | None \<Rightarrow> loadTokens fs c))"

section \<open>What a loaded configuration satisfies\<close>

text \<open>The mode-specific guarantees the runners in \<open>cmd/mhp\<close> rely on.\<close>

definition relay_wf :: "files \<Rightarrow> Config \<Rightarrow> bool" where
  "relay_wf fs c \<longleftrightarrow> cMode c = ModeRelay
     \<and> (\<forall>(f, v) \<in> set (relay_required c). v \<noteq> [])
     \<and> loadToken fs (cExitTokenFile c) = Inr (cExitToken c)
     \<and> loadToken fs (cProxyTokenFile c) = Inr (cProxyToken c)"

definition client_wf :: "files \<Rightarrow> Config \<Rightarrow> bool" where
  "client_wf fs c \<longleftrightarrow> (cMode c = ModeExit \<or> cMode c = ModeProxy)
     \<and> cRelay c \<noteq> [] \<and> cTokenFile c \<noteq> []
     \<and> loadToken fs (cTokenFile c) = Inr (cToken c)
     \<and> (cUsername c = [] \<longleftrightarrow> cPassword c = [])"

definition map_order_ok :: "map_order \<Rightarrow> bool" where
  "map_order_ok ord \<longleftrightarrow> (\<forall>xs. set (ord xs) = set xs)"

definition no_lead :: "bytes list \<Rightarrow> bytes \<Rightarrow> bool" where
  "no_lead encs s \<longleftrightarrow> s = [] \<or> (\<forall>e \<in> set encs. take (length e) s \<noteq> e)"

section \<open>Lemmas\<close>

lemmas mode_defs = ModeRelay_def ModeExit_def ModeProxy_def

lemma modes_distinct [simp]:
  "ModeRelay \<noteq> ModeExit" "ModeRelay \<noteq> ModeProxy" "ModeExit \<noteq> ModeProxy"
  "ModeExit \<noteq> ModeRelay" "ModeProxy \<noteq> ModeRelay" "ModeProxy \<noteq> ModeExit"
  by (simp_all add: mode_defs)

declare trim_left.simps [simp del]

lemma lead_zero:
  assumes "[] \<notin> set encs"
  shows "lead encs s = 0 \<longleftrightarrow> (\<forall>e \<in> set encs. take (length e) s \<noteq> e)"
proof (cases "List.find (\<lambda>e. take (length e) s = e) encs")
  case None
  then have "\<forall>e \<in> set encs. take (length e) s \<noteq> e" by (auto simp: find_None_iff)
  with None show ?thesis by (simp add: lead_def)
next
  case (Some e)
  then have "e \<in> set encs" "take (length e) s = e" by (auto simp: find_Some_iff)
  with Some assms show ?thesis by (auto simp: lead_def)
qed

lemma trim_left_no_lead: "[] \<notin> set encs \<Longrightarrow> no_lead encs (trim_left encs s)"
proof (induction encs s rule: trim_left.induct)
  case (1 encs s)
  then show ?case
    by (cases "lead encs s = 0 \<or> s = []")
      (auto simp: trim_left.simps [of encs s] no_lead_def lead_zero)
qed

lemma trim_left_suffix: "\<exists>p. s = p @ trim_left encs s"
proof (induction encs s rule: trim_left.induct)
  case (1 encs s)
  show ?case
  proof (cases "lead encs s = 0 \<or> s = []")
    case True
    then show ?thesis by (auto simp: trim_left.simps [of encs s])
  next
    case False
    then obtain p where p: "drop (lead encs s) s = p @ trim_left encs (drop (lead encs s) s)"
      using "1.IH" by blast
    have "s = take (lead encs s) s @ p @ trim_left encs (drop (lead encs s) s)"
      by (simp flip: p)
    then show ?thesis using False by (simp add: trim_left.simps [of encs s]) (metis append.assoc)
  qed
qed

lemma trim_left_id: "no_lead encs s \<Longrightarrow> [] \<notin> set encs \<Longrightarrow> trim_left encs s = s"
  by (auto simp: trim_left.simps [of encs s] no_lead_def lead_zero)

lemma Nil_not_space [simp]:
  "[] \<notin> set space_encodings" "[] \<notin> set (map rev space_encodings)"
  by (auto simp: space_encodings_def)

lemma no_lead_prefix:
  assumes "no_lead encs (p @ q)" and "p \<noteq> []"
  shows "no_lead encs p"
proof -
  have "take (length e) (p @ q) = e" if "take (length e) p = e" for e
  proof -
    have "length e \<le> length p" using that by (metis length_take min.cobounded1)
    then show ?thesis using that by simp
  qed
  then show ?thesis using assms by (auto simp: no_lead_def)
qed

lemma xor_zero_eq: "Bit_Operations.xor a b = (0 :: byte) \<longleftrightarrow> a = b"
proof
  assume "Bit_Operations.xor a b = 0"
  then have "Bit_Operations.xor (Bit_Operations.xor a b) b = b" by simp
  then show "a = b" by (simp add: xor.assoc)
qed simp

lemma fold_or_xor_zero:
  "fold (\<lambda>(a, b) v. Bit_Operations.or v (Bit_Operations.xor a b)) ps (v :: byte) = 0 \<longleftrightarrow>
     v = 0 \<and> (\<forall>(a, b) \<in> set ps. a = b)"
  by (induction ps arbitrary: v) (auto simp: or_eq_0_iff xor_zero_eq)

lemma list_eq_zip: "length x = length y \<Longrightarrow> (\<forall>(a, b) \<in> set (zip x y). a = b) \<longleftrightarrow> x = y"
  by (induction x y rule: list_induct2) auto

lemma find_empty_relay:
  assumes "map_order_ok ord"
  shows "List.find (\<lambda>(f, v). v = []) (ord (relay_required c)) = None
    \<longleftrightarrow> (\<forall>(f, v) \<in> set (relay_required c). v \<noteq> [])"
  using assms by (auto simp: find_None_iff map_order_ok_def)

lemma validate_relay_None:
  assumes "map_order_ok ord" and "cMode c = ModeRelay"
  shows "config_validate ord c = None \<longleftrightarrow> cListen c \<noteq> [] \<and> cTLSCert c \<noteq> [] \<and> cTLSKey c \<noteq> []
    \<and> cExitTokenFile c \<noteq> [] \<and> cProxyTokenFile c \<noteq> []"
proof -
  have "config_validate ord c = None
      \<longleftrightarrow> List.find (\<lambda>(f, v). v = []) (ord (relay_required c)) = None"
    using assms(2) by (auto simp: config_validate_def Let_def split: option.splits)
  also have "\<dots> \<longleftrightarrow> (\<forall>(f, v) \<in> set (relay_required c). v \<noteq> [])"
    by (rule find_empty_relay [OF assms(1)])
  finally show ?thesis by (auto simp: relay_required_def)
qed

lemma validate_client_None:
  assumes "cMode c = ModeExit \<or> cMode c = ModeProxy"
  shows "config_validate ord c = None \<longleftrightarrow> cRelay c \<noteq> [] \<and> cTokenFile c \<noteq> []
    \<and> (cMode c = ModeProxy \<longrightarrow> (cUsername c = [] \<longleftrightarrow> cPassword c = []))"
  using assms by (auto simp: config_validate_def Let_def)

lemma loadToken_simps:
  "fs path = Inl e \<Longrightarrow> loadToken fs path = Inl (Errorf ''read token file %q: %w'' [e])"
  "fs path = Inr d \<Longrightarrow> loadToken fs path = Inr \<lparr>sbytes = TrimSpace d\<rparr>"
  by (simp_all add: loadToken_def)

lemma loadToken_ok: "(\<exists>t. loadToken fs path = Inr t) \<longleftrightarrow> (\<exists>d. fs path = Inr d)"
  by (auto simp: loadToken_def split: sum.splits)

lemma Load_Inr_iff:
  "Load ord fs p = Inr c \<longleftrightarrow>
     (\<exists>c0. build p = Inr c0 \<and> config_validate ord c0 = None \<and> loadTokens fs c0 = Inr c)"
  by (auto simp: Load_def split: sum.splits option.splits)

lemmas load_defs = Load_Inr_iff build_def loadTokens_def zeroConfig_def

text \<open>
  Token trimming: \<open>TrimSpace\<close> returns a contiguous part of the file's bytes that neither
  starts nor ends with an encoding of a white-space code point, and trimming it again changes
  nothing.
\<close>

theorem TrimSpace_trims:
  "(\<exists>p q. s = p @ TrimSpace s @ q) \<and> no_lead space_encodings (TrimSpace s)
    \<and> no_lead (map rev space_encodings) (rev (TrimSpace s)) \<and> TrimSpace (TrimSpace s) = TrimSpace s"
proof -
  let ?l = "trim_left space_encodings s"
  have l: "no_lead space_encodings ?l" by (rule trim_left_no_lead) simp
  have r: "no_lead (map rev space_encodings) (rev (TrimSpace s))"
    by (simp add: TrimSpace_def trim_left_no_lead del: set_map)
  obtain p where p: "s = p @ ?l" using trim_left_suffix by blast
  obtain q where "rev ?l = q @ rev (TrimSpace s)"
    using trim_left_suffix [of "rev ?l" "map rev space_encodings"] by (auto simp: TrimSpace_def)
  then have q: "?l = TrimSpace s @ rev q" by (metis rev_append rev_rev_ident)
  have t: "no_lead space_encodings (TrimSpace s)"
    using l q no_lead_prefix [of space_encodings "TrimSpace s" "rev q"]
    by (cases "TrimSpace s = []") (auto simp: no_lead_def)
  have "TrimSpace (TrimSpace s) = TrimSpace s"
    using trim_left_id [OF t] trim_left_id [OF r] by (simp add: TrimSpace_def [of "TrimSpace s"] del: set_map)
  moreover have "s = p @ TrimSpace s @ rev q" using p q by simp
  ultimately show ?thesis using t r by blast
qed

text \<open>
  C31. \<open>Load\<close> succeeds exactly on the flag sets the modes require: a relay with all five of its
  flags and two readable token files, an exit node or proxy with relay address and readable token
  file, a proxy moreover with both or neither of the SOCKS5 credentials. The map iteration order
  never decides whether it succeeds.
\<close>

theorem Load_succeeds_iff:
  assumes "map_order_ok ord"
  shows "(\<exists>c. Load ord fs p = Inr c) \<longleftrightarrow>
     fMode p = ModeRelay \<and> fListen p \<noteq> [] \<and> fTLSCert p \<noteq> [] \<and> fTLSKey p \<noteq> []
       \<and> fExitTokenFile p \<noteq> [] \<and> fProxyTokenFile p \<noteq> []
       \<and> (\<exists>d. fs (fExitTokenFile p) = Inr d) \<and> (\<exists>d. fs (fProxyTokenFile p) = Inr d)
   \<or> (fMode p = ModeExit \<or> fMode p = ModeProxy \<and> (fUsername p = [] \<longleftrightarrow> fPassword p = []))
       \<and> fRelay p \<noteq> [] \<and> fTokenFile p \<noteq> [] \<and> (\<exists>d. fs (fTokenFile p) = Inr d)"
proof -
  consider "fMode p = ModeRelay" | "fMode p = ModeExit" | "fMode p = ModeProxy"
    | "fMode p \<notin> {ModeRelay, ModeExit, ModeProxy}" by blast
  then show ?thesis
  proof cases
    case 1
    then show ?thesis
      by (auto simp: load_defs loadToken_def validate_relay_None [OF assms] split: sum.splits)
  qed (auto simp: load_defs loadToken_def validate_client_None split: sum.splits)
qed

theorem Load_succeeds_iff_witness:
  "\<exists>c. Load (\<lambda>xs. rev xs) (\<lambda>path. Inr [0x61])
     \<lparr>fMode = ''exit-node'', fListen = [], fRelay = ''h:443'', fTLSName = [], fCAPath = [], fTLSCert = [],
      fTLSKey = [], fTokenFile = ''t'', fExitTokenFile = [], fProxyTokenFile = [], fUsername = [],
      fPassword = [], fDebug = False\<rparr> = Inr c"
  by (subst Load_succeeds_iff) (simp_all add: map_order_ok_def mode_defs)

text \<open>
  C30. Every configuration \<open>Load\<close> returns carries the mode that was asked for, non-empty required
  options, the trimmed contents of exactly the token files of its role, and paired credentials.
\<close>

theorem Load_wf:
  assumes "map_order_ok ord" and "Load ord fs p = Inr c"
  shows "cMode c = fMode p \<and> (relay_wf fs c \<or> client_wf fs c)"
proof -
  obtain c0 where c0: "build p = Inr c0" "config_validate ord c0 = None" "loadTokens fs c0 = Inr c"
    using assms(2) by (auto simp: Load_Inr_iff)
  then consider "cMode c0 = ModeRelay" "fMode p = ModeRelay"
    | "cMode c0 = ModeExit" "fMode p = ModeExit" "cUsername c0 = cPassword c0"
    | "cMode c0 = ModeProxy" "fMode p = ModeProxy"
    by (auto simp: build_def zeroConfig_def split: if_splits)
  then show ?thesis
  proof cases
    case 1
    then show ?thesis using c0(2,3) validate_relay_None [OF assms(1), of c0]
      by (auto simp: relay_wf_def relay_required_def loadTokens_def split: sum.splits)
  qed (use c0(2,3) validate_client_None [of c0 ord] in
      \<open>auto simp: client_wf_def loadTokens_def split: sum.splits\<close>)
qed

theorem Load_wf_witness:
  "cMode (zeroConfig\<lparr>cMode := ModeExit, cRelay := ''h:443'', cTokenFile := ''t'',
       cToken := \<lparr>sbytes = TrimSpace [0x61]\<rparr>\<rparr>) = ''exit-node'' \<and>
   (relay_wf (\<lambda>path. Inr [0x61]) (zeroConfig\<lparr>cMode := ModeExit, cRelay := ''h:443'',
       cTokenFile := ''t'', cToken := \<lparr>sbytes = TrimSpace [0x61]\<rparr>\<rparr>) \<or>
    client_wf (\<lambda>path. Inr [0x61]) (zeroConfig\<lparr>cMode := ModeExit, cRelay := ''h:443'',
       cTokenFile := ''t'', cToken := \<lparr>sbytes = TrimSpace [0x61]\<rparr>\<rparr>))"
  using Load_wf [of "\<lambda>xs. xs" "\<lambda>path. Inr [0x61]"
     "\<lparr>fMode = ''exit-node'', fListen = [], fRelay = ''h:443'', fTLSName = [], fCAPath = [], fTLSCert = [],
      fTLSKey = [], fTokenFile = ''t'', fExitTokenFile = [], fProxyTokenFile = [], fUsername = [],
      fPassword = [], fDebug = False\<rparr>"
     "zeroConfig\<lparr>cMode := ModeExit, cRelay := ''h:443'', cTokenFile := ''t'',
       cToken := \<lparr>sbytes = TrimSpace [0x61]\<rparr>\<rparr>"]
  by (simp add: map_order_ok_def load_defs mode_defs loadToken_def config_validate_def)

text \<open>
  The proxy's listen address is not restricted: whatever address is given, loopback or
  public, a proxy configuration without SOCKS5 credentials loads and keeps that address.
\<close>

theorem Load_proxy_listen_unrestricted:
  assumes "fMode p = ModeProxy" and "fRelay p \<noteq> []" and "fTokenFile p \<noteq> []"
    and "fs (fTokenFile p) = Inr d" and "fUsername p = []" and "fPassword p = []"
  shows "\<exists>c. Load ord fs p = Inr c \<and> cListen c = fListen p \<and> cUsername c = []"
  using assms by (simp add: load_defs loadToken_def validate_client_None)

theorem Load_proxy_listen_unrestricted_witness:
  "\<exists>c. Load (\<lambda>xs. xs) (\<lambda>path. Inr [0x61])
     \<lparr>fMode = ''proxy'', fListen = ''0.0.0.0:1080'', fRelay = ''h:443'', fTLSName = [], fCAPath = [],
      fTLSCert = [], fTLSKey = [], fTokenFile = ''t'', fExitTokenFile = [], fProxyTokenFile = [],
      fUsername = [], fPassword = [], fDebug = False\<rparr> = Inr c
     \<and> cListen c = ''0.0.0.0:1080'' \<and> cUsername c = []"
  using Load_proxy_listen_unrestricted [of
     "\<lparr>fMode = ''proxy'', fListen = ''0.0.0.0:1080'', fRelay = ''h:443'', fTLSName = [], fCAPath = [],
      fTLSCert = [], fTLSKey = [], fTokenFile = ''t'', fExitTokenFile = [], fProxyTokenFile = [],
      fUsername = [], fPassword = [], fDebug = False\<rparr>" "\<lambda>path. Inr [0x61]" "[0x61]" "\<lambda>xs. xs"]
  by (simp add: mode_defs)

lemma Secret_Equal_iff: "Secret_Equal s t \<longleftrightarrow> s = t"
  by (cases s; cases t)
    (auto simp: Secret_Equal_def ConstantTimeCompare_def fold_or_xor_zero list_eq_zip)



end
