(* ===== verification/Registry.thy ===== *)
theory Registry
  imports Config
begin

text \<open>
  \<open>src/internal/relay/registry.go\<close>: at most one live session per role, with a generation
  counter per slot. A session is an opaque identity of type \<open>'m\<close>; \<open>'m option\<close> is the pointer.
  Each operation runs under the registry's mutex and is therefore one atomic step.
\<close>

section \<open>State and operations\<close>

record 'm slot =
  mux :: "'m option"
  gen :: "64 word"

record 'm registry =
  slots :: "Mode \<rightharpoonup> 'm slot"

definition NewRegistry :: "'m registry" where
  "NewRegistry = \<lparr>slots = Map.empty\<rparr>"

definition Register :: "'m registry \<Rightarrow> Mode \<Rightarrow> 'm option \<Rightarrow> 'm option \<times> 64 word \<times> 'm registry" where
  "Register r mode m =
     (let e = (case slots r mode of None \<Rightarrow> \<lparr>mux = None, gen = 0\<rparr> | Some e \<Rightarrow> e);
          prev = mux e;
          e' = e\<lparr>gen := gen e + 1, mux := m\<rparr>
      in (prev, gen e', r\<lparr>slots := (slots r)(mode \<mapsto> e')\<rparr>))"

definition Current :: "'m registry \<Rightarrow> Mode \<Rightarrow> ('m \<times> 64 word) option" where
  "Current r mode = (case slots r mode of
      None \<Rightarrow> None
    | Some e \<Rightarrow> (case mux e of None \<Rightarrow> None | Some m \<Rightarrow> Some (m, gen e)))"

definition Stale :: "'m registry \<Rightarrow> Mode \<Rightarrow> 64 word \<Rightarrow> bool" where
  "Stale r mode g = (case slots r mode of
      None \<Rightarrow> True
    | Some e \<Rightarrow> (case mux e of None \<Rightarrow> True | Some _ \<Rightarrow> gen e \<noteq> g))"

definition Vacate :: "'m registry \<Rightarrow> Mode \<Rightarrow> 64 word \<Rightarrow> 'm registry" where
  "Vacate r mode g = (case slots r mode of
      None \<Rightarrow> r
    | Some e \<Rightarrow>
        if gen e \<noteq> g then r
        else r\<lparr>slots := (slots r)(mode \<mapsto> e\<lparr>mux := None, gen := gen e + 1\<rparr>)\<rparr>)"

text \<open>Sequences of registry operations, as the relay's session workers interleave them.\<close>

datatype 'm reg_op = OpRegister Mode 'm | OpVacate Mode "64 word"

fun reg_apply :: "'m registry \<Rightarrow> 'm reg_op \<Rightarrow> 'm registry" where
  "reg_apply r (OpRegister k m) = snd (snd (Register r k (Some m)))"
| "reg_apply r (OpVacate k g) = Vacate r k g"

fun reg_run :: "'m registry \<Rightarrow> 'm reg_op list \<Rightarrow> 'm registry" where
  "reg_run r [] = r"
| "reg_run r (x # xs) = reg_run (reg_apply r x) xs"

text \<open>The generation of a slot counts the operations that changed it.\<close>

definition slot_gen :: "'m registry \<Rightarrow> Mode \<Rightarrow> 64 word" where
  "slot_gen r k = (case slots r k of None \<Rightarrow> 0 | Some e \<Rightarrow> gen e)"

section \<open>Abstract contract\<close>

text \<open>
  What the clients of a registry rely on: a map from roles to the current holder and its
  generation. \<open>register\<close> replaces the holder and hands the old one back, \<open>vacate\<close> removes the
  holder only if it still has the given generation, and a new generation differs from the last.
\<close>

locale role_registry =
  fixes holder :: "'r \<Rightarrow> 'k \<Rightarrow> ('m \<times> 'g) option"
    and register :: "'r \<Rightarrow> 'k \<Rightarrow> 'm \<Rightarrow> 'm option \<times> 'g \<times> 'r"
    and vacate :: "'r \<Rightarrow> 'k \<Rightarrow> 'g \<Rightarrow> 'r"
    and stale :: "'r \<Rightarrow> 'k \<Rightarrow> 'g \<Rightarrow> bool"
  assumes register_holder: "register r k m = (p, g, r') \<Longrightarrow> holder r' = (holder r)(k \<mapsto> (m, g))"
    and register_prev: "register r k m = (p, g, r') \<Longrightarrow> p = map_option fst (holder r k)"
    and register_fresh: "register r k m = (p, g, r') \<Longrightarrow> map_option snd (holder r k) \<noteq> Some g"
    and vacate_holder: "holder (vacate r k g) =
        (if map_option snd (holder r k) = Some g then (holder r)(k := None) else holder r)"
    and stale_holder: "stale r k g \<longleftrightarrow> map_option snd (holder r k) \<noteq> Some g"
begin

lemma registered_current: "register r k m = (p, g, r') \<Longrightarrow> holder r' k = Some (m, g) \<and> \<not> stale r' k g"
  by (simp add: register_holder stale_holder)

lemma replaced_is_stale:
  assumes "register r k m = (p, g, r1)" and "register r1 k m2 = (p2, g2, r2)"
  shows "p2 = Some m \<and> stale r2 k g \<and> holder (vacate r2 k g) = holder r2"
  using register_prev [OF assms(2)] register_fresh [OF assms(2)] register_holder [OF assms(1)]
    register_holder [OF assms(2)]
  by (auto simp: stale_holder vacate_holder)

lemma vacate_own:
  "register r k m = (p, g, r1) \<Longrightarrow> holder (vacate r1 k g) = (holder r)(k := None)"
  by (simp add: register_holder vacate_holder)

lemma vacate_idem: "holder (vacate (vacate r k g) k g) = holder (vacate r k g)"
  by (simp add: vacate_holder)

end

section \<open>Lemmas\<close>

lemmas registry_defs = Register_def Current_def Stale_def Vacate_def Let_def

interpretation relay_slots: role_registry Current "\<lambda>r k m. Register r k (Some m)" Vacate Stale
proof
  fix r r' :: "'m registry" and k :: Mode and m :: 'm and p :: "'m option" and g :: "64 word"
  assume reg: "Register r k (Some m) = (p, g, r')"
  show "Current r' = (Current r)(k \<mapsto> (m, g))"
    using reg by (auto simp: registry_defs fun_eq_iff split: option.splits if_splits)
  show "p = map_option fst (Current r k)"
    using reg by (auto simp: registry_defs split: option.splits)
  show "map_option snd (Current r k) \<noteq> Some g"
    using reg by (auto simp: registry_defs split: option.splits)
next
  fix r :: "'m registry" and k :: Mode and g :: "64 word"
  show "Current (Vacate r k g) =
      (if map_option snd (Current r k) = Some g then (Current r)(k := None) else Current r)"
    by (auto simp: registry_defs fun_eq_iff split: option.splits if_splits)
  show "Stale r k g \<longleftrightarrow> map_option snd (Current r k) \<noteq> Some g"
    by (auto simp: registry_defs split: option.splits)
qed

lemma slot_gen_apply:
  "\<exists>d \<le> 1. slot_gen (reg_apply r x) k = slot_gen r k + of_nat d \<and> (d = 0 \<longrightarrow> slots (reg_apply r x) k = slots r k)
     \<and> (\<forall>m. x = OpRegister k m \<longrightarrow> d = 1)"
proof (cases x)
  case (OpRegister k' m)
  then show ?thesis
    by (cases "k' = k") (auto simp: registry_defs slot_gen_def intro: exI [of _ "1 :: nat"] exI [of _ "0 :: nat"]
      split: option.splits)
next
  case (OpVacate k' g)
  then show ?thesis
    by (cases "k' = k \<and> slots r k \<noteq> None \<and> slot_gen r k = g")
      (auto simp: registry_defs slot_gen_def intro: exI [of _ "1 :: nat"] exI [of _ "0 :: nat"]
        split: option.splits)
qed

lemma slot_gen_run:
  "\<exists>d \<le> length xs. slot_gen (reg_run r xs) k = slot_gen r k + of_nat d
     \<and> ((\<exists>m. OpRegister k m \<in> set xs) \<longrightarrow> 0 < d)"
proof (induction xs arbitrary: r)
  case Nil
  then show ?case by auto
next
  case (Cons x xs)
  obtain d1 where d1: "d1 \<le> 1" "slot_gen (reg_apply r x) k = slot_gen r k + of_nat d1"
    "\<forall>m. x = OpRegister k m \<longrightarrow> d1 = 1"
    using slot_gen_apply [of r x k] by blast
  obtain d2 where d2: "d2 \<le> length xs"
    "slot_gen (reg_run (reg_apply r x) xs) k = slot_gen (reg_apply r x) k + of_nat d2"
    "(\<exists>m. OpRegister k m \<in> set xs) \<longrightarrow> 0 < d2"
    using Cons.IH by blast
  show ?case
    using d1 d2 by (intro exI [of _ "d1 + d2"]) (auto simp: add.assoc)
qed

lemma of_nat_64_ne_0: "0 < d \<Longrightarrow> d < 2 ^ 64 \<Longrightarrow> (of_nat d :: 64 word) \<noteq> 0"
  by (simp add: word_of_nat_eq_0_iff) (auto dest: dvd_imp_le)

lemma Vacate_other_gen: "slot_gen r k \<noteq> g \<Longrightarrow> Vacate r k g = r"
  by (auto simp: Vacate_def slot_gen_def split: option.splits)

lemma Register_slot_gen: "Register r k m = (p, g, r') \<Longrightarrow> slot_gen r' k = g"
  by (auto simp: Register_def slot_gen_def Let_def)

text \<open>
  C17. The registry implements the abstract role map: \<open>Register\<close> makes the new session the
  current one under a generation that differs from the replaced one and returns exactly the session
  it replaced; on any registry, any role and any generation, \<open>Vacate\<close> empties the role exactly if
  that generation holds it, \<open>Stale\<close> is the negation of its holding it (an empty slot included), and no
  operation touches another role.
\<close>

theorem registry_refines_role_map:
  assumes "Register r k (Some m) = (prev, g, r')"
  shows "Current r' = (Current r)(k \<mapsto> (m, g)) \<and> prev = map_option fst (Current r k)
    \<and> map_option snd (Current r k) \<noteq> Some g \<and> \<not> Stale r' k g
    \<and> (\<forall>h. Current (Vacate r' k h) = (if h = g then (Current r)(k := None) else Current r'))
    \<and> (\<forall>role h. Stale r role h \<longleftrightarrow> (\<forall>x. Current r role \<noteq> Some (x, h)))
    \<and> (\<forall>role h. Current (Vacate r role h)
         = (if \<exists>x. Current r role = Some (x, h) then (Current r)(role := None) else Current r))"
  using relay_slots.register_holder [OF assms] relay_slots.register_prev [OF assms]
    relay_slots.register_fresh [OF assms] relay_slots.registered_current [OF assms]
  by (auto simp: relay_slots.vacate_holder relay_slots.stale_holder)

theorem registry_refines_role_map_witness:
  "Current (snd (snd (Register NewRegistry ModeExit (Some (7 :: nat)))))
     = (Current NewRegistry)(ModeExit \<mapsto> (7, 1))"
  using registry_refines_role_map [of NewRegistry ModeExit "7 :: nat" None 1
      "snd (snd (Register NewRegistry ModeExit (Some (7 :: nat))))"]
  by (simp add: Register_def NewRegistry_def)

text \<open>
  C9. Generation isolation: once a session has been replaced, retiring it can never evict its
  successor. After any sequence of fewer than 2^64 registry operations that registers the role again
  at least once, \<open>Vacate\<close> with the old generation changes nothing at all.
\<close>

theorem generation_isolation:
  assumes "Register r k m = (prev, g, r1)" and "length ops < 2 ^ 64"
    and "OpRegister k m' \<in> set ops"
  shows "Vacate (reg_run r1 ops) k g = reg_run r1 ops \<and> Stale (reg_run r1 ops) k g"
proof -
  obtain d where d: "d \<le> length ops" "slot_gen (reg_run r1 ops) k = slot_gen r1 k + of_nat d" "0 < d"
    using slot_gen_run [of ops r1 k] assms(3) by blast
  have "(of_nat d :: 64 word) \<noteq> 0" using d assms(2) by (intro of_nat_64_ne_0) auto
  then have ne: "slot_gen (reg_run r1 ops) k \<noteq> g" using d Register_slot_gen [OF assms(1)] by simp
  then show ?thesis using Vacate_other_gen [OF ne]
    by (auto simp: Stale_def slot_gen_def split: option.splits)
qed

theorem generation_isolation_witness:
  "Vacate (reg_run (snd (snd (Register NewRegistry ModeExit (Some (1 :: nat))))) [OpRegister ModeExit 2])
       ModeExit 1
     = reg_run (snd (snd (Register NewRegistry ModeExit (Some (1 :: nat))))) [OpRegister ModeExit 2]
   \<and> Stale (reg_run (snd (snd (Register NewRegistry ModeExit (Some (1 :: nat))))) [OpRegister ModeExit 2])
       ModeExit 1"
  by (rule generation_isolation [of NewRegistry _ "Some 1" None _ _ _ 2])
    (simp_all add: Register_def NewRegistry_def)

end
