(* ===== verification/Access.thy ===== *)
theory Access
  imports NetAddr
begin

text \<open>
  \<open>src/internal/exit/access.go\<close>: the exit's destination policy, with the predicates of
  \<open>net.IP\<close> it is built from. A \<open>net.IP\<close> is a byte slice of length 4 or 16, or nil (\<open>[]\<close>).
\<close>

unbundle bit_operations_syntax

section \<open>net.IP\<close>

definition IsPrivate :: "IP \<Rightarrow> bool" where
  "IsPrivate ip = (case To4 ip of
      Some ip4 \<Rightarrow> ip4 ! 0 = 10 \<or> (ip4 ! 0 = 172 \<and> ip4 ! 1 AND 0xF0 = 16)
        \<or> (ip4 ! 0 = 192 \<and> ip4 ! 1 = 168)
    | None \<Rightarrow> length ip = 16 \<and> ip ! 0 AND 0xFE = 0xFC)"

definition IsLinkLocalUnicast :: "IP \<Rightarrow> bool" where
  "IsLinkLocalUnicast ip = (case To4 ip of
      Some ip4 \<Rightarrow> ip4 ! 0 = 169 \<and> ip4 ! 1 = 254
    | None \<Rightarrow> length ip = 16 \<and> ip ! 0 = 0xFE \<and> ip ! 1 AND 0xC0 = 0x80)"

definition IsLinkLocalMulticast :: "IP \<Rightarrow> bool" where
  "IsLinkLocalMulticast ip = (case To4 ip of
      Some ip4 \<Rightarrow> ip4 ! 0 = 224 \<and> ip4 ! 1 = 0 \<and> ip4 ! 2 = 0
    | None \<Rightarrow> length ip = 16 \<and> ip ! 0 = 0xFF \<and> ip ! 1 AND 0x0F = 0x02)"

definition IsInterfaceLocalMulticast :: "IP \<Rightarrow> bool" where
  "IsInterfaceLocalMulticast ip \<longleftrightarrow> length ip = 16 \<and> ip ! 0 = 0xFF \<and> ip ! 1 AND 0x0F = 0x01"

definition IsMulticast :: "IP \<Rightarrow> bool" where
  "IsMulticast ip = (case To4 ip of
      Some ip4 \<Rightarrow> ip4 ! 0 AND 0xF0 = 0xE0
    | None \<Rightarrow> length ip = 16 \<and> ip ! 0 = 0xFF)"

definition IsUnspecified :: "IP \<Rightarrow> bool" where
  "IsUnspecified ip \<longleftrightarrow> ip_Equal ip IPv4zero \<or> ip_Equal ip IPv6unspecified"

section \<open>The policy\<close>

record policy =
  allowLoopback :: bool

definition newPolicy :: policy where "newPolicy = \<lparr>allowLoopback = False\<rparr>"

definition allowLoopbackForTest :: "policy \<Rightarrow> bool \<Rightarrow> policy" where
  "allowLoopbackForTest p v = p\<lparr>allowLoopback := v\<rparr>"

text \<open>Indexing past the four bytes cannot happen: \<open>To4\<close> returned a non-nil slice before.\<close>

definition isBroadcastV4 :: "IP \<Rightarrow> bool" where
  "isBroadcastV4 ip = (case To4 ip of
      Some b \<Rightarrow> b ! 0 = 255 \<and> b ! 1 = 255 \<and> b ! 2 = 255 \<and> b ! 3 = 255
    | None \<Rightarrow> False)"

definition allowed :: "policy \<Rightarrow> IP \<Rightarrow> bool" where
  "allowed p ip0 =
     (let ip = (case To4 ip0 of Some v4 \<Rightarrow> v4 | None \<Rightarrow> ip0) in
      if IsLoopback ip then allowLoopback p
      else if IsPrivate ip then False
      else if IsLinkLocalUnicast ip then False
      else if IsLinkLocalMulticast ip then False
      else if IsInterfaceLocalMulticast ip then False
      else if IsMulticast ip then False
      else if IsUnspecified ip then False
      else if To4 ip \<noteq> None \<and> isBroadcastV4 ip then False
      else True)"

section \<open>Specification by address ranges\<close>

text \<open>Refused IPv4 ranges, by the numeric value of the octets.\<close>

definition refused_v4 :: "nat \<Rightarrow> nat \<Rightarrow> nat \<Rightarrow> nat \<Rightarrow> bool" where
  "refused_v4 a b c d \<longleftrightarrow>
     a = 127 \<or> a = 10 \<or> (a = 172 \<and> 16 \<le> b \<and> b < 32) \<or> (a = 192 \<and> b = 168)
     \<or> (a = 169 \<and> b = 254) \<or> (224 \<le> a \<and> a < 240)
     \<or> (a = 0 \<and> b = 0 \<and> c = 0 \<and> d = 0) \<or> (a = 255 \<and> b = 255 \<and> c = 255 \<and> d = 255)"

text \<open>Refused IPv6 ranges: \<open>::1\<close>, \<open>::\<close>, \<open>fc00::/7\<close>, \<open>fe80::/10\<close>, \<open>ff00::/8\<close>.\<close>

definition refused_v6 :: "bytes \<Rightarrow> bool" where
  "refused_v6 ip \<longleftrightarrow> ip = IPv6loopback \<or> ip = IPv6unspecified
     \<or> (0xFC \<le> unat (ip ! 0) \<and> unat (ip ! 0) \<le> 0xFD)
     \<or> (unat (ip ! 0) = 0xFE \<and> 0x80 \<le> unat (ip ! 1) \<and> unat (ip ! 1) < 0xC0)
     \<or> unat (ip ! 0) = 0xFF"

section \<open>Masks as ranges\<close>

text \<open>Each mask test of \<open>net.IP\<close> is a range test, checked on all 256 byte values.\<close>

lemma mask_ranges_all:
  "\<forall>x :: byte. (x AND 0xF0 = 16 \<longleftrightarrow> 16 \<le> unat x \<and> unat x < 32)
    \<and> (x AND 0xF0 = 0xE0 \<longleftrightarrow> 224 \<le> unat x \<and> unat x < 240)
    \<and> (x AND 0xFE = 0xFC \<longleftrightarrow> 0xFC \<le> unat x \<and> unat x \<le> 0xFD)
    \<and> (x AND 0xC0 = 0x80 \<longleftrightarrow> 0x80 \<le> unat x \<and> unat x < 0xC0)"
  unfolding all_byte by code_simp

lemma mask_ranges:
  fixes x :: byte
  shows "x AND 0xF0 = 16 \<longleftrightarrow> 16 \<le> unat x \<and> unat x < 32"
    and "x AND 0xF0 = 0xE0 \<longleftrightarrow> 224 \<le> unat x \<and> unat x < 240"
    and "x AND 0xFE = 0xFC \<longleftrightarrow> 0xFC \<le> unat x \<and> unat x \<le> 0xFD"
    and "x AND 0xC0 = 0x80 \<longleftrightarrow> 0x80 \<le> unat x \<and> unat x < 0xC0"
  using mask_ranges_all by blast+

lemma byte_eq_unat: "(x :: byte) = y \<longleftrightarrow> unat x = unat y"
  by (simp add: unsigned_word_eqI word_unat_eq_iff)

lemma length4: "length ip = 4 \<longleftrightarrow> (\<exists>a b c d. ip = [a, b, c, d])"
  by (auto simp: numeral_eq_Suc length_Suc_conv)

lemma To4_v4 [simp]: "To4 [a, b, c, d] = Some [a, b, c, d]"
  by (simp add: To4_def)

lemma To4_mapped [simp]: "length v = 4 \<Longrightarrow> To4 (v4InV6Prefix @ v) = Some v"
  by (simp add: To4_def v4InV6Prefix_def)

lemma To4_length: "To4 ip = Some v \<Longrightarrow> length v = 4"
  by (auto simp: To4_def split: if_splits)

lemma unspecified_v4: "IsUnspecified [a, b, c, d] \<longleftrightarrow> a = 0 \<and> b = 0 \<and> c = 0 \<and> d = 0"
  by (auto simp: IsUnspecified_def ip_Equal_def IPv4zero_def IPv6unspecified_def v4InV6Prefix_def)

lemmas policy_defs = allowed_def IsLoopback_def IsPrivate_def IsLinkLocalUnicast_def
  IsLinkLocalMulticast_def IsInterfaceLocalMulticast_def IsMulticast_def isBroadcastV4_def

lemma v4_predicates:
  "IsLoopback [a, b, c, d] \<longleftrightarrow> unat a = 127"
  "IsPrivate [a, b, c, d] \<longleftrightarrow> unat a = 10 \<or> (unat a = 172 \<and> 16 \<le> unat b \<and> unat b < 32)
     \<or> (unat a = 192 \<and> unat b = 168)"
  "IsLinkLocalUnicast [a, b, c, d] \<longleftrightarrow> unat a = 169 \<and> unat b = 254"
  "IsLinkLocalMulticast [a, b, c, d] \<longleftrightarrow> unat a = 224 \<and> unat b = 0 \<and> unat c = 0"
  "\<not> IsInterfaceLocalMulticast [a, b, c, d]"
  "IsMulticast [a, b, c, d] \<longleftrightarrow> 224 \<le> unat a \<and> unat a < 240"
  "IsUnspecified [a, b, c, d] \<longleftrightarrow> unat a = 0 \<and> unat b = 0 \<and> unat c = 0 \<and> unat d = 0"
  "isBroadcastV4 [a, b, c, d] \<longleftrightarrow> unat a = 255 \<and> unat b = 255 \<and> unat c = 255 \<and> unat d = 255"
proof -
  have n: "x = numeral k \<longleftrightarrow> unat x = unat (numeral k :: byte)" "x = 0 \<longleftrightarrow> unat x = 0" for x :: byte and k
    by (simp_all add: byte_eq_unat)
  have i: "[a, b, c, d] ! 2 = c" "[a, b, c, d] ! 3 = d" by (simp_all add: numeral_eq_Suc)
  show "IsLoopback [a, b, c, d] \<longleftrightarrow> unat a = 127" by (simp add: IsLoopback_def n(1))
  show "IsPrivate [a, b, c, d] \<longleftrightarrow> unat a = 10 \<or> (unat a = 172 \<and> 16 \<le> unat b \<and> unat b < 32)
     \<or> (unat a = 192 \<and> unat b = 168)"
    by (simp add: IsPrivate_def mask_ranges n(1) [of a] n(1) [of b])
  show "IsLinkLocalUnicast [a, b, c, d] \<longleftrightarrow> unat a = 169 \<and> unat b = 254"
    by (simp add: IsLinkLocalUnicast_def n(1))
  show "IsLinkLocalMulticast [a, b, c, d] \<longleftrightarrow> unat a = 224 \<and> unat b = 0 \<and> unat c = 0"
    by (simp add: IsLinkLocalMulticast_def n(1) i unat_eq_zero)
  show "\<not> IsInterfaceLocalMulticast [a, b, c, d]" by (simp add: IsInterfaceLocalMulticast_def)
  show "IsMulticast [a, b, c, d] \<longleftrightarrow> 224 \<le> unat a \<and> unat a < 240"
    by (simp add: IsMulticast_def mask_ranges)
  show "IsUnspecified [a, b, c, d] \<longleftrightarrow> unat a = 0 \<and> unat b = 0 \<and> unat c = 0 \<and> unat d = 0"
    by (simp add: unspecified_v4 unat_eq_zero)
  show "isBroadcastV4 [a, b, c, d] \<longleftrightarrow> unat a = 255 \<and> unat b = 255 \<and> unat c = 255 \<and> unat d = 255"
    by (simp add: isBroadcastV4_def n(1) i)
qed

lemma allowed_v4:
  "allowed newPolicy [a, b, c, d] \<longleftrightarrow> \<not> refused_v4 (unat a) (unat b) (unat c) (unat d)"
proof -
  let ?ip = "[a, b, c, d]"
  have "IsLinkLocalMulticast ?ip \<Longrightarrow> IsMulticast ?ip" by (simp add: v4_predicates(4,6))
  then have "allowed newPolicy ?ip \<longleftrightarrow> \<not> (IsLoopback ?ip \<or> IsPrivate ?ip \<or> IsLinkLocalUnicast ?ip
      \<or> IsMulticast ?ip \<or> IsUnspecified ?ip \<or> isBroadcastV4 ?ip)"
    by (simp add: allowed_def newPolicy_def Let_def v4_predicates(5) cong: conj_cong)
  then show ?thesis unfolding v4_predicates refused_v4_def by blast
qed

lemma allowed_v6:
  assumes "length ip = 16" and "take 12 ip \<noteq> v4InV6Prefix"
  shows "allowed newPolicy ip \<longleftrightarrow> \<not> refused_v6 ip"
proof -
  have t: "To4 ip = None" using assms by (simp add: To4_def)
  have u: "IsUnspecified ip \<longleftrightarrow> ip = IPv6unspecified"
    using assms by (auto simp: IsUnspecified_def ip_Equal_def IPv4zero_def IPv6unspecified_def
      v4InV6Prefix_def)
  have l: "ip_Equal ip IPv6loopback \<longleftrightarrow> ip = IPv6loopback"
    using assms by (simp add: ip_Equal_def IPv6loopback_def)
  have b: "x = 0xFE \<longleftrightarrow> unat x = 0xFE" "x = 0xFF \<longleftrightarrow> unat x = 0xFF" for x :: byte
    by (simp_all add: byte_eq_unat)
  show ?thesis
    using assms(1) by (auto simp: policy_defs Let_def newPolicy_def t u l b refused_v6_def mask_ranges)
qed

text \<open>
  C19. The exit refuses exactly the listed ranges. For an IPv4 destination, in its 4-byte or its
  IPv4-mapped 16-byte form, the decision is the range specification of the octets; for any other
  IPv6 destination it is the range specification of the address.
\<close>

theorem policy_ranges:
  "allowed newPolicy [a, b, c, d] = (\<not> refused_v4 (unat a) (unat b) (unat c) (unat d))
   \<and> allowed newPolicy (v4InV6Prefix @ [a, b, c, d])
       = (\<not> refused_v4 (unat a) (unat b) (unat c) (unat d))
   \<and> (length ip = 16 \<longrightarrow> take 12 ip \<noteq> v4InV6Prefix \<longrightarrow> allowed newPolicy ip = (\<not> refused_v6 ip))"
proof -
  have "allowed newPolicy (v4InV6Prefix @ [a, b, c, d]) = allowed newPolicy [a, b, c, d]"
    by (simp add: allowed_def)
  then show ?thesis using allowed_v4 allowed_v6 by blast
qed

theorem policy_ranges_witness:
  "allowed newPolicy [8, 8, 8, 8] \<and> \<not> allowed newPolicy (v4InV6Prefix @ [127, 0, 0, 1])
   \<and> \<not> allowed newPolicy [0xFE, 0x80, 1, 1, 1, 1, 1, 1, 1, 1, 1, 1, 1, 1, 1, 1]
   \<and> allowed newPolicy [0x20, 0x01, 1, 1, 1, 1, 1, 1, 1, 1, 1, 1, 1, 1, 1, 1]"
  using policy_ranges [of 8 8 8 8 "[0xFE, 0x80, 1, 1, 1, 1, 1, 1, 1, 1, 1, 1, 1, 1, 1, 1]"]
    policy_ranges [of 127 0 0 1 "[0x20, 0x01, 1, 1, 1, 1, 1, 1, 1, 1, 1, 1, 1, 1, 1, 1]"]
  by (simp add: refused_v4_def refused_v6_def v4InV6Prefix_def IPv6loopback_def IPv6unspecified_def)

text \<open>
  Addresses outside the listed ranges are dialled even where they are not publicly routable:
  the shared address space 100.64.0.0/10, the rest of 0.0.0.0/8, the reserved block 240.0.0.0/4, an
  IPv4-compatible, 6to4 or NAT64 form of an IPv4 loopback address, and a nil address.
\<close>

theorem policy_gaps:
  "(\<forall>b \<in> {64..<128}. \<forall>c d. allowed newPolicy [100, b, c, d])
   \<and> (\<forall>b c d. d \<noteq> 0 \<longrightarrow> allowed newPolicy [0, b, c, d])
   \<and> (\<forall>b c d. allowed newPolicy [240, b, c, d])
   \<and> allowed newPolicy [0, 0, 0, 0, 0, 0, 0, 0, 0, 0, 0, 0, 127, 0, 0, 1]
   \<and> allowed newPolicy [0x20, 0x02, 127, 0, 0, 1, 0, 0, 0, 0, 0, 0, 0, 0, 0, 0]
   \<and> allowed newPolicy [0x00, 0x64, 0xFF, 0x9B, 0, 0, 0, 0, 0, 0, 0, 0, 127, 0, 0, 1]
   \<and> allowed newPolicy []"
proof -
  have nil: "allowed newPolicy []"
    by (simp add: policy_defs IsUnspecified_def ip_Equal_def IPv4zero_def IPv6unspecified_def
        v4InV6Prefix_def IPv6loopback_def To4_def)
  have d: "(d :: byte) \<noteq> 0 \<Longrightarrow> unat d \<noteq> 0" for d by (simp add: unat_eq_zero)
  show ?thesis
    by (auto simp: nil allowed_v4 refused_v4_def allowed_v6 refused_v6_def v4InV6Prefix_def d
        IPv6loopback_def IPv6unspecified_def)
qed

theorem policy_gaps_witness: "allowed newPolicy [100, 64, 0, 1] \<and> allowed newPolicy [0, 0, 0, 1]"
  using policy_gaps by (auto simp: word_le_nat_alt word_less_nat_alt)

end
