(* ===== verification/Streams.thy ===== *)
theory Streams
  imports Prelude "HOL-Library.Multiset"
begin

text \<open>
  \<open>src/internal/stream\<close>: stream addresses (\<open>addr.go\<close>), the yamux adapter (\<open>adapter.go\<close>), the
  write-side close that every connection wrapper of the program dispatches, and the two-way copy
  \<open>Duplex.Run\<close> (\<open>duplex.go\<close>) as a state machine of its main loop and its two copy goroutines.
\<close>

section \<open>Addresses\<close>

record StreamAddr =
  network :: string
  address :: string

definition NewStreamAddr :: "string \<Rightarrow> string \<Rightarrow> StreamAddr" where
  "NewStreamAddr n a = \<lparr>network = n, address = a\<rparr>"

definition StreamAddr_Network :: "StreamAddr \<Rightarrow> string" where
  "StreamAddr_Network a = (if network a = [] then ''tcp'' else network a)"

definition StreamAddr_String :: "StreamAddr \<Rightarrow> string" where
  "StreamAddr_String a = (if network a = [] then address a else network a @ '':'' @ address a)"

section \<open>Connections and the write-side close\<close>

text \<open>
  The connection types that reach \<open>Duplex\<close>: a TCP socket, a bare yamux stream, the relay's adapter
  around one, its byte counter, the wrappers of the exit (\<open>payloadConn\<close>) and of the proxy
  (\<open>requestConn\<close>), and any other \<open>net.Conn\<close>.
\<close>

datatype nconn =
    TCPConn
  | YamuxStream
  | Adapter StreamAddr StreamAddr
  | CounterConn nconn
  | PayloadConn nconn
  | RequestConn nconn
  | PlainConn

definition NewAdapter :: "StreamAddr \<Rightarrow> StreamAddr \<Rightarrow> nconn" where
  "NewAdapter local remote = Adapter local remote"

fun LocalAddr :: "nconn \<Rightarrow> StreamAddr option" where
  "LocalAddr (Adapter l r) = Some l"
| "LocalAddr (CounterConn c) = LocalAddr c"
| "LocalAddr (PayloadConn c) = LocalAddr c"
| "LocalAddr (RequestConn c) = LocalAddr c"
| "LocalAddr _ = None"

fun RemoteAddr :: "nconn \<Rightarrow> StreamAddr option" where
  "RemoteAddr (Adapter l r) = Some r"
| "RemoteAddr (CounterConn c) = RemoteAddr c"
| "RemoteAddr (PayloadConn c) = RemoteAddr c"
| "RemoteAddr (RequestConn c) = RemoteAddr c"
| "RemoteAddr _ = None"

text \<open>
  What closing the write side does: a FIN that keeps the read side, a close of the whole
  connection, or nothing. A yamux \<open>Close\<close> is a write-side FIN.
\<close>

datatype close_effect = SendsFIN | ClosesAll | NoEffect

definition yamux_Close :: close_effect where "yamux_Close = SendsFIN"

fun CloseWrite :: "nconn \<Rightarrow> close_effect" where
  "CloseWrite TCPConn = SendsFIN"
| "CloseWrite (Adapter l r) = yamux_Close"
| "CloseWrite (CounterConn c) = CloseWrite c"
| "CloseWrite (PayloadConn c) = CloseWrite c"
| "CloseWrite (RequestConn c) = ClosesAll"
| "CloseWrite YamuxStream = yamux_Close"
| "CloseWrite PlainConn = NoEffect"

text \<open>
  The adapter's own methods, on what a yamux stream shows of them: whether its deadline has passed,
  which makes every read and write return at once, and whether it has sent its FIN. A yamux \<open>Close\<close>
  sends the FIN and leaves reading alone.
\<close>

record ystream =
  deadline_passed :: bool
  fin_sent :: bool

definition ystream_Close :: "ystream \<Rightarrow> ystream" where
  "ystream_Close s = s\<lparr>fin_sent := True\<rparr>"

definition ystream_SetPast :: "ystream \<Rightarrow> ystream" where
  "ystream_SetPast s = s\<lparr>deadline_passed := True\<rparr>"

definition Finish :: "ystream \<Rightarrow> ystream" where
  "Finish a = ystream_Close a"

definition Adapter_CloseWrite :: "ystream \<Rightarrow> ystream" where
  "Adapter_CloseWrite a = ystream_Close a"

definition ForceClose :: "ystream \<Rightarrow> ystream" where
  "ForceClose a = ystream_Close (ystream_SetPast a)"

definition can_read :: "ystream \<Rightarrow> bool" where "can_read s \<longleftrightarrow> \<not> deadline_passed s"
definition can_write :: "ystream \<Rightarrow> bool" where "can_write s \<longleftrightarrow> \<not> deadline_passed s \<and> \<not> fin_sent s"

section \<open>Duplex\<close>

text \<open>
  One copy direction: the bytes its source will deliver before EOF, split into those already
  written to the destination and those not yet; whether the destination's write side was closed;
  and the result the goroutine has sent, if it ended.
\<close>

record dir =
  got :: bytes
  src :: bytes
  fin :: bool
  wres :: "gerr option option"

datatype dphase = Looping | Draining "gerr option" | Returned "gerr option"

text \<open>
  \<open>results\<close> is the buffered channel, \<open>recvd\<close> what the main goroutine has taken from it,
  \<open>timer\<close> whether the drain timer is armed, \<open>forced\<close> whether \<open>forceClose\<close> has run.
\<close>

record duplex =
  d_in :: dir
  d_out :: dir
  results :: "gerr option list"
  recvd :: "gerr option list"
  remaining :: nat
  timer :: bool
  forced :: bool
  phase :: dphase

datatype side = InToOut | OutToIn

definition get_dir :: "side \<Rightarrow> duplex \<Rightarrow> dir" where
  "get_dir i s = (case i of InToOut \<Rightarrow> d_in s | OutToIn \<Rightarrow> d_out s)"

definition set_dir :: "side \<Rightarrow> dir \<Rightarrow> duplex \<Rightarrow> duplex" where
  "set_dir i d s = (case i of InToOut \<Rightarrow> s\<lparr>d_in := d\<rparr> | OutToIn \<Rightarrow> s\<lparr>d_out := d\<rparr>)"

definition new_dir :: "bytes \<Rightarrow> dir" where
  "new_dir bs = \<lparr>got = [], src = bs, fin = False, wres = None\<rparr>"

text \<open>\<open>a\<close> and \<open>b\<close> are what the inbound and the outbound peer send before closing.\<close>

definition Duplex_start :: "bytes \<Rightarrow> bytes \<Rightarrow> duplex" where
  "Duplex_start a b = \<lparr>d_in = new_dir a, d_out = new_dir b, results = [], recvd = [],
     remaining = 2, timer = False, forced = False, phase = Looping\<rparr>"

text \<open>
  The events: a copy goroutine moves bytes, reaches EOF and calls \<open>CloseWrite\<close> (whose result it
  sends), or fails after a partial write; \<open>forceClose\<close> interrupts a blocked one; the main loop takes
  a result, sees the context end with an error, or its drain timer fires; the deferred function
  receives the outstanding results and the function returns.
\<close>

datatype devent =
    Copy side nat
  | EofClose side "gerr option"
  | CopyFail side nat gerr
  | Interrupted side gerr
  | Recv
  | CtxDone gerr
  | TimerFires
  | JoinRecv
  | Return

definition send_result :: "side \<Rightarrow> gerr option \<Rightarrow> duplex \<Rightarrow> duplex" where
  "send_result i r s =
     set_dir i ((get_dir i s)\<lparr>wres := Some r\<rparr>) (s\<lparr>results := results s @ [r]\<rparr>)"

definition move :: "nat \<Rightarrow> dir \<Rightarrow> dir" where
  "move n d = d\<lparr>got := got d @ take n (src d), src := drop n (src d)\<rparr>"

text \<open>Leaving the loop runs the deferred function: \<open>forceClose\<close>, then the join.\<close>

definition leave :: "gerr option \<Rightarrow> duplex \<Rightarrow> duplex" where
  "leave r s = s\<lparr>forced := True, phase := Draining r\<rparr>"

fun duplex_step :: "duplex \<Rightarrow> devent \<Rightarrow> duplex option" where
  "duplex_step s (Copy i n) =
     (if wres (get_dir i s) = None \<and> 0 < n \<and> n \<le> length (src (get_dir i s))
      then Some (set_dir i (move n (get_dir i s)) s) else None)"
| "duplex_step s (EofClose i r) =
     (if wres (get_dir i s) = None \<and> src (get_dir i s) = []
      then Some (send_result i r (set_dir i ((get_dir i s)\<lparr>fin := True\<rparr>) s)) else None)"
| "duplex_step s (CopyFail i n err) =
     (if wres (get_dir i s) = None
      then Some (send_result i (Some err) (set_dir i (move n (get_dir i s)) s)) else None)"
| "duplex_step s (Interrupted i err) =
     (if wres (get_dir i s) = None \<and> forced s then Some (send_result i (Some err) s) else None)"
| "duplex_step s Recv =
     (case results s of
        [] \<Rightarrow> None
      | r # rs \<Rightarrow>
          if phase s = Looping \<and> 0 < remaining s then
            (let s' = s\<lparr>results := rs, recvd := recvd s @ [r], remaining := remaining s - 1\<rparr> in
             case r of
               Some err \<Rightarrow> Some (leave (Some err) s')
             | None \<Rightarrow> if 0 < remaining s' then Some (s'\<lparr>timer := True\<rparr>) else Some (leave None s'))
          else None)"
| "duplex_step s (CtxDone err) = (if phase s = Looping then Some (leave (Some err) s) else None)"
| "duplex_step s TimerFires =
     (if phase s = Looping \<and> timer s then Some (leave (Some (Sentinel ErrDrainTimeout)) s) else None)"
| "duplex_step s JoinRecv =
     (case (results s, phase s) of
        (r # rs, Draining e) \<Rightarrow>
          if 0 < remaining s
          then Some (s\<lparr>results := rs, recvd := recvd s @ [r], remaining := remaining s - 1\<rparr>)
          else None
      | _ \<Rightarrow> None)"
| "duplex_step s Return =
     (case phase s of
        Draining e \<Rightarrow> if remaining s = 0 then Some (s\<lparr>phase := Returned e\<rparr>) else None
      | _ \<Rightarrow> None)"

section \<open>Invariant\<close>

definition outcomes :: "duplex \<Rightarrow> gerr option list" where
  "outcomes s = (case wres (d_in s) of None \<Rightarrow> [] | Some r \<Rightarrow> [r])
     @ (case wres (d_out s) of None \<Rightarrow> [] | Some r \<Rightarrow> [r])"

definition dir_ok :: "bytes \<Rightarrow> dir \<Rightarrow> bool" where
  "dir_ok full d \<longleftrightarrow> got d @ src d = full \<and> (wres d = Some None \<longrightarrow> src d = [] \<and> fin d)
     \<and> (fin d \<longrightarrow> src d = [] \<and> wres d \<noteq> None)"

definition ctl_ok :: "nat \<Rightarrow> gerr option list \<Rightarrow> bool \<Rightarrow> bool \<Rightarrow> dphase \<Rightarrow> bool" where
  "ctl_ok rem rcv tm fc ph \<longleftrightarrow> rem + length rcv = 2 \<and> fc = (ph \<noteq> Looping)
     \<and> (case ph of
          Looping \<Rightarrow> set rcv \<subseteq> {None} \<and> 0 < rem \<and> tm = (rcv \<noteq> [])
        | Draining e \<Rightarrow> e = None \<longrightarrow> rem = 0 \<and> set rcv \<subseteq> {None}
        | Returned e \<Rightarrow> rem = 0 \<and> (e = None \<longrightarrow> set rcv \<subseteq> {None}))"

definition duplex_inv :: "bytes \<Rightarrow> bytes \<Rightarrow> duplex \<Rightarrow> bool" where
  "duplex_inv a b s \<longleftrightarrow> dir_ok a (d_in s) \<and> dir_ok b (d_out s)
     \<and> mset (outcomes s) = mset (results s) + mset (recvd s)
     \<and> ctl_ok (remaining s) (recvd s) (timer s) (forced s) (phase s)"

text \<open>What is left to do after \<open>forceClose\<close>.\<close>

definition join_measure :: "duplex \<Rightarrow> nat" where
  "join_measure s = length (src (d_in s)) + length (src (d_out s)) + remaining s
     + (if wres (d_in s) = None then 1 else 0) + (if wres (d_out s) = None then 1 else 0)"

section \<open>Lemmas\<close>

lemmas duplex_defs [step_simps] = get_dir_def set_dir_def send_result_def move_def leave_def Let_def

lemma duplex_inv_start: "duplex_inv a b (Duplex_start a b)"
  by (simp add: duplex_inv_def Duplex_start_def new_dir_def outcomes_def dir_ok_def ctl_ok_def)

lemma dir_ok_move [simp]: "wres d = None \<Longrightarrow> dir_ok f d \<Longrightarrow> dir_ok f (move n d)"
  by (auto simp: dir_ok_def move_def)

lemma dir_ok_fail [simp]: "wres d = None \<Longrightarrow> dir_ok f d \<Longrightarrow> dir_ok f (d\<lparr>wres := Some (Some e)\<rparr>)"
  by (simp add: dir_ok_def)

lemma dir_ok_eof [simp]:
  "wres d = None \<Longrightarrow> src d = [] \<Longrightarrow> dir_ok f d \<Longrightarrow> dir_ok f (d\<lparr>fin := True, wres := Some r\<rparr>)"
  by (simp add: dir_ok_def)

lemma move_wres [simp]: "wres (move n d) = wres d"
  by (simp add: move_def)

lemma inv_move:
  "duplex_inv a b s \<Longrightarrow> wres (get_dir i s) = None \<Longrightarrow> duplex_inv a b (set_dir i (move n (get_dir i s)) s)"
  by (cases i) (simp_all add: duplex_inv_def outcomes_def get_dir_def set_dir_def)

lemma inv_send_fail:
  "duplex_inv a b s \<Longrightarrow> wres (get_dir i s) = None \<Longrightarrow> duplex_inv a b (send_result i (Some e) s)"
  by (cases i) (simp_all add: duplex_inv_def outcomes_def get_dir_def set_dir_def send_result_def)

lemma inv_eof:
  "duplex_inv a b s \<Longrightarrow> wres (get_dir i s) = None \<Longrightarrow> src (get_dir i s) = [] \<Longrightarrow>
     duplex_inv a b (send_result i r (set_dir i ((get_dir i s)\<lparr>fin := True\<rparr>) s))"
  by (cases i) (simp_all add: duplex_inv_def outcomes_def get_dir_def set_dir_def send_result_def)

lemma get_set_dir [simp]: "get_dir i (set_dir i d s) = d"
  by (cases i) (simp_all add: get_dir_def set_dir_def)

lemma duplex_inv_worker:
  assumes "duplex_inv a b s"
  shows "duplex_step s (Copy i n) = Some t \<Longrightarrow> duplex_inv a b t"
    and "duplex_step s (EofClose i r) = Some t \<Longrightarrow> duplex_inv a b t"
    and "duplex_step s (CopyFail i n err) = Some t \<Longrightarrow> duplex_inv a b t"
    and "duplex_step s (Interrupted i err) = Some t \<Longrightarrow> duplex_inv a b t"
  using assms by (auto simp: inv_move inv_send_fail inv_eof split: if_splits)

lemma inv_leave:
  assumes "duplex_inv a b s" and "phase s = Looping"
  shows "duplex_inv a b (leave (Some e) s)"
  using assms by (simp add: duplex_inv_def outcomes_def leave_def ctl_ok_def)

lemma inv_take:
  assumes "duplex_inv a b s" and "results s = r # rs"
  shows "mset (outcomes s) = mset rs + mset (recvd s @ [r])"
  using assms by (simp add: duplex_inv_def)

lemma inv_Recv:
  assumes inv: "duplex_inv a b s" and step: "duplex_step s Recv = Some t"
  shows "duplex_inv a b t"
proof -
  obtain r rs where r: "results s = r # rs" and ph: "phase s = Looping" "0 < remaining s"
    using step by (auto split: list.splits if_splits)
  have c: "remaining s + length (recvd s) = 2" "set (recvd s) \<subseteq> {None}"
    using inv ph by (simp_all add: duplex_inv_def ctl_ok_def)
  have t: "t = (let s' = s\<lparr>results := rs, recvd := recvd s @ [r], remaining := remaining s - 1\<rparr> in
      case r of Some err \<Rightarrow> leave (Some err) s'
        | None \<Rightarrow> if 0 < remaining s' then s'\<lparr>timer := True\<rparr> else leave None s')"
    using step r ph by (auto simp: Let_def split: option.splits if_splits)
  show ?thesis using inv inv_take [OF inv r] ph c
    by (cases r) (auto simp: t Let_def leave_def duplex_inv_def outcomes_def ctl_ok_def)
qed

lemma inv_JoinRecv:
  assumes inv: "duplex_inv a b s" and step: "duplex_step s JoinRecv = Some t"
  shows "duplex_inv a b t"
proof -
  obtain r rs e where r: "results s = r # rs" and ph: "phase s = Draining e" "0 < remaining s"
    and t: "t = s\<lparr>results := rs, recvd := recvd s @ [r], remaining := remaining s - 1\<rparr>"
    using step by (auto split: list.splits if_splits dphase.splits)
  show ?thesis using inv inv_take [OF inv r] ph
    by (auto simp: t duplex_inv_def outcomes_def ctl_ok_def)
qed

lemma inv_Return:
  "duplex_inv a b s \<Longrightarrow> duplex_step s Return = Some t \<Longrightarrow> duplex_inv a b t"
  by (auto simp: duplex_inv_def outcomes_def ctl_ok_def split: dphase.splits if_splits)

lemma duplex_inv_main:
  assumes "duplex_inv a b s"
  shows "duplex_step s (CtxDone err) = Some t \<Longrightarrow> duplex_inv a b t"
    and "duplex_step s TimerFires = Some t \<Longrightarrow> duplex_inv a b t"
  using assms by (auto simp: inv_leave split: if_splits)

lemma duplex_inv_step:
  assumes "duplex_inv a b s" and "duplex_step s ev = Some t"
  shows "duplex_inv a b t"
  using assms
  by (cases ev) (auto simp del: duplex_step.simps
      dest: duplex_inv_worker duplex_inv_main inv_Recv inv_JoinRecv inv_Return)

interpretation duplex_ok: machine_invariant "Duplex_start a b" duplex_step "duplex_inv a b" for a b
  by unfold_locales (auto intro: duplex_inv_start duplex_inv_step simp del: duplex_step.simps)

lemma wres_both:
  assumes "duplex_inv a b s" and "remaining s = 0"
  shows "results s = [] \<and> (\<exists>x y. wres (d_in s) = Some x \<and> wres (d_out s) = Some y \<and> mset (recvd s) = {#x, y#})"
proof -
  have m: "mset (outcomes s) = mset (results s) + mset (recvd s)" and l: "length (recvd s) = 2"
    using assms by (simp_all add: duplex_inv_def ctl_ok_def)
  have "length (outcomes s) = length (results s) + 2" using m l by (metis size_mset size_union)
  moreover have "length (outcomes s) \<le> 2" by (simp add: outcomes_def split: option.splits)
  ultimately have "results s = []" "length (outcomes s) = 2" by auto
  then show ?thesis using m by (auto simp: outcomes_def add_mset_commute split: option.splits)
qed

text \<open>
  C15. \<open>Duplex.Run\<close> never corrupts or reorders data and never leaks a copy goroutine. In every
  reachable state each side has received a prefix of what its peer sent; once \<open>Run\<close> returned, both
  copy goroutines have ended, their results are collected and both connections were force-closed;
  and if it returned without an error, both directions were delivered completely and both write
  sides were closed.
\<close>

theorem duplex_delivery:
  assumes "reaches duplex_step (Duplex_start a b) s"
  shows "got (d_in s) @ src (d_in s) = a \<and> got (d_out s) @ src (d_out s) = b
    \<and> (\<forall>e. phase s = Returned e \<longrightarrow> wres (d_in s) \<noteq> None \<and> wres (d_out s) \<noteq> None \<and> results s = [] \<and> forced s)
    \<and> (phase s = Returned None \<longrightarrow> got (d_in s) = a \<and> got (d_out s) = b \<and> fin (d_in s) \<and> fin (d_out s))"
proof -
  have inv: "duplex_inv a b s" using assms by (rule duplex_ok.reachable_inv)
  then have d: "dir_ok a (d_in s)" "dir_ok b (d_out s)" by (simp_all add: duplex_inv_def)
  have fin: "wres (d_in s) \<noteq> None \<and> wres (d_out s) \<noteq> None \<and> results s = [] \<and> forced s"
    if "phase s = Returned e" for e
  proof -
    have "remaining s = 0" "forced s" using inv that by (simp_all add: duplex_inv_def ctl_ok_def)
    then show ?thesis using wres_both [OF inv] by auto
  qed
  have clean: "wres (d_in s) = Some None \<and> wres (d_out s) = Some None" if "phase s = Returned None"
  proof -
    have rem: "remaining s = 0" and n: "set_mset (mset (recvd s)) \<subseteq> {None}"
      using inv that by (simp_all add: duplex_inv_def ctl_ok_def)
    from wres_both [OF inv rem] obtain x y
      where xy: "wres (d_in s) = Some x" "wres (d_out s) = Some y" "mset (recvd s) = {#x, y#}" by blast
    from n have "x = None" "y = None" unfolding xy(3) by auto
    with xy show ?thesis by simp
  qed
  show ?thesis using d fin clean by (auto simp: dir_ok_def)
qed

definition sample_events :: "devent list" where
  "sample_events = [Copy InToOut 2, EofClose InToOut None, Recv, Copy OutToIn 1, EofClose OutToIn None, Recv, Return]"

theorem duplex_delivery_witness:
  "\<exists>s. run_events duplex_step (Duplex_start [1, 2] [3]) sample_events = Some s \<and> phase s = Returned None
     \<and> got (d_in s) = [1, 2] \<and> got (d_out s) = [3] \<and> fin (d_in s) \<and> fin (d_out s)"
proof -
  obtain s where s: "run_events duplex_step (Duplex_start [1, 2] [3]) sample_events = Some s" "phase s = Returned None"
    by (simp add: sample_events_def Duplex_start_def new_dir_def step_simps)
  from duplex_delivery [OF run_events_reaches [OF s(1)]] s show ?thesis by blast
qed

text \<open>
  Half-close: as long as the loop runs nothing is force-closed, so a clean EOF in one
  direction leaves the other one copying; and the drain timeout can only end the loop after exactly
  one direction has finished cleanly.
\<close>

theorem duplex_half_close:
  assumes "reaches duplex_step (Duplex_start a b) s"
    and "phase s = Looping"
  shows "\<not> forced s
    \<and> (src (get_dir i s) \<noteq> [] \<and> wres (get_dir i s) = None \<longrightarrow> (\<exists>t. duplex_step s (Copy i 1) = Some t))
    \<and> (duplex_step s TimerFires \<noteq> None \<longleftrightarrow> recvd s = [None])"
proof -
  have inv: "duplex_inv a b s" using assms(1) by (rule duplex_ok.reachable_inv)
  then have c: "remaining s + length (recvd s) = 2" "0 < remaining s" "set (recvd s) \<subseteq> {None}"
    "timer s = (recvd s \<noteq> [])" "\<not> forced s"
    using assms(2) by (simp_all add: duplex_inv_def ctl_ok_def)
  have "timer s \<longleftrightarrow> recvd s = [None]" using c by (cases "recvd s"; cases "tl (recvd s)") auto
  then show ?thesis using c assms(2) by (auto simp: Suc_le_eq)
qed

theorem duplex_half_close_witness:
  "\<exists>s. run_events duplex_step (Duplex_start [] [3]) [EofClose InToOut None, Recv] = Some s
     \<and> \<not> forced s \<and> (\<exists>t. duplex_step s (Copy OutToIn 1) = Some t) \<and> duplex_step s TimerFires \<noteq> None"
proof -
  obtain s where s: "run_events duplex_step (Duplex_start [] [3]) [EofClose InToOut None, Recv] = Some s"
    "phase s = Looping" "recvd s = [None]" "src (get_dir OutToIn s) \<noteq> []" "wres (get_dir OutToIn s) = None"
    by (simp add: Duplex_start_def new_dir_def step_simps)
  from duplex_half_close [OF run_events_reaches [OF s(1)] s(2), of OutToIn] s show ?thesis by blast
qed

text \<open>
  C35. The join terminates: in every reachable state in which the loop was left, an internal step
  (a forced interruption, a receive or the return) is enabled without any help from the peers, and
  every step either returns the error the loop was left with or strictly decreases the work that is
  left, so \<open>Run\<close> always returns after cancellation, a failure or the drain timeout.
\<close>

theorem duplex_join_terminates:
  assumes "reaches duplex_step (Duplex_start a b) s"
    and "phase s = Draining e"
  shows "(\<exists>ev t. ev \<in> {Interrupted InToOut err, Interrupted OutToIn err, JoinRecv, Return}
        \<and> duplex_step s ev = Some t)
    \<and> (\<forall>ev t. duplex_step s ev = Some t \<longrightarrow>
        phase t = Returned e \<or> (phase t = Draining e \<and> join_measure t < join_measure s))"
proof
  have inv: "duplex_inv a b s" using assms(1) by (rule duplex_ok.reachable_inv)
  then have f: "forced s" "remaining s + length (recvd s) = 2"
    and m: "mset (outcomes s) = mset (results s) + mset (recvd s)"
    using assms(2) by (simp_all add: duplex_inv_def ctl_ok_def)
  consider "remaining s = 0" | "wres (d_in s) = None" | "wres (d_out s) = None"
    | "0 < remaining s" "wres (d_in s) \<noteq> None" "wres (d_out s) \<noteq> None" by auto
  then show "\<exists>ev t. ev \<in> {Interrupted InToOut err, Interrupted OutToIn err, JoinRecv, Return}
        \<and> duplex_step s ev = Some t"
  proof cases
    case 4
    then have "length (outcomes s) = 2" by (auto simp: outcomes_def)
    then have "length (results s) + length (recvd s) = 2" using m by (metis size_mset size_union)
    then obtain r rs where "results s = r # rs" using f 4 by (cases "results s") auto
    then have "duplex_step s JoinRecv \<noteq> None" using assms(2) 4 by simp
    then show ?thesis by blast
  qed (use assms(2) f in \<open>auto simp: get_dir_def\<close>)
  show "\<forall>ev t. duplex_step s ev = Some t \<longrightarrow>
        phase t = Returned e \<or> (phase t = Draining e \<and> join_measure t < join_measure s)"
  proof (intro allI impI)
    fix ev t
    assume step: "duplex_step s ev = Some t"
    show "phase t = Returned e \<or> (phase t = Draining e \<and> join_measure t < join_measure s)"
    proof (cases ev)
      case (Copy i n)
      with step assms(2) show ?thesis
        by (cases i) (auto simp: step_simps join_measure_def split: if_splits)
    next
      case (EofClose i r)
      with step assms(2) show ?thesis
        by (cases i) (auto simp: step_simps join_measure_def split: if_splits)
    next
      case (CopyFail i n err)
      with step assms(2) show ?thesis
        by (cases i) (auto simp: step_simps join_measure_def split: if_splits)
    next
      case (Interrupted i err)
      with step assms(2) show ?thesis
        by (cases i) (auto simp: step_simps join_measure_def split: if_splits)
    qed (use step assms(2) in \<open>auto simp: join_measure_def split: list.splits if_splits\<close>)
  qed
qed

theorem duplex_join_terminates_witness:
  "\<exists>s. run_events duplex_step (Duplex_start [1] [2]) [CtxDone (Sentinel Canceled)] = Some s
     \<and> (\<exists>ev t. duplex_step s ev = Some t \<and> ev \<in> {Interrupted InToOut (Sentinel DeadlineExceeded),
           Interrupted OutToIn (Sentinel DeadlineExceeded), JoinRecv, Return})"
proof -
  obtain s where s: "run_events duplex_step (Duplex_start [1] [2]) [CtxDone (Sentinel Canceled)] = Some s"
    "phase s = Draining (Some (Sentinel Canceled))"
    by (simp add: Duplex_start_def new_dir_def step_simps)
  from duplex_join_terminates [OF run_events_reaches [OF s(1)] s(2), of "Sentinel DeadlineExceeded"] s(1)
  show ?thesis by blast
qed

text \<open>
  \<open>Finish\<close> and \<open>CloseWrite\<close> are the half-close: reading goes on. \<open>ForceClose\<close> ends both directions,
  and closing again changes nothing.
\<close>

lemma adapter_closes:
  "Finish s = Adapter_CloseWrite s" "can_read (Finish s) = can_read s" "\<not> can_write (Finish s)"
  "\<not> can_read (ForceClose s) \<and> \<not> can_write (ForceClose s)" "ForceClose (Finish s) = ForceClose s" "Finish (Finish s) = Finish s"
  by (simp_all add: Finish_def Adapter_CloseWrite_def ForceClose_def ystream_Close_def ystream_SetPast_def can_read_def can_write_def)

end
