(* ===== verification/Bridge.thy ===== *)
theory Bridge
  imports Registry Streams Framing
begin

text \<open>
  \<open>src/internal/relay/bridge.go\<close>: pairing of proxy streams with exit streams. The bridge's
  bookkeeping and every accepted stream's disposition are functions; the interleaving of serve loops
  and ending pairs, and the life of one pair with its watcher goroutine, are machines.
\<close>

section \<open>Bookkeeping\<close>

definition maxStreams :: int where "maxStreams = 256"

type_synonym stream_id = "32 word"

record bridge =
  active :: "stream_id set"
  conns :: int

definition NewBridge :: bridge where "NewBridge = \<lparr>active = {}, conns = 0\<rparr>"

text \<open>The admission part of \<open>launch\<close>, under the lock; \<open>None\<close> is the refusal at the ceiling.\<close>

definition launch :: "bridge \<Rightarrow> stream_id \<Rightarrow> bridge option" where
  "launch b sid = (if conns b \<ge> maxStreams then None
     else Some (b\<lparr>active := insert sid (active b), conns := conns b + 1\<rparr>))"

definition track :: "bridge \<Rightarrow> stream_id \<Rightarrow> bridge" where
  "track b sid = b\<lparr>active := active b - {sid}, conns := conns b - 1\<rparr>"

text \<open>The two ends of a pair as \<open>launch\<close> hands them to \<open>Duplex\<close>.\<close>

definition countedProxy :: nconn where
  "countedProxy =
     CounterConn (NewAdapter (NewStreamAddr ''tcp'' ''proxy'') (NewStreamAddr ''tcp'' ''exit''))"

definition countedExit :: nconn where
  "countedExit =
     CounterConn (NewAdapter (NewStreamAddr ''tcp'' ''exit'') (NewStreamAddr ''tcp'' ''proxy''))"

text \<open>\<open>counterConn.Write\<close>: the tally grows by what the wrapped connection accepted.\<close>

record counter =
  cwriter :: writer
  tally :: int

definition counter_Write :: "counter \<Rightarrow> bytes \<Rightarrow> (nat \<times> gerr option) \<times> counter" where
  "counter_Write c p = (case conn_write (cwriter c) p of
      ((written, err), w) \<Rightarrow>
        ((written, err), c\<lparr>cwriter := w, tally := wrap64 (tally c + int written)\<rparr>))"

fun counter_writes :: "counter \<Rightarrow> bytes list \<Rightarrow> counter" where
  "counter_writes c [] = c"
| "counter_writes c (p # ps) = counter_writes (snd (counter_Write c p)) ps"

section \<open>Serve loops\<close>

datatype disposition = ClosedNoExit | ClosedOpenFailed | ClosedAtLimit | Bridged

text \<open>
  What happens to one accepted proxy stream: the current exit is looked up, a stream is opened on
  it (\<open>yamux.Session.OpenStream\<close>, an argument), and the pair is launched. Every other outcome
  closes the stream at once.
\<close>

definition serve_stream ::
  "'m registry \<Rightarrow> ('m \<Rightarrow> stream_id result) \<Rightarrow> bridge \<Rightarrow> stream_id \<Rightarrow> disposition \<times> bridge" where
  "serve_stream reg open_stream b sid = (case Current reg ModeExit of
      None \<Rightarrow> (ClosedNoExit, b)
    | Some (exit, _) \<Rightarrow>
        (case open_stream exit of
           Inl err \<Rightarrow> (ClosedOpenFailed, b)
         | Inr exitStream \<Rightarrow>
             (case launch b sid of
                None \<Rightarrow> (ClosedAtLimit, b)
              | Some b' \<Rightarrow> (Bridged, b'))))"

text \<open>
  What one pass of an accept loop meets: the context's error, the result of \<open>AcceptStream\<close>, the
  registry and the exit session at that moment, and the pairs that ended since the last pass.
\<close>

record 'm pass =
  p_ctx :: "gerr option"
  p_accept :: "stream_id result"
  p_reg :: "'m registry"
  p_open :: "'m \<Rightarrow> stream_id result"
  p_ended :: "stream_id list"

text \<open>\<open>None\<close> as the last component: the loop is still waiting in \<open>AcceptStream\<close>.\<close>

fun ServeProxy :: "bridge \<Rightarrow> 'm pass list \<Rightarrow> disposition list \<times> bridge \<times> gerr option" where
  "ServeProxy b [] = ([], b, None)"
| "ServeProxy b (p # ps) =
     (case p_ctx p of
        Some err \<Rightarrow> ([], b, Some err)
      | None \<Rightarrow>
          (case p_accept p of
             Inl err \<Rightarrow> ([], b, Some err)
           | Inr sid \<Rightarrow>
               (let (d, b1) = serve_stream (p_reg p) (p_open p) (foldl track b (p_ended p)) sid;
                    (ds, b2, r) = ServeProxy b1 ps
                in (d # ds, b2, r))))"

text \<open>The streams an exit opens are closed one after the other; the result lists them.\<close>

fun ServeExit :: "'m pass list \<Rightarrow> stream_id list \<times> gerr option" where
  "ServeExit [] = ([], None)"
| "ServeExit (p # ps) =
     (case p_ctx p of
        Some err \<Rightarrow> ([], Some err)
      | None \<Rightarrow>
          (case p_accept p of
             Inl err \<Rightarrow> ([], Some err)
           | Inr sid \<Rightarrow> (let (closed, r) = ServeExit ps in (sid # closed, r))))"

section \<open>Interleaving of serve loops and ending pairs\<close>

text \<open>\<open>live\<close> lists the stream IDs of the pairs whose copy goroutine has not yet called \<open>track\<close>.\<close>

record bridge_sys =
  br :: bridge
  live :: "stream_id list"

datatype 'm bridge_event =
    Accepted "'m registry" "'m \<Rightarrow> stream_id result" stream_id
  | PairEnds stream_id

definition bridge_start :: bridge_sys where "bridge_start = \<lparr>br = NewBridge, live = []\<rparr>"

fun bridge_step :: "bridge_sys \<Rightarrow> 'm bridge_event \<Rightarrow> bridge_sys option" where
  "bridge_step s (Accepted reg open_stream sid) =
     (case serve_stream reg open_stream (br s) sid of
        (Bridged, b) \<Rightarrow> Some \<lparr>br = b, live = sid # live s\<rparr>
      | (_, b) \<Rightarrow> Some (s\<lparr>br := b\<rparr>))"
| "bridge_step s (PairEnds sid) =
     (if sid \<in> set (live s) then Some \<lparr>br = track (br s) sid, live = remove1 sid (live s)\<rparr> else None)"

definition bridge_inv :: "bridge_sys \<Rightarrow> bool" where
  "bridge_inv s \<longleftrightarrow> conns (br s) = int (length (live s)) \<and> length (live s) \<le> 256
     \<and> active (br s) \<subseteq> set (live s)"

section \<open>One pair\<close>

datatype runner = Copying | Joining | Ended

record pair =
  proxy_closed :: bool
  exit_closed :: bool
  child_done :: bool
  watcher_done :: bool
  runner :: runner
  tracked :: nat

datatype pair_event = ProxySessionCloses | ExitSessionCloses | ParentCancelled | WatcherFires | CopyEnds | CopyCancelled | RunnerJoins

definition pair_start :: pair where
  "pair_start = \<lparr>proxy_closed = False, exit_closed = False, child_done = False, watcher_done = False,
     runner = Copying, tracked = 0\<rparr>"

text \<open>
  \<open>CopyEnds\<close> is \<open>Duplex.Run\<close> returning because both directions have ended, which is up to the
  peers. \<open>CopyCancelled\<close> is its return because the child context has ended (it then closes both
  connections and joins its copiers, \<open>duplex_join_terminates\<close>). The deferred functions then cancel the
  child context, wait for the watcher and call \<open>track\<close>. The child context ends with its parent or
  when the watcher cancels it.
\<close>

fun pair_step :: "pair \<Rightarrow> pair_event \<Rightarrow> pair option" where
  "pair_step s ProxySessionCloses = Some (s\<lparr>proxy_closed := True\<rparr>)"
| "pair_step s ExitSessionCloses = Some (s\<lparr>exit_closed := True\<rparr>)"
| "pair_step s ParentCancelled = Some (s\<lparr>child_done := True\<rparr>)"
| "pair_step s WatcherFires =
     (if \<not> watcher_done s \<and> (proxy_closed s \<or> exit_closed s \<or> child_done s)
      then Some (s\<lparr>child_done := True, watcher_done := True\<rparr>) else None)"
| "pair_step s CopyEnds =
     (if runner s = Copying then Some (s\<lparr>runner := Joining, child_done := True\<rparr>) else None)"
| "pair_step s CopyCancelled =
     (if runner s = Copying \<and> child_done s then Some (s\<lparr>runner := Joining\<rparr>) else None)"
| "pair_step s RunnerJoins =
     (if runner s = Joining \<and> watcher_done s
      then Some (s\<lparr>runner := Ended, tracked := tracked s + 1\<rparr>) else None)"

definition pair_inv :: "pair \<Rightarrow> bool" where
  "pair_inv s \<longleftrightarrow> (runner s \<noteq> Copying \<longrightarrow> child_done s) \<and> (watcher_done s \<longrightarrow> child_done s)
     \<and> (runner s = Ended \<longrightarrow> watcher_done s) \<and> tracked s = (if runner s = Ended then 1 else 0)"

definition pair_work :: "pair \<Rightarrow> nat" where
  "pair_work s = (case runner s of Copying \<Rightarrow> 2 | Joining \<Rightarrow> 1 | Ended \<Rightarrow> 0) + (if watcher_done s then 0 else 1)"

section \<open>Lemmas\<close>

interpretation bridge_slots: bounded_slots
  "\<lambda>b. 0 \<le> conns b" "\<lambda>b. nat (conns b)" 256 "\<lambda>b. launch b sid" "\<lambda>b. track b sid" for sid
  by unfold_locales (auto simp: launch_def track_def maxStreams_def split: if_splits)

lemma launch_cases:
  assumes "conns b = int n" and "n \<le> 256"
  shows "launch b sid = None \<longleftrightarrow> n = 256"
  using bridge_slots.acquire_full [of b sid] assms by auto

lemma serve_stream_cases:
  "serve_stream reg op b sid = (Bridged, b') \<Longrightarrow> launch b sid = Some b'"
  "serve_stream reg op b sid = (d, b') \<Longrightarrow> d \<noteq> Bridged \<Longrightarrow> b' = b"
  by (auto simp: serve_stream_def split: option.splits sum.splits)

lemma bridge_inv_step:
  assumes inv: "bridge_inv s" and step: "bridge_step s ev = Some t"
  shows "bridge_inv t"
proof (cases ev)
  case (Accepted reg op sid)
  obtain d b where db: "serve_stream reg op (br s) sid = (d, b)" by fastforce
  show ?thesis
  proof (cases "d = Bridged")
    case True
    then have l: "launch (br s) sid = Some b" using db serve_stream_cases(1) by blast
    moreover have "t = \<lparr>br = b, live = sid # live s\<rparr>" using step Accepted db True by simp
    moreover have "length (live s) \<noteq> 256"
      using launch_cases [of "br s" "length (live s)" sid] inv l by (auto simp: bridge_inv_def)
    ultimately show ?thesis using inv by (auto simp: bridge_inv_def launch_def split: if_splits)
  next
    case False
    then have "t = s" using step Accepted db serve_stream_cases(2) [OF db False]
      by (cases d) auto
    then show ?thesis using inv by simp
  qed
next
  case (PairEnds sid)
  then have "sid \<in> set (live s)" "t = \<lparr>br = track (br s) sid, live = remove1 sid (live s)\<rparr>"
    using step by (auto split: if_splits)
  moreover from this(1) have "0 < length (live s)" by (rule length_pos_if_in_set)
  ultimately show ?thesis using inv
    by (auto simp: bridge_inv_def track_def length_remove1 of_nat_diff Suc_le_eq
        dest: in_set_remove1 [THEN iffD2, rotated])
qed

interpretation bridge_ok: machine_invariant bridge_start "bridge_step :: _ \<Rightarrow> 'm bridge_event \<Rightarrow> _" bridge_inv
proof
  show "bridge_inv bridge_start" by (simp add: bridge_inv_def bridge_start_def NewBridge_def)
qed (rule bridge_inv_step)

interpretation pair_ok: machine_invariant pair_start pair_step pair_inv
proof
  show "pair_inv pair_start" by (simp add: pair_inv_def pair_start_def)
  show "pair_inv t" if "pair_inv s" "pair_step s ev = Some t" for s ev t
    using that by (cases ev) (auto simp: pair_inv_def split: if_splits)
qed

lemma counter_Write_tally:
  assumes "tally c = int (length (sent (cwriter c)))" and "length (sent (cwriter c)) + length p < 2 ^ 63"
  shows "tally (snd (counter_Write c p)) = int (length (sent (cwriter (snd (counter_Write c p)))))
    \<and> length (sent (cwriter (snd (counter_Write c p)))) \<le> length (sent (cwriter c)) + length p"
proof -
  obtain n e w where w: "conn_write (cwriter c) p = ((n, e), w)" by (metis surj_pair)
  note s = conn_write_sent [OF w]
  have "in64 (int (length (sent (cwriter c))) + int n)" using assms(2) s by (simp add: in64_def)
  then show ?thesis using assms(1) s by (simp add: counter_Write_def w wrap64_id)
qed

text \<open>
  C12. Stream ceiling: over every interleaving of serve loops and ending pairs the counter is the
  number of running pairs and never exceeds 256, and an accepted proxy stream is bridged exactly if
  an exit is registered, a stream to it opens, and fewer than 256 pairs are running; in every other
  case it is closed at once and the bookkeeping is untouched.
\<close>

theorem bridge_ceiling:
  fixes reg :: "'m registry"
  assumes "reaches (bridge_step :: _ \<Rightarrow> 'm bridge_event \<Rightarrow> _) bridge_start s"
  shows "conns (br s) = int (length (live s)) \<and> length (live s) \<le> 256 \<and> active (br s) \<subseteq> set (live s)
    \<and> (fst (serve_stream reg op (br s) sid) = Bridged \<longleftrightarrow>
        (\<exists>x g st. Current reg ModeExit = Some (x, g) \<and> op x = Inr st \<and> length (live s) < 256))
    \<and> (fst (serve_stream reg op (br s) sid) \<noteq> Bridged \<longrightarrow> snd (serve_stream reg op (br s) sid) = br s)"
proof -
  have inv: "bridge_inv s" using assms by (rule bridge_ok.reachable_inv)
  then have l: "launch (br s) sid = None \<longleftrightarrow> length (live s) = 256"
    by (intro launch_cases) (simp_all add: bridge_inv_def)
  then show ?thesis using inv
    by (auto simp: bridge_inv_def serve_stream_def split: option.splits sum.splits)
qed

theorem bridge_ceiling_witness:
  "\<exists>s :: bridge_sys. run_events bridge_step bridge_start
       [Accepted (snd (snd (Register NewRegistry ModeExit (Some (1 :: nat))))) (\<lambda>_. Inr 2) 1,
        Accepted NewRegistry (\<lambda>_. Inr 2) 3] = Some s
     \<and> conns (br s) = int (length (live s)) \<and> length (live s) \<le> 256 \<and> live s = [1]"
proof -
  obtain s where s: "run_events bridge_step bridge_start
       [Accepted (snd (snd (Register NewRegistry ModeExit (Some (1 :: nat))))) (\<lambda>_. Inr 2) 1,
        Accepted NewRegistry (\<lambda>_. Inr 2) 3] = Some s" "live s = [1]"
    by (simp add: serve_stream_def launch_def bridge_start_def NewBridge_def maxStreams_def
        Current_def Register_def NewRegistry_def)
  from bridge_ceiling [OF run_events_reaches [OF s(1)]] s show ?thesis by blast
qed

text \<open>
  The accept loop of \<open>ServeProxy\<close> survives every stream failure: it returns only with the
  context's error or the error of \<open>AcceptStream\<close>, and until then each accepted stream gets exactly
  one disposition, in order.
\<close>

theorem ServeProxy_returns_only_on_session_end:
  "case ServeProxy b ps of (ds, b', r) \<Rightarrow>
     length ds \<le> length ps
     \<and> (\<forall>p \<in> set (take (length ds) ps). p_ctx p = None \<and> (\<exists>sid. p_accept p = Inr sid))
     \<and> (r = None \<longleftrightarrow> length ds = length ps)
     \<and> (\<forall>err. r = Some err \<longrightarrow> (let p = ps ! length ds in
          p_ctx p = Some err \<or> p_ctx p = None \<and> p_accept p = Inl err))"
proof (induction ps arbitrary: b)
  case (Cons p ps)
  show ?case
  proof (cases "p_ctx p = None \<and> (\<exists>sid. p_accept p = Inr sid)")
    case True
    then obtain sid where p: "p_ctx p = None" "p_accept p = Inr sid" by blast
    obtain d b1 where d: "serve_stream (p_reg p) (p_open p) (foldl track b (p_ended p)) sid = (d, b1)"
      by fastforce
    obtain ds b2 r where r: "ServeProxy b1 ps = (ds, b2, r)" by (metis surj_pair)
    then show ?thesis using Cons.IH [of b1] p d by simp
  qed (auto split: option.splits sum.splits)
qed simp

theorem ServeProxy_returns_only_on_session_end_witness:
  "case ServeProxy NewBridge [\<lparr>p_ctx = None, p_accept = Inr 1, p_reg = NewRegistry :: nat registry,
        p_open = \<lambda>_. Inr 2, p_ended = []\<rparr>,
      \<lparr>p_ctx = None, p_accept = Inl (Sentinel EOF), p_reg = NewRegistry, p_open = \<lambda>_. Inr 2, p_ended = []\<rparr>]
    of (ds, b', r) \<Rightarrow> length ds \<le> 2 \<and> ds = [ClosedNoExit] \<and> r = Some (Sentinel EOF)"
  using ServeProxy_returns_only_on_session_end [where b = NewBridge and ps =
      "[\<lparr>p_ctx = None, p_accept = Inr 1, p_reg = NewRegistry :: nat registry,
        p_open = \<lambda>_. Inr 2, p_ended = []\<rparr>,
      \<lparr>p_ctx = None, p_accept = Inl (Sentinel EOF), p_reg = NewRegistry, p_open = \<lambda>_. Inr 2, p_ended = []\<rparr>]"]
  by (simp add: serve_stream_def Current_def NewRegistry_def)

text \<open>
  An exit can never open a connection through the proxy: \<open>ServeExit\<close> closes every stream it
  accepts, in order, until the context or the session ends.
\<close>

theorem ServeExit_closes_all:
  "case ServeExit ps of (closed, r) \<Rightarrow>
     map Inr closed = map p_accept (take (length closed) ps) \<and> (r = None \<longleftrightarrow> length closed = length ps)
     \<and> (\<forall>err. r = Some err \<longrightarrow> (let p = ps ! length closed in
          p_ctx p = Some err \<or> p_ctx p = None \<and> p_accept p = Inl err))"
proof (induction ps)
  case (Cons p ps)
  then show ?case by (auto split: option.splits sum.splits prod.splits)
qed simp

theorem ServeExit_closes_all_witness:
  "case ServeExit [\<lparr>p_ctx = None, p_accept = Inr 5, p_reg = NewRegistry :: nat registry,
        p_open = \<lambda>_. Inr 2, p_ended = []\<rparr>] of (closed, r) \<Rightarrow> closed = [5] \<and> r = None"
  using ServeExit_closes_all [of "[\<lparr>p_ctx = None, p_accept = Inr 5, p_reg = NewRegistry :: nat registry,
        p_open = \<lambda>_. Inr 2, p_ended = []\<rparr>]"]
  by simp

text \<open>
  A pair never outlives its sessions: once one of them is closed or the context is cancelled,
  and as long as the pair's goroutines have not both ended, one of their own steps (the watcher's
  cancel, the return on the cancelled context, the join; not the peers ending their copies) is enabled
  and reduces their remaining work; the slot is released exactly once, by the copy goroutine's last
  step.
\<close>

theorem pair_unwinds:
  assumes "reaches pair_step pair_start s"
    and "proxy_closed s \<or> exit_closed s \<or> child_done s"
  shows "(runner s = Ended \<and> watcher_done s
      \<or> (\<exists>ev \<in> {WatcherFires, CopyCancelled, RunnerJoins}. \<exists>t. pair_step s ev = Some t \<and> pair_work t < pair_work s))
    \<and> tracked s = (if runner s = Ended then 1 else 0)"
proof -
  have inv: "pair_inv s" using assms(1) by (rule pair_ok.reachable_inv)
  then show ?thesis using assms(2)
    by (cases "runner s"; cases "watcher_done s") (auto simp: pair_inv_def pair_work_def)
qed

theorem pair_unwinds_witness:
  "\<exists>s. run_events pair_step pair_start [ExitSessionCloses, WatcherFires, CopyCancelled, RunnerJoins] = Some s
     \<and> runner s = Ended \<and> tracked s = 1"
proof -
  obtain s where s: "run_events pair_step pair_start [ExitSessionCloses, WatcherFires, CopyCancelled, RunnerJoins]
      = Some s" "runner s = Ended" "exit_closed s"
    by (simp add: pair_start_def)
  from pair_unwinds [OF run_events_reaches [OF s(1)]] s show ?thesis by simp
qed

text \<open>
  The \<open>active\<close> set is not the set of running pairs. Stream IDs are unique only within one
  proxy session, so a pair of a replaced session and a pair of its successor can share an ID; when
  one of them ends, the other one is still running and counted but no longer in the set.
\<close>

theorem active_loses_running_pair:
  "\<exists>s :: bridge_sys. reaches (bridge_step :: _ \<Rightarrow> nat bridge_event \<Rightarrow> _) bridge_start s
     \<and> live s = [1] \<and> conns (br s) = 1 \<and> active (br s) = {}"
proof -
  let ?reg = "snd (snd (Register NewRegistry ModeExit (Some (1 :: nat))))"
  let ?s = "\<lparr>br = \<lparr>active = {}, conns = 1\<rparr>, live = [1]\<rparr>"
  have "run_events bridge_step bridge_start
       [Accepted ?reg (\<lambda>_. Inr 2) 1, Accepted ?reg (\<lambda>_. Inr 4) 1, PairEnds 1] = Some ?s"
    by (simp add: serve_stream_def launch_def track_def bridge_start_def NewBridge_def maxStreams_def
        Current_def Register_def NewRegistry_def)
  from run_events_reaches [OF this] show ?thesis by (intro exI [of _ ?s]) simp
qed

lemma bridge_half_closes: "CloseWrite countedProxy = SendsFIN \<and> CloseWrite countedExit = SendsFIN"
  by (simp add: countedProxy_def countedExit_def NewAdapter_def yamux_Close_def)

lemma bridge_addresses:
  "LocalAddr countedProxy = RemoteAddr countedExit \<and> RemoteAddr countedProxy = LocalAddr countedExit"
  by (simp add: countedProxy_def countedExit_def NewAdapter_def)

end
