(* ===== verification/Timing.thy ===== *)
theory Timing
  imports Complex_Main Prelude
begin

text \<open>
  \<open>src/internal/transport/timing.go\<close> and the backoff of \<open>authenticator.go\<close>. Durations are
  nanoseconds in a signed 64-bit integer. The jitter ratio and the random factor are \<open>float64\<close>
  values, represented exactly as rationals; rounding of their product is not modelled.
\<close>

section \<open>Timing\<close>

record Timing =
  DialTimeout :: int
  HandshakeTimeout :: int
  SetupTimeout :: int
  KeepAliveInterval :: int
  PingTimeout :: int
  StreamOpenTimeout :: int
  DrainTimeout :: int
  MinBackoff :: int
  MaxBackoff :: int
  HealthyWindow :: int
  JitterRatio :: rat

definition Second :: int where "Second = 1000000000"

text \<open>The literal 0.2 is the \<open>float64\<close> nearest to one fifth.\<close>

definition DefaultTiming :: Timing where
  "DefaultTiming = \<lparr>DialTimeout = 10 * Second, HandshakeTimeout = 10 * Second,
     SetupTimeout = 10 * Second, KeepAliveInterval = 5 * Second, PingTimeout = 5 * Second,
     StreamOpenTimeout = 10 * Second, DrainTimeout = 30 * Second, MinBackoff = 1 * Second,
     MaxBackoff = 30 * Second, HealthyWindow = 60 * Second,
     JitterRatio = 3602879701896397 / 18014398509481984\<rparr>"

definition durations :: "Timing \<Rightarrow> (string \<times> int) list" where
  "durations t =
     [(''DialTimeout'', DialTimeout t), (''HandshakeTimeout'', HandshakeTimeout t),
      (''SetupTimeout'', SetupTimeout t), (''KeepAliveInterval'', KeepAliveInterval t),
      (''PingTimeout'', PingTimeout t), (''StreamOpenTimeout'', StreamOpenTimeout t),
      (''DrainTimeout'', DrainTimeout t), (''MinBackoff'', MinBackoff t),
      (''MaxBackoff'', MaxBackoff t), (''HealthyWindow'', HealthyWindow t)]"

text \<open>\<open>ord\<close> is the order in which the runtime visits the map of durations.\<close>

definition timing_validate ::
  "((string \<times> int) list \<Rightarrow> (string \<times> int) list) \<Rightarrow> Timing \<Rightarrow> gerr option" where
  "timing_validate ord t =
     (case List.find (\<lambda>(name, d). d \<le> 0) (ord (durations t)) of
        Some (name, d) \<Rightarrow> Some (Errorf ''%w: %s must be positive'' [Sentinel ErrInvalidTiming])
      | None \<Rightarrow>
          if MinBackoff t > MaxBackoff t then
            Some (Errorf ''%w: MinBackoff %s exceeds MaxBackoff %s'' [Sentinel ErrInvalidTiming])
          else if HealthyWindow t < MinBackoff t then
            Some (Errorf ''%w: HealthyWindow %s is below MinBackoff %s'' [Sentinel ErrInvalidTiming])
          else if JitterRatio t < 0 \<or> JitterRatio t > 1 then
            Some (Errorf ''%w: JitterRatio %v must be within 0..1'' [Sentinel ErrInvalidTiming])
          else None)"

section \<open>Backoff\<close>

text \<open>The doubling loop; the first argument is the number of passes left.\<close>

fun backoff_loop :: "nat \<Rightarrow> int \<Rightarrow> int \<Rightarrow> int" where
  "backoff_loop 0 b mx = b"
| "backoff_loop (Suc k) b mx =
     (let b2 = wrap64 (b * 2) in if b2 \<ge> mx then mx else backoff_loop k b2 mx)"

text \<open>Conversion of a \<open>float64\<close> to an integer type truncates towards zero.\<close>

definition trunc :: "rat \<Rightarrow> int" where
  "trunc q = (if 0 \<le> q then \<lfloor>q\<rfloor> else \<lceil>q\<rceil>)"

text \<open>\<open>r\<close> is the value \<open>rand.Float64\<close> returned.\<close>

definition backoff :: "Timing \<Rightarrow> rat \<Rightarrow> nat \<Rightarrow> int" where
  "backoff t r attempt =
     (let b = backoff_loop attempt (MinBackoff t) (MaxBackoff t);
          jitter = trunc (r * of_int (MinBackoff t) * JitterRatio t);
          b' = wrap64 (b + jitter)
      in if b' > MaxBackoff t then MaxBackoff t else b')"

section \<open>Validity\<close>

definition timing_ok :: "Timing \<Rightarrow> bool" where
  "timing_ok t \<longleftrightarrow> (\<forall>(name, d) \<in> set (durations t). 0 < d) \<and> MinBackoff t \<le> MaxBackoff t
     \<and> MinBackoff t \<le> HealthyWindow t \<and> 0 \<le> JitterRatio t \<and> JitterRatio t \<le> 1"

lemma timing_okD:
  "timing_ok t \<Longrightarrow> 0 < MinBackoff t" "timing_ok t \<Longrightarrow> MinBackoff t \<le> MaxBackoff t"
  "timing_ok t \<Longrightarrow> 0 \<le> JitterRatio t" "timing_ok t \<Longrightarrow> JitterRatio t \<le> 1"
  "timing_ok t \<Longrightarrow> 0 < SetupTimeout t"
  by (auto simp: timing_ok_def durations_def)

lemma DefaultTiming_ok: "timing_ok DefaultTiming"
  by (simp add: timing_ok_def durations_def DefaultTiming_def Second_def)

lemma backoff_loop_eq:
  assumes "0 < b" and "b \<le> mx" and "mx < 2 ^ 62"
  shows "backoff_loop n b mx = min (b * 2 ^ n) mx"
  using assms
proof (induction n arbitrary: b)
  case (Suc n)
  have w: "wrap64 (b * 2) = b * 2" using Suc.prems by (intro wrap64_id) (simp add: in64_def)
  show ?case
  proof (cases "b * 2 \<ge> mx")
    case True
    have "b * 2 * 1 \<le> b * 2 * 2 ^ n" using Suc.prems by (intro mult_left_mono) auto
    then have "mx \<le> b * 2 ^ Suc n" using True by (simp add: mult.assoc)
    then show ?thesis using True w by simp
  next
    case False
    then show ?thesis using Suc w by (simp add: mult.assoc)
  qed
qed (simp add: min_def)

lemma jitter_bounds:
  assumes "0 \<le> r" and "r < 1" and "0 < m" and "0 \<le> j" and "j \<le> 1"
  shows "0 \<le> trunc (r * of_int m * j) \<and> trunc (r * of_int m * j) \<le> m"
proof -
  have nn: "0 \<le> r * of_int m * j" using assms by simp
  have "r * of_int m * j \<le> 1 * of_int m * 1"
    using assms by (intro mult_mono) auto
  then have "\<lfloor>r * of_int m * j\<rfloor> \<le> m" by linarith
  then show ?thesis using nn by (simp add: trunc_def)
qed

text \<open>
  \<open>Timing.validate\<close> accepts exactly the schedules with positive durations, an ordered backoff
  range, a healthy window not below the floor and a jitter ratio in 0..1, whatever order the map of
  durations is visited in; every rejection is an \<open>ErrInvalidTiming\<close>; the shipped
  \<open>DefaultTiming\<close> is accepted.
\<close>

theorem timing_validate_iff:
  assumes "\<And>xs. set (ord xs) = set xs"
  shows "(timing_validate ord t = None \<longleftrightarrow> timing_ok t)
    \<and> (\<forall>e. timing_validate ord t = Some e \<longrightarrow> errors_is e ErrInvalidTiming)
    \<and> timing_validate ord DefaultTiming = None"
proof -
  have v: "timing_validate ord u = None \<longleftrightarrow> timing_ok u" for u
  proof (cases "List.find (\<lambda>(name, d). d \<le> 0) (ord (durations u))")
    case None
    then have "\<forall>(name, d) \<in> set (durations u). 0 < d"
      using assms by (auto simp: find_None_iff not_le)
    then show ?thesis using None by (auto simp: timing_validate_def timing_ok_def)
  next
    case (Some p)
    then have "p \<in> set (durations u)" "snd p \<le> 0"
      using assms by (auto simp: find_Some_iff) (metis nth_mem)
    then have "\<not> timing_ok u" by (fastforce simp: timing_ok_def)
    then show ?thesis using Some by (auto simp: timing_validate_def)
  qed
  have "errors_is e ErrInvalidTiming" if "timing_validate ord t = Some e" for e
    using that by (auto simp: timing_validate_def split: option.splits if_splits)
  then show ?thesis using v DefaultTiming_ok by blast
qed

theorem timing_validate_iff_witness: "timing_validate rev DefaultTiming = None"
  using timing_validate_iff [of rev DefaultTiming] by simp

text \<open>
  The jittered exponential backoff of the authenticator: for a valid schedule with a ceiling
  below 2^62 nanoseconds, attempt \<open>n\<close> waits at least the doubled floor clamped to the ceiling, at
  most one floor more, never above the ceiling, and without jitter exactly that value. No overflow
  occurs.
\<close>

theorem backoff_bounds:
  assumes "timing_ok t" and "MaxBackoff t < 2 ^ 62" and "0 \<le> r" and "r < 1"
  shows "min (MinBackoff t * 2 ^ n) (MaxBackoff t) \<le> backoff t r n
    \<and> backoff t r n \<le> min (min (MinBackoff t * 2 ^ n) (MaxBackoff t) + MinBackoff t) (MaxBackoff t)
    \<and> backoff t 0 n = min (MinBackoff t * 2 ^ n) (MaxBackoff t)"
proof -
  let ?b = "min (MinBackoff t * 2 ^ n) (MaxBackoff t)"
  have loop: "backoff_loop n (MinBackoff t) (MaxBackoff t) = ?b"
    using assms timing_okD by (intro backoff_loop_eq) auto
  have b: "0 < ?b" "?b \<le> MaxBackoff t" using timing_okD(1,2) [OF assms(1)] by auto
  have j: "0 \<le> trunc (q * of_int (MinBackoff t) * JitterRatio t)
      \<and> trunc (q * of_int (MinBackoff t) * JitterRatio t) \<le> MinBackoff t" if "0 \<le> q" "q < 1" for q
    using that timing_okD [OF assms(1)] by (intro jitter_bounds) auto
  have w: "wrap64 (?b + x) = ?b + x" if "0 \<le> x" "x \<le> MinBackoff t" for x
  proof (rule wrap64_id)
    show "in64 (?b + x)"
      by (rule in64_sum [of _ "MaxBackoff t"])
        (use that b assms(2) timing_okD(2) [OF assms(1)] in \<open>auto simp del: min_less_iff_conj\<close>)
  qed
  have eq: "backoff t q n = min (?b + trunc (q * of_int (MinBackoff t) * JitterRatio t)) (MaxBackoff t)"
    if "0 \<le> q" "q < 1" for q
    using loop j [OF that] by (simp add: backoff_def Let_def w)
  have z: "backoff t 0 n = ?b" using eq [of 0] by (simp add: trunc_def)
  show ?thesis unfolding z eq [OF assms(3,4)] using j [OF assms(3,4)] b by linarith
qed

theorem backoff_bounds_witness:
  "min (MinBackoff DefaultTiming * 2 ^ 3) (MaxBackoff DefaultTiming) \<le> backoff DefaultTiming (1 / 2) 3
    \<and> backoff DefaultTiming 0 3 = 8000000000"
  using backoff_bounds [OF DefaultTiming_ok, of "1 / 2" 3]
  by (simp add: DefaultTiming_def Second_def)

end
