(* ===== verification/Connector.thy ===== *)
theory Connector
  imports Timing
begin

text \<open>
  \<open>src/internal/transport/session.go\<close> and \<open>connector.go\<close>: the life of a session and the
  client's reconnect loop, as a machine whose events are the loop's own steps, the goroutines that
  watch a session, the peer, the parent context and the passing of time.
\<close>

section \<open>Sessions and links\<close>

text \<open>
  A session published by the connector with its \<open>LinkedSession\<close> fields: whether the mux is closed,
  the \<open>closing\<close> channel, the link's context and \<open>done\<close> channel, whether this side called
  \<open>Close\<close>, and when it started.
\<close>

record link =
  mux_closed :: bool
  closing :: bool
  ctx_done :: bool
  ldone :: bool
  close_called :: bool
  startedAt :: int

text \<open>\<open>newSession\<close> for a non-nil connection and mux, wrapped by \<open>connect\<close> in a context derived
  from the parent.\<close>

definition newLink :: "int \<Rightarrow> bool \<Rightarrow> link" where
  "newLink t parent_done = \<lparr>mux_closed = False, closing = False, ctx_done = parent_done, ldone = False,
     close_called = False, startedAt = t\<rparr>"

text \<open>\<open>Session.Close\<close>: \<open>closing\<close> is closed at most once, the mux is closed every time.\<close>

definition Session_Close :: "link \<Rightarrow> link" where
  "Session_Close l = l\<lparr>closing := True, mux_closed := True, close_called := True\<rparr>"

text \<open>The goroutine of \<open>newSession\<close> that mirrors the end of the mux.\<close>

definition mux_watcher :: "link \<Rightarrow> link option" where
  "mux_watcher l = (if mux_closed l \<and> \<not> closing l then Some (l\<lparr>closing := True\<rparr>) else None)"

text \<open>What \<open>Session.Done\<close> shows: whether the \<open>closing\<close> channel is closed.\<close>

abbreviation Session_Done :: "link \<Rightarrow> bool" where
  "Session_Done \<equiv> closing"

text \<open>The goroutine of \<open>connect\<close>: it waits for the session's end or the link's context.\<close>

definition link_watcher :: "link \<Rightarrow> link option" where
  "link_watcher l =
     (if ldone l then None
      else if Session_Done l then Some (l\<lparr>ctx_done := True, ldone := True\<rparr>)
      else if ctx_done l then Some (l\<lparr>ldone := True\<rparr>)
      else None)"

definition Uptime :: "int \<Rightarrow> link \<Rightarrow> int" where
  "Uptime now l = now - startedAt l"

definition HealthySince :: "int \<Rightarrow> link \<Rightarrow> int \<Rightarrow> bool" where
  "HealthySince now l m \<longleftrightarrow> Uptime now l \<ge> m"

section \<open>The reconnect loop\<close>

datatype cpc = Connecting | Waiting int | Serving nat | Stopped "gerr option"

record connector =
  pc :: cpc
  backoffd :: int
  firstEstablishment :: bool
  current :: "nat option"
  links :: "link list"
  parent :: "gerr option"
  now :: int

definition connector_start :: "Timing \<Rightarrow> connector" where
  "connector_start tm = \<lparr>pc = Connecting, backoffd = MinBackoff tm, firstEstablishment = True,
     current = None, links = [], parent = None, now = 0\<rparr>"

definition Snapshot :: "connector \<Rightarrow> nat option" where
  "Snapshot c = current c"

definition clearIf :: "nat \<Rightarrow> connector \<Rightarrow> connector" where
  "clearIf i c = (if current c = Some i then c\<lparr>current := None\<rparr> else c)"

definition upd_link :: "nat \<Rightarrow> (link \<Rightarrow> link) \<Rightarrow> connector \<Rightarrow> connector" where
  "upd_link i f c = c\<lparr>links := (links c)[i := f (links c ! i)]\<rparr>"

datatype cevent =
    AuthFails gerr
  | AuthOk
  | BackoffElapsed
  | BackoffCancelled
  | LinkDone
  | ParentDone
  | MuxWatcher nat
  | LinkWatcher nat
  | PeerEnds nat
  | ParentCancel gerr
  | Tick nat

text \<open>
  \<open>AuthFails\<close> and \<open>AuthOk\<close> are the two outcomes of \<open>connect\<close>; \<open>Backoff\<dots>\<close> the two branches of
  \<open>waitBackoff\<close>; \<open>LinkDone\<close> and \<open>ParentDone\<close> the two branches of \<open>serve\<close>, the first with the
  loop body that follows it.
\<close>

fun connector_step :: "Timing \<Rightarrow> connector \<Rightarrow> cevent \<Rightarrow> connector option" where
  "connector_step tm c (AuthFails err) =
     (if pc c = Connecting then
        (if errors_is err Canceled then Some (c\<lparr>pc := Stopped (parent c)\<rparr>)
         else Some (c\<lparr>pc := Waiting (now c + backoffd c)\<rparr>))
      else None)"
| "connector_step tm c AuthOk =
     (if pc c = Connecting then
        Some (c\<lparr>pc := Serving (length (links c)), current := Some (length (links c)),
          links := links c @ [newLink (now c) (parent c \<noteq> None)], firstEstablishment := False\<rparr>)
      else None)"
| "connector_step tm c BackoffElapsed =
     (case pc c of
        Waiting t \<Rightarrow> if now c \<ge> t
          then Some (c\<lparr>pc := Connecting, backoffd := min (wrap64 (backoffd c * 2)) (MaxBackoff tm)\<rparr>)
          else None
      | _ \<Rightarrow> None)"
| "connector_step tm c BackoffCancelled =
     (case pc c of
        Waiting t \<Rightarrow> if parent c \<noteq> None then Some (c\<lparr>pc := Stopped (parent c)\<rparr>) else None
      | _ \<Rightarrow> None)"
| "connector_step tm c LinkDone =
     (case pc c of
        Serving i \<Rightarrow>
          if i < length (links c) \<and> ldone (links c ! i)
          then Some ((clearIf i c)\<lparr>pc := Connecting,
            backoffd := (if HealthySince (now c) (links c ! i) (HealthyWindow tm)
                         then MinBackoff tm else backoffd c)\<rparr>)
          else None
      | _ \<Rightarrow> None)"
| "connector_step tm c ParentDone =
     (case pc c of
        Serving i \<Rightarrow>
          if i < length (links c) \<and> parent c \<noteq> None
          then Some ((upd_link i (\<lambda>l. (Session_Close l)\<lparr>ctx_done := True\<rparr>) c)\<lparr>pc := Stopped (parent c)\<rparr>)
          else None
      | _ \<Rightarrow> None)"
| "connector_step tm c (MuxWatcher i) =
     (if i < length (links c)
      then map_option (\<lambda>l. upd_link i (\<lambda>_. l) c) (mux_watcher (links c ! i)) else None)"
| "connector_step tm c (LinkWatcher i) =
     (if i < length (links c)
      then map_option (\<lambda>l. upd_link i (\<lambda>_. l) c) (link_watcher (links c ! i)) else None)"
| "connector_step tm c (PeerEnds i) =
     (if i < length (links c) then Some (upd_link i (\<lambda>l. l\<lparr>mux_closed := True\<rparr>) c) else None)"
| "connector_step tm c (ParentCancel err) =
     (if parent c = None
      then Some (c\<lparr>parent := Some err, links := map (\<lambda>l. l\<lparr>ctx_done := True\<rparr>) (links c)\<rparr>) else None)"
| "connector_step tm c (Tick d) = Some (c\<lparr>now := now c + int d\<rparr>)"

section \<open>Invariant\<close>

definition link_ok :: "gerr option \<Rightarrow> link \<Rightarrow> bool" where
  "link_ok p l \<longleftrightarrow> (closing l \<longrightarrow> mux_closed l) \<and> (ldone l \<longrightarrow> ctx_done l)
     \<and> (p \<noteq> None \<longrightarrow> ctx_done l) \<and> (close_called l \<longrightarrow> closing l)"

definition pc_ok :: "cpc \<Rightarrow> gerr option \<Rightarrow> nat option \<Rightarrow> link list \<Rightarrow> bool" where
  "pc_ok p par cur ls \<longleftrightarrow> (case p of
       Connecting \<Rightarrow> cur = None \<and> list_all ldone ls
     | Waiting t \<Rightarrow> cur = None \<and> list_all ldone ls
     | Serving i \<Rightarrow> cur = Some i \<and> Suc i = length ls \<and> list_all ldone (butlast ls)
     | Stopped r \<Rightarrow> (r = None \<or> r = par) \<and> list_all ldone (butlast ls)
         \<and> (case cur of None \<Rightarrow> list_all ldone ls
            | Some i \<Rightarrow> Suc i = length ls \<and> close_called (ls ! i) \<and> par \<noteq> None))"

definition connector_inv :: "Timing \<Rightarrow> connector \<Rightarrow> bool" where
  "connector_inv tm c \<longleftrightarrow> MinBackoff tm \<le> backoffd c \<and> backoffd c \<le> MaxBackoff tm
     \<and> list_all (link_ok (parent c)) (links c) \<and> pc_ok (pc c) (parent c) (current c) (links c)"

section \<open>Lemmas\<close>

text \<open>Changing one link keeps the invariant if it keeps the link's own and never reopens it.\<close>

definition link_grows :: "gerr option \<Rightarrow> link \<Rightarrow> link \<Rightarrow> bool" where
  "link_grows p l l' \<longleftrightarrow> link_ok p l' \<and> (ldone l \<longrightarrow> ldone l') \<and> (close_called l \<longrightarrow> close_called l')"

lemma list_all_update:
  "list_all P xs \<Longrightarrow> (i < length xs \<Longrightarrow> P (xs ! i) \<Longrightarrow> P x) \<Longrightarrow> list_all P (xs[i := x])"
  by (cases "i < length xs") (auto simp: list_all_length nth_list_update list_update_beyond)

lemma list_all_butlast: "list_all P xs \<Longrightarrow> list_all P (butlast xs)"
  by (auto simp: list_all_iff dest: in_set_butlastD)

lemma list_all_butlast_update:
  assumes "list_all P (butlast xs)" and "P (xs ! i) \<Longrightarrow> P x"
  shows "list_all P (butlast (xs[i := x]))"
  using assms
  by (cases "i < length xs") (auto simp: list_all_length nth_butlast nth_list_update list_update_beyond)

lemma pc_ok_update:
  assumes "pc_ok p par cur ls" and "i < length ls" and "link_grows par (ls ! i) l"
  shows "pc_ok p par cur (ls[i := l])"
  using assms
  by (auto simp: pc_ok_def link_grows_def nth_list_update intro!: list_all_update list_all_butlast_update
      split: cpc.splits option.splits)

lemma inv_upd_link:
  assumes "connector_inv tm c" and "i < length (links c)" and "link_grows (parent c) (links c ! i) (f (links c ! i))"
  shows "connector_inv tm (upd_link i f c)"
  using assms pc_ok_update
  by (auto simp: connector_inv_def upd_link_def link_grows_def intro!: list_all_update)

lemma link_ok_nth: "connector_inv tm c \<Longrightarrow> i < length (links c) \<Longrightarrow> link_ok (parent c) (links c ! i)"
  by (simp add: connector_inv_def list_all_length)

lemma watcher_grows:
  "link_ok p l \<Longrightarrow> mux_watcher l = Some l' \<Longrightarrow> link_grows p l l'"
  "link_ok p l \<Longrightarrow> link_watcher l = Some l' \<Longrightarrow> link_grows p l l'"
  "link_ok p l \<Longrightarrow> link_grows p l (l\<lparr>mux_closed := True\<rparr>)"
  by (auto simp: mux_watcher_def link_watcher_def link_grows_def link_ok_def split: if_splits)

lemma inv_links:
  assumes "connector_inv tm c"
  shows "connector_step tm c (MuxWatcher i) = Some d \<Longrightarrow> connector_inv tm d"
    and "connector_step tm c (LinkWatcher i) = Some d \<Longrightarrow> connector_inv tm d"
    and "connector_step tm c (PeerEnds i) = Some d \<Longrightarrow> connector_inv tm d"
  using assms link_ok_nth [OF assms]
  by (auto split: if_splits intro!: inv_upd_link intro: watcher_grows)

lemma inv_ParentCancel:
  "connector_inv tm c \<Longrightarrow> connector_step tm c (ParentCancel e) = Some d \<Longrightarrow> connector_inv tm d"
  by (auto simp: connector_inv_def pc_ok_def link_ok_def list_all_iff map_butlast [symmetric] nth_append
      split: if_splits cpc.splits option.splits)

lemma inv_waits:
  assumes "timing_ok tm" and "MaxBackoff tm < 2 ^ 62" and "connector_inv tm c"
  shows "connector_step tm c BackoffElapsed = Some d \<Longrightarrow> connector_inv tm d"
    and "connector_step tm c BackoffCancelled = Some d \<Longrightarrow> connector_inv tm d"
proof -
  have w: "wrap64 (backoffd c * 2) = backoffd c * 2"
    using assms timing_okD(1,2) [OF assms(1)] by (intro wrap64_id) (auto simp: in64_def connector_inv_def)
  show "connector_step tm c BackoffElapsed = Some d \<Longrightarrow> connector_inv tm d"
    using assms(3) timing_okD(1,2) [OF assms(1)]
    by (auto simp: connector_inv_def pc_ok_def w split: cpc.splits if_splits)
  show "connector_step tm c BackoffCancelled = Some d \<Longrightarrow> connector_inv tm d"
    using assms(3) by (auto simp: connector_inv_def pc_ok_def list_all_butlast split: cpc.splits if_splits)
qed

lemma inv_connect:
  assumes "connector_inv tm c"
  shows "connector_step tm c (AuthFails e) = Some d \<Longrightarrow> connector_inv tm d"
    and "connector_step tm c AuthOk = Some d \<Longrightarrow> connector_inv tm d"
  using assms
  by (auto simp: connector_inv_def pc_ok_def newLink_def link_ok_def list_all_butlast split: if_splits)

lemma list_all_last: "list_all P (butlast xs) \<Longrightarrow> Suc i = length xs \<Longrightarrow> P (xs ! i) \<Longrightarrow> list_all P xs"
  by (cases xs rule: rev_cases) (auto simp: nth_append)

lemma inv_LinkDone:
  assumes "timing_ok tm" and "connector_inv tm c" and "connector_step tm c LinkDone = Some d"
  shows "connector_inv tm d"
  using assms timing_okD(2) [OF assms(1)]
  by (auto simp: connector_inv_def pc_ok_def clearIf_def list_all_last split: cpc.splits if_splits)

lemma inv_ParentDone:
  assumes inv: "connector_inv tm c" and step: "connector_step tm c ParentDone = Some d"
  shows "connector_inv tm d"
proof -
  let ?f = "\<lambda>l. (Session_Close l)\<lparr>ctx_done := True\<rparr>"
  obtain i where i: "pc c = Serving i" "i < length (links c)" "parent c \<noteq> None"
    and d: "d = (upd_link i ?f c)\<lparr>pc := Stopped (parent c)\<rparr>"
    using step by (auto split: cpc.splits if_splits)
  have g: "link_grows (parent c) (links c ! i) (?f (links c ! i))"
    using link_ok_nth [OF inv i(2)] by (simp add: link_grows_def link_ok_def Session_Close_def)
  have "connector_inv tm (upd_link i ?f c)" using inv i(2) g by (rule inv_upd_link)
  then show ?thesis using i
    by (auto simp: d connector_inv_def pc_ok_def upd_link_def Session_Close_def)
qed

lemma connector_inv_step:
  assumes "timing_ok tm" and "MaxBackoff tm < 2 ^ 62" and "connector_inv tm c"
    and "connector_step tm c ev = Some d"
  shows "connector_inv tm d"
  using assms
proof (cases ev)
  case (Tick n)
  then show ?thesis using assms by (auto simp: connector_inv_def)
qed (auto simp del: connector_step.simps
    dest: inv_links inv_ParentCancel inv_waits inv_connect inv_LinkDone inv_ParentDone)

lemma connector_machine:
  assumes "timing_ok tm" and "MaxBackoff tm < 2 ^ 62"
  shows "machine_invariant (connector_start tm) (connector_step tm) (connector_inv tm)"
proof
  show "connector_inv tm (connector_start tm)"
    using timing_okD(2) [OF assms(1)] by (simp add: connector_inv_def connector_start_def pc_ok_def)
qed (rule connector_inv_step [OF assms])

interpretation default_connector: machine_invariant
  "connector_start DefaultTiming" "connector_step DefaultTiming" "connector_inv DefaultTiming"
  by (rule connector_machine [OF DefaultTiming_ok]) (simp add: DefaultTiming_def Second_def)

lemma failed_attempt:
  assumes "timing_ok tm" and "MaxBackoff tm < 2 ^ 62" and "connector_inv tm c" and "pc c = Connecting"
    and "\<not> errors_is e Canceled"
  shows "\<exists>d. run_events (connector_step tm) c [AuthFails e, Tick (nat (MaxBackoff tm)), BackoffElapsed] = Some d
    \<and> pc d = Connecting \<and> backoffd d = min (backoffd c * 2) (MaxBackoff tm) \<and> connector_inv tm d"
proof -
  have b: "0 < backoffd c" "backoffd c \<le> MaxBackoff tm"
    using assms(3) timing_okD(1) [OF assms(1)] by (auto simp: connector_inv_def)
  then have w: "wrap64 (backoffd c * 2) = backoffd c * 2"
    using assms(2) by (intro wrap64_id) (simp add: in64_def)
  let ?d = "c\<lparr>pc := Connecting, now := now c + MaxBackoff tm,
     backoffd := min (backoffd c * 2) (MaxBackoff tm)\<rparr>"
  have "run_events (connector_step tm) c [AuthFails e, Tick (nat (MaxBackoff tm)), BackoffElapsed] = Some ?d"
    using assms(4,5) b w by simp
  moreover have "connector_inv tm ?d"
    using assms(3,4) b timing_okD(1,2) [OF assms(1)] by (auto simp: connector_inv_def)
  ultimately show ?thesis by (intro exI [of _ ?d]) simp
qed

text \<open>
  C16. What the reconnect loop publishes: in every reachable state of a connector with a valid
  schedule the backoff stays between its floor and its ceiling; \<open>Snapshot\<close> only ever returns the
  newest link, and only while it is being served or after the loop was stopped and the session
  closed; while the loop reconnects or waits it returns none and the context of every earlier link
  has ended; and the loop stops only with the parent's own error, or without an error if an attempt
  reported a cancellation.
\<close>

theorem connector_publishes_newest:
  assumes "timing_ok tm" and "MaxBackoff tm < 2 ^ 62"
    and "reaches (connector_step tm) (connector_start tm) c"
  shows "MinBackoff tm \<le> backoffd c \<and> backoffd c \<le> MaxBackoff tm
    \<and> (\<forall>i. Snapshot c = Some i \<longrightarrow> Suc i = length (links c)
          \<and> (pc c = Serving i \<or> (\<exists>r. pc c = Stopped r) \<and> close_called (links c ! i)))
    \<and> (pc c = Connecting \<or> (\<exists>t. pc c = Waiting t) \<longrightarrow> Snapshot c = None \<and> list_all ctx_done (links c))
    \<and> (\<forall>r. pc c = Stopped r \<longrightarrow> r = None \<or> r = parent c)"
proof -
  have inv: "connector_inv tm c"
    using assms(3) by (rule machine_invariant.reaches_inv [OF connector_machine [OF assms(1,2)]])
  then have "list_all ldone (links c) \<Longrightarrow> list_all ctx_done (links c)"
    by (auto simp: connector_inv_def link_ok_def list_all_iff)
  then show ?thesis using inv
    by (auto simp: connector_inv_def pc_ok_def Snapshot_def split: cpc.splits option.splits)
qed

theorem connector_publishes_newest_witness:
  "\<exists>c. run_events (connector_step DefaultTiming) (connector_start DefaultTiming)
       [AuthOk, PeerEnds 0, MuxWatcher 0, LinkWatcher 0, LinkDone, AuthOk] = Some c
     \<and> Snapshot c = Some 1 \<and> Suc 1 = length (links c) \<and> backoffd c \<le> MaxBackoff DefaultTiming"
proof -
  obtain c where c: "run_events (connector_step DefaultTiming) (connector_start DefaultTiming)
       [AuthOk, PeerEnds 0, MuxWatcher 0, LinkWatcher 0, LinkDone, AuthOk] = Some c" "Snapshot c = Some 1"
    by (simp add: connector_start_def newLink_def upd_link_def mux_watcher_def link_watcher_def
        clearIf_def HealthySince_def Uptime_def DefaultTiming_def Second_def Snapshot_def)
  have m: "MaxBackoff DefaultTiming < 2 ^ 62" by (simp add: DefaultTiming_def Second_def)
  from connector_publishes_newest [OF DefaultTiming_ok m run_events_reaches [OF c(1)]] c
  show ?thesis by simp
qed

text \<open>
  Retry schedule: after \<open>k\<close> failed attempts in a row the next wait is the initial backoff
  doubled \<open>k\<close> times, clamped to the ceiling, and the loop is connecting again: it never gives up.
\<close>

theorem connector_retry_schedule:
  assumes "timing_ok tm" and "MaxBackoff tm < 2 ^ 62" and "connector_inv tm c" and "pc c = Connecting"
    and "\<not> errors_is e Canceled"
  shows "\<exists>d. run_events (connector_step tm) c
      (concat (replicate k [AuthFails e, Tick (nat (MaxBackoff tm)), BackoffElapsed])) = Some d
    \<and> pc d = Connecting \<and> backoffd d = min (backoffd c * 2 ^ k) (MaxBackoff tm)
    \<and> connector_step tm d (AuthFails e) = Some (d\<lparr>pc := Waiting (now d + backoffd d)\<rparr>)"
proof -
  have b: "0 < backoffd c \<and> backoffd c \<le> MaxBackoff tm" if "connector_inv tm c" for c
    using that timing_okD(1) [OF assms(1)] by (auto simp: connector_inv_def)
  have "\<exists>d. run_events (connector_step tm) c
      (concat (replicate k [AuthFails e, Tick (nat (MaxBackoff tm)), BackoffElapsed])) = Some d
    \<and> pc d = Connecting \<and> backoffd d = min (backoffd c * 2 ^ k) (MaxBackoff tm)"
    using assms(3,4)
  proof (induction k arbitrary: c)
    case 0
    then show ?case using b [OF 0(1)] by (simp add: min_def)
  next
    case (Suc k)
    obtain d where d: "run_events (connector_step tm) c
        [AuthFails e, Tick (nat (MaxBackoff tm)), BackoffElapsed] = Some d"
      "pc d = Connecting" "backoffd d = min (backoffd c * 2) (MaxBackoff tm)" "connector_inv tm d"
      using failed_attempt [OF assms(1,2) Suc.prems assms(5)] by blast
    obtain d' where d': "run_events (connector_step tm) d
        (concat (replicate k [AuthFails e, Tick (nat (MaxBackoff tm)), BackoffElapsed])) = Some d'"
      "pc d' = Connecting" "backoffd d' = min (backoffd d * 2 ^ k) (MaxBackoff tm)"
      using Suc.IH [OF d(4,2)] by blast
    have "MaxBackoff tm * 1 \<le> MaxBackoff tm * 2 ^ k" using b [OF d(4)] by (intro mult_left_mono) auto
    then have "backoffd d' = min (backoffd c * 2 ^ Suc k) (MaxBackoff tm)"
      unfolding d' d(3) by (simp add: min_mult_distrib_right mult.assoc)
    then show ?case using d(1) d' run_events_append
        [of "connector_step tm" c "[AuthFails e, Tick (nat (MaxBackoff tm)), BackoffElapsed]"]
      by (simp del: run_events.simps connector_step.simps)
  qed
  then show ?thesis using assms(5) by auto
qed

theorem connector_retry_schedule_witness:
  "\<exists>d. run_events (connector_step DefaultTiming) (connector_start DefaultTiming)
      (concat (replicate 6 [AuthFails (Sentinel ErrDial), Tick (nat (MaxBackoff DefaultTiming)), BackoffElapsed]))
      = Some d \<and> backoffd d = 30000000000"
proof -
  have m: "MaxBackoff DefaultTiming < 2 ^ 62" by (simp add: DefaultTiming_def Second_def)
  have p: "pc (connector_start DefaultTiming) = Connecting" by (simp add: connector_start_def)
  have e: "\<not> errors_is (Sentinel ErrDial) Canceled" by simp
  from connector_retry_schedule [OF DefaultTiming_ok m default_connector.start_inv p e, of 6]
  obtain d where "run_events (connector_step DefaultTiming) (connector_start DefaultTiming)
      (concat (replicate 6 [AuthFails (Sentinel ErrDial), Tick (nat (MaxBackoff DefaultTiming)), BackoffElapsed]))
      = Some d" "backoffd d = min (backoffd (connector_start DefaultTiming) * 2 ^ 6) (MaxBackoff DefaultTiming)"
    by blast
  then show ?thesis by (intro exI [of _ d]) (simp add: connector_start_def DefaultTiming_def Second_def)
qed

text \<open>
  The backoff does not cover sessions that are established and lost at once: for every
  \<open>n\<close> the loop can set up and lose \<open>n\<close> sessions, and be connecting again, without any time
  passing.
\<close>

theorem connector_flaps_without_delay:
  "\<exists>c. reaches (connector_step tm) (connector_start tm) c \<and> pc c = Connecting \<and> length (links c) = n
     \<and> now c = 0"
proof (induction n)
  case 0
  show ?case
    by (rule exI [of _ "connector_start tm"]) (simp add: reachable_init connector_start_def)
next
  case (Suc n)
  then obtain c where c: "reaches (connector_step tm) (connector_start tm) c" "pc c = Connecting"
    "length (links c) = n" "now c = 0" by blast
  obtain d where d: "run_events (connector_step tm) c
      [AuthOk, PeerEnds n, MuxWatcher n, LinkWatcher n, LinkDone] = Some d"
    "pc d = Connecting" "length (links d) = Suc n" "now d = 0"
    using c(2,3,4) by (simp add: newLink_def upd_link_def mux_watcher_def link_watcher_def clearIf_def nth_append list_update_append)
  then show ?case using run_events_reachable [OF c(1) d(1)] by blast
qed

text \<open>
  Cancelling the parent context can leave a session open: the link's watcher ends the link
  because its context ended, \<open>serve\<close> may take that branch instead of the one that closes the
  session, and the loop then stops with the parent's error while the mux was never closed.
\<close>

theorem connector_may_leak_session:
  "\<exists>c. reaches (connector_step tm) (connector_start tm) c \<and> pc c = Stopped (Some (Sentinel Canceled))
     \<and> (\<exists>l. links c = [l] \<and> \<not> mux_closed l \<and> \<not> close_called l)"
proof -
  let ?evs = "[AuthOk, ParentCancel (Sentinel Canceled), LinkWatcher 0, LinkDone,
      AuthFails (Errorf ''transport: %w'' [Sentinel ErrDial]), BackoffCancelled]"
  obtain c where c: "run_events (connector_step tm) (connector_start tm) ?evs = Some c"
    "pc c = Stopped (Some (Sentinel Canceled))" "\<exists>l. links c = [l] \<and> \<not> mux_closed l \<and> \<not> close_called l"
    by (simp add: connector_start_def newLink_def upd_link_def link_watcher_def clearIf_def)
  then show ?thesis using run_events_reaches [OF c(1)] by blast
qed

end
