(* ===== verification/Json.thy ===== *)
theory Json
  imports Prelude
begin

text \<open>
  The part of \<open>encoding/json\<close> that \<open>framing.go\<close> applies to the control records: the encoder of
  strings and unsigned numbers, a complete parser of JSON texts, and the assignment of JSON values to
  string and \<open>uint16\<close> struct fields. Texts and Go strings are lists of bytes (\<open>char\<close>), UTF-8 is
  decoded as \<open>unicode/utf8\<close> does.
\<close>

section \<open>UTF-8\<close>

definition cont :: "char \<Rightarrow> bool" where
  "cont c \<longleftrightarrow> 0x80 \<le> code c \<and> code c \<le> 0xBF"

text \<open>The range of the second byte depends on the first one.\<close>

definition second_ok :: "char \<Rightarrow> char \<Rightarrow> bool" where
  "second_ok a b \<longleftrightarrow>
     (if code a = 0xE0 then 0xA0 else if code a = 0xF0 then 0x90 else 0x80) \<le> code b
     \<and> code b \<le> (if code a = 0xED then 0x9F else if code a = 0xF4 then 0x8F else 0xBF)"

text \<open>Length of the code point a text starts with, 0 if its bytes are not valid UTF-8.\<close>

definition rune_len :: "string \<Rightarrow> nat" where
  "rune_len s = (case s of
      [] \<Rightarrow> 0
    | a # t \<Rightarrow>
        if code a < 0x80 then 1
        else if 0xC2 \<le> code a \<and> code a \<le> 0xDF
          then (case t of b # _ \<Rightarrow> if cont b then 2 else 0 | _ \<Rightarrow> 0)
        else if 0xE0 \<le> code a \<and> code a \<le> 0xEF
          then (case t of b # c # _ \<Rightarrow> if second_ok a b \<and> cont c then 3 else 0 | _ \<Rightarrow> 0)
        else if 0xF0 \<le> code a \<and> code a \<le> 0xF4
          then (case t of b # c # d # _ \<Rightarrow> if second_ok a b \<and> cont c \<and> cont d then 4 else 0 | _ \<Rightarrow> 0)
        else 0)"

text \<open>\<open>utf8.EncodeRune\<close> for code points outside the surrogate range.\<close>

definition encode_rune :: "nat \<Rightarrow> string" where
  "encode_rune r =
     (if r < 0x80 then [char_of r]
      else if r < 0x800 then [char_of (0xC0 + r div 64), char_of (0x80 + r mod 64)]
      else if r < 0x10000 then
        [char_of (0xE0 + r div 4096), char_of (0x80 + r div 64 mod 64), char_of (0x80 + r mod 64)]
      else [char_of (0xF0 + r div 262144), char_of (0x80 + r div 4096 mod 64),
            char_of (0x80 + r div 64 mod 64), char_of (0x80 + r mod 64)])"

definition replacement :: string where "replacement = [CHR 0xEF, CHR 0xBF, CHR 0xBD]"

text \<open>Every byte that is not part of a valid sequence replaced by U+FFFD.\<close>

fun to_valid :: "string \<Rightarrow> string" where
  "to_valid [] = []"
| "to_valid (c # cs) =
     (if rune_len (c # cs) = 0 then replacement @ to_valid cs
      else c # take (rune_len (c # cs) - 1) cs @ to_valid (drop (rune_len (c # cs) - 1) cs))"

definition valid_utf8 :: "string \<Rightarrow> bool" where
  "valid_utf8 s \<longleftrightarrow> to_valid s = s"

section \<open>Encoding\<close>

text \<open>One ASCII character inside a string literal, with HTML escaping.\<close>

definition esc_ascii :: "char \<Rightarrow> string" where
  "esc_ascii c =
     (if c = CHR 0x22 \<or> c = CHR 0x5C then [CHR 0x5C, c]
      else if c = CHR 0x08 then [CHR 0x5C, CHR ''b'']
      else if c = CHR 0x0C then [CHR 0x5C, CHR ''f'']
      else if c = CHR 0x0A then [CHR 0x5C, CHR ''n'']
      else if c = CHR 0x0D then [CHR 0x5C, CHR ''r'']
      else if c = CHR 0x09 then [CHR 0x5C, CHR ''t'']
      else if code c < 0x20 \<or> c = CHR ''<'' \<or> c = CHR ''>'' \<or> c = CHR ''&''
        then [CHR 0x5C, CHR ''u'', CHR ''0'', CHR ''0'', hex_digit (code c div 16), hex_digit (code c mod 16)]
      else [c])"

fun escape :: "string \<Rightarrow> string" where
  "escape [] = []"
| "escape (c # cs) =
     (if rune_len (c # cs) = 1 then esc_ascii c @ escape cs
      else if rune_len (c # cs) = 0 then [CHR 0x5C, CHR ''u'', CHR ''f'', CHR ''f'', CHR ''f'', CHR ''d''] @ escape cs
      else if take 3 (c # cs) = [CHR 0xE2, CHR 0x80, CHR 0xA8]
        then [CHR 0x5C, CHR ''u'', CHR ''2'', CHR ''0'', CHR ''2'', CHR ''8''] @ escape (drop 2 cs)
      else if take 3 (c # cs) = [CHR 0xE2, CHR 0x80, CHR 0xA9]
        then [CHR 0x5C, CHR ''u'', CHR ''2'', CHR ''0'', CHR ''2'', CHR ''9''] @ escape (drop 2 cs)
      else c # take (rune_len (c # cs) - 1) cs @ escape (drop (rune_len (c # cs) - 1) cs))"

definition quote :: "string \<Rightarrow> string" where
  "quote s = [CHR 0x22] @ escape s @ [CHR 0x22]"

section \<open>Parsing\<close>

datatype json = JNull | JBool bool | JNum string | JStr string | JArr "json list" | JObj "(string \<times> json) list"

definition is_ws :: "char \<Rightarrow> bool" where
  "is_ws c \<longleftrightarrow> c = CHR 0x20 \<or> c = CHR 0x09 \<or> c = CHR 0x0A \<or> c = CHR 0x0D"

definition skip_ws :: "string \<Rightarrow> string" where "skip_ws s = dropWhile is_ws s"

definition getu4 :: "string \<Rightarrow> nat option" where
  "getu4 s = (case s of
      a # b # c # d # _ \<Rightarrow>
        (case (hex_val a, hex_val b, hex_val c, hex_val d) of
           (Some w, Some x, Some y, Some z) \<Rightarrow> Some (((w * 16 + x) * 16 + y) * 16 + z)
         | _ \<Rightarrow> None)
    | _ \<Rightarrow> None)"

definition simple_esc :: "char \<Rightarrow> char option" where
  "simple_esc e =
     (if e = CHR 0x22 \<or> e = CHR 0x5C \<or> e = CHR ''/'' then Some e
      else if e = CHR ''b'' then Some (CHR 0x08)
      else if e = CHR ''f'' then Some (CHR 0x0C)
      else if e = CHR ''n'' then Some (CHR 0x0A)
      else if e = CHR ''r'' then Some (CHR 0x0D)
      else if e = CHR ''t'' then Some (CHR 0x09)
      else None)"

text \<open>The low half of a surrogate pair, if the text continues with one.\<close>

definition low_surrogate :: "string \<Rightarrow> nat option" where
  "low_surrogate s = (case s of
      x # y # t \<Rightarrow>
        if x = CHR 0x5C \<and> y = CHR ''u'' then
          (case getu4 t of Some r \<Rightarrow> if 0xDC00 \<le> r \<and> r < 0xE000 then Some r else None | None \<Rightarrow> None)
        else None
    | _ \<Rightarrow> None)"

definition cons_str :: "string \<Rightarrow> (string \<times> string) option \<Rightarrow> (string \<times> string) option" where
  "cons_str p r = map_option (\<lambda>(s, rest). (p @ s, rest)) r"

text \<open>The rest of a string literal after its opening quote: its value and what follows it.\<close>

fun parse_str :: "string \<Rightarrow> (string \<times> string) option" where
  "parse_str [] = None"
| "parse_str (c # cs) =
     (if c = CHR 0x22 then Some ([], cs)
      else if c = CHR 0x5C then
        (if cs = [] then None
         else if hd cs = CHR ''u'' then
           (case getu4 (tl cs) of
              None \<Rightarrow> None
            | Some r \<Rightarrow>
                if 0xD800 \<le> r \<and> r < 0xE000 then
                  (case (if r < 0xDC00 then low_surrogate (drop 5 cs) else None) of
                     Some r2 \<Rightarrow> cons_str (encode_rune (0x10000 + (r - 0xD800) * 1024 + (r2 - 0xDC00)))
                                  (parse_str (drop 11 cs))
                   | None \<Rightarrow> cons_str replacement (parse_str (drop 5 cs)))
                else cons_str (encode_rune r) (parse_str (drop 5 cs)))
         else
           (case simple_esc (hd cs) of
              None \<Rightarrow> None
            | Some e \<Rightarrow> cons_str [e] (parse_str (tl cs))))
      else if code c < 0x20 then None
      else if rune_len (c # cs) = 0 then cons_str replacement (parse_str cs)
      else cons_str (c # take (rune_len (c # cs) - 1) cs) (parse_str (drop (rune_len (c # cs) - 1) cs)))"

definition digits1 :: "string \<Rightarrow> (string \<times> string) option" where
  "digits1 s = (if takeWhile is_digit s = [] then None
     else Some (takeWhile is_digit s, dropWhile is_digit s))"

definition parse_frac :: "string \<Rightarrow> (string \<times> string) option" where
  "parse_frac s = (case s of
      c # t \<Rightarrow> if c = CHR ''.'' then cons_str [c] (digits1 t) else Some ([], s)
    | [] \<Rightarrow> Some ([], []))"

definition parse_exp :: "string \<Rightarrow> (string \<times> string) option" where
  "parse_exp s = (case s of
      c # t \<Rightarrow>
        if c = CHR ''e'' \<or> c = CHR ''E'' then
          (case t of
             d # u \<Rightarrow> if d = CHR ''+'' \<or> d = CHR ''-'' then cons_str [c, d] (digits1 u)
                      else cons_str [c] (digits1 t)
           | [] \<Rightarrow> None)
        else Some ([], s)
    | [] \<Rightarrow> Some ([], []))"

text \<open>An integer part is a single 0 or starts with another digit.\<close>

definition parse_int :: "string \<Rightarrow> (string \<times> string) option" where
  "parse_int s = (case s of
      c # t \<Rightarrow> if c = CHR ''0'' then Some ([c], t) else digits1 s
    | [] \<Rightarrow> None)"

definition then_str :: "(string \<times> string) option \<Rightarrow> (string \<Rightarrow> (string \<times> string) option) \<Rightarrow> (string \<times> string) option" where
  "then_str r f = (case r of None \<Rightarrow> None | Some (a, rest) \<Rightarrow> cons_str a (f rest))"

definition parse_num :: "string \<Rightarrow> (string \<times> string) option" where
  "parse_num s =
     (let body = (\<lambda>t. then_str (parse_int t) (\<lambda>u. then_str (parse_frac u) parse_exp)) in
      case s of
        c # t \<Rightarrow> if c = CHR ''-'' then cons_str [c] (body t) else body s
      | [] \<Rightarrow> None)"

definition strip_prefix :: "string \<Rightarrow> string \<Rightarrow> string option" where
  "strip_prefix p s = (if take (length p) s = p then Some (drop (length p) s) else None)"

text \<open>
  Values, object members after \<open>{\<close> or a comma, array elements after \<open>[\<close> or a comma. The first
  argument bounds the number of nested calls; \<open>parse_json\<close> passes more than the text's length,
  and every call consumes at least one character.
\<close>

fun parse_value :: "nat \<Rightarrow> string \<Rightarrow> (json \<times> string) option"
and parse_members :: "nat \<Rightarrow> string \<Rightarrow> ((string \<times> json) list \<times> string) option"
and parse_elems :: "nat \<Rightarrow> string \<Rightarrow> (json list \<times> string) option" where
  "parse_value 0 s = None"
| "parse_value (Suc n) s = (case s of
      [] \<Rightarrow> None
    | c # t \<Rightarrow>
        if c = CHR 0x22 then map_option (\<lambda>(v, r). (JStr v, r)) (parse_str t)
        else if c = CHR ''{'' then
          (case skip_ws t of
             d # u \<Rightarrow> if d = CHR ''}'' then Some (JObj [], u)
                      else map_option (\<lambda>(ms, r). (JObj ms, r)) (parse_members n (d # u))
           | [] \<Rightarrow> None)
        else if c = CHR ''['' then
          (case skip_ws t of
             d # u \<Rightarrow> if d = CHR '']'' then Some (JArr [], u)
                      else map_option (\<lambda>(vs, r). (JArr vs, r)) (parse_elems n (d # u))
           | [] \<Rightarrow> None)
        else if c = CHR ''t'' then map_option (\<lambda>r. (JBool True, r)) (strip_prefix ''true'' s)
        else if c = CHR ''f'' then map_option (\<lambda>r. (JBool False, r)) (strip_prefix ''false'' s)
        else if c = CHR ''n'' then map_option (\<lambda>r. (JNull, r)) (strip_prefix ''null'' s)
        else map_option (\<lambda>(v, r). (JNum v, r)) (parse_num s))"
| "parse_members 0 s = None"
| "parse_members (Suc n) s = (case s of
      [] \<Rightarrow> None
    | c # t \<Rightarrow>
        if c \<noteq> CHR 0x22 then None
        else case parse_str t of
          None \<Rightarrow> None
        | Some (k, r) \<Rightarrow>
            (case skip_ws r of
               [] \<Rightarrow> None
             | d # u \<Rightarrow>
                 if d \<noteq> CHR '':'' then None
                 else case parse_value n (skip_ws u) of
                   None \<Rightarrow> None
                 | Some (v, r2) \<Rightarrow>
                     (case skip_ws r2 of
                        [] \<Rightarrow> None
                      | e # w \<Rightarrow>
                          if e = CHR ''}'' then Some ([(k, v)], w)
                          else if e = CHR '','' then
                            map_option (\<lambda>(ms, r3). ((k, v) # ms, r3)) (parse_members n (skip_ws w))
                          else None)))"
| "parse_elems 0 s = None"
| "parse_elems (Suc n) s = (case parse_value n s of
      None \<Rightarrow> None
    | Some (v, r) \<Rightarrow>
        (case skip_ws r of
           [] \<Rightarrow> None
         | e # w \<Rightarrow>
             if e = CHR '']'' then Some ([v], w)
             else if e = CHR '','' then
               map_option (\<lambda>(vs, r3). (v # vs, r3)) (parse_elems n (skip_ws w))
             else None))"

definition parse_json :: "string \<Rightarrow> json option" where
  "parse_json s = (case parse_value (2 * length s + 2) (skip_ws s) of
      Some (v, r) \<Rightarrow> if skip_ws r = [] then Some v else None
    | None \<Rightarrow> None)"

section \<open>Struct fields\<close>

text \<open>
  Field names are compared after case folding; among the non-ASCII letters only U+017F and U+212A
  fold to an ASCII letter.
\<close>

fun fold_name :: "string \<Rightarrow> string" where
  "fold_name [] = []"
| "fold_name (c # cs) =
     (if 97 \<le> code c \<and> code c \<le> 122 then char_of (code c - 32) # fold_name cs
      else if take 2 (c # cs) = [CHR 0xC5, CHR 0xBF] then CHR ''S'' # fold_name (drop 1 cs)
      else if take 3 (c # cs) = [CHR 0xE2, CHR 0x84, CHR 0xAA] then CHR ''K'' # fold_name (drop 2 cs)
      else c # fold_name cs)"

definition field_is :: "string \<Rightarrow> string \<Rightarrow> bool" where
  "field_is name k \<longleftrightarrow> k = name \<or> fold_name k = fold_name name"

definition UnmarshalTypeError :: gerr where "UnmarshalTypeError = Sentinel (Env ''json: cannot unmarshal'')"

definition SyntaxError :: gerr where "SyntaxError = Sentinel (Env ''json: invalid syntax'')"

definition parse_uint :: "string \<Rightarrow> nat" where
  "parse_uint s = foldl (\<lambda>n c. n * 10 + (code c - 48)) 0 s"

text \<open>\<open>strconv.ParseUint\<close> and the overflow check of a 16-bit field.\<close>

definition store_uint16 :: "json \<Rightarrow> 16 word \<Rightarrow> 16 word result" where
  "store_uint16 v old = (case v of
      JNull \<Rightarrow> Inr old
    | JNum s \<Rightarrow> if list_all is_digit s \<and> parse_uint s < 2 ^ 16 then Inr (of_nat (parse_uint s))
                else Inl UnmarshalTypeError
    | _ \<Rightarrow> Inl UnmarshalTypeError)"

definition store_string :: "json \<Rightarrow> string \<Rightarrow> string result" where
  "store_string v old = (case v of
      JNull \<Rightarrow> Inr old | JStr s \<Rightarrow> Inr s | _ \<Rightarrow> Inl UnmarshalTypeError)"

text \<open>
  A JSON object is stored member by member; a value of the wrong kind makes the whole call fail.
  The text \<open>null\<close> leaves the record as it is.
\<close>

fun store_members :: "('r \<Rightarrow> string \<Rightarrow> json \<Rightarrow> 'r result) \<Rightarrow> 'r \<Rightarrow> (string \<times> json) list \<Rightarrow> 'r result" where
  "store_members f r [] = Inr r"
| "store_members f r ((k, v) # ms) = (case f r k v of Inl e \<Rightarrow> Inl e | Inr r' \<Rightarrow> store_members f r' ms)"

definition json_unmarshal :: "('r \<Rightarrow> string \<Rightarrow> json \<Rightarrow> 'r result) \<Rightarrow> 'r \<Rightarrow> bytes \<Rightarrow> 'r result" where
  "json_unmarshal f zero data = (case parse_json (string_of_bytes data) of
      None \<Rightarrow> Inl SyntaxError
    | Some JNull \<Rightarrow> Inr zero
    | Some (JObj ms) \<Rightarrow> store_members f zero ms
    | Some _ \<Rightarrow> Inl UnmarshalTypeError)"

section \<open>Struct encoding\<close>

text \<open>
  The text \<open>json.Marshal\<close> produces for a struct whose fields are unsigned integers and strings:
  its members in declaration order without white space.
\<close>

datatype field = FUint nat | FStr string

fun field_text :: "field \<Rightarrow> string" where
  "field_text (FUint n) = show_nat n"
| "field_text (FStr s) = quote s"

fun field_value :: "field \<Rightarrow> json" where
  "field_value (FUint n) = JNum (show_nat n)"
| "field_value (FStr s) = JStr (to_valid s)"

fun members_text :: "(string \<times> field) list \<Rightarrow> string" where
  "members_text [] = ''}''"
| "members_text [(k, f)] = quote k @ '':'' @ field_text f @ ''}''"
| "members_text ((k, f) # fs) = quote k @ '':'' @ field_text f @ '','' @ members_text fs"

definition encode_object :: "(string \<times> field) list \<Rightarrow> string" where
  "encode_object fs = ''{'' @ members_text fs"

text \<open>What may follow a number in an encoded object.\<close>

definition ends_number :: "string \<Rightarrow> bool" where
  "ends_number s \<longleftrightarrow> s = [] \<or> \<not> is_digit (hd s) \<and> hd s \<notin> {CHR ''.'', CHR ''e'', CHR ''E''}"

section \<open>A string literal read back\<close>

lemma cons_str_Some [simp]: "cons_str p (Some (s, r)) = Some (p @ s, r)"
  by (simp add: cons_str_def)

lemma cons_str_None [simp]: "cons_str p None = None"
  by (simp add: cons_str_def)

lemma cons_str_eq_Some: "cons_str p x = Some (s, r) \<longleftrightarrow> (\<exists>t. x = Some (t, r) \<and> s = p @ t)"
  by (cases x) auto

lemma rune_len_shape:
  "rune_len (a # u) =
     (if code a < 0x80 then 1
      else if 0xC2 \<le> code a \<and> code a \<le> 0xDF then (if 1 \<le> length u \<and> cont (u ! 0) then 2 else 0)
      else if 0xE0 \<le> code a \<and> code a \<le> 0xEF
        then (if 2 \<le> length u \<and> second_ok a (u ! 0) \<and> cont (u ! 1) then 3 else 0)
      else if 0xF0 \<le> code a \<and> code a \<le> 0xF4
        then (if 3 \<le> length u \<and> second_ok a (u ! 0) \<and> cont (u ! 1) \<and> cont (u ! 2) then 4 else 0)
      else 0)"
  by (cases u; cases "tl u"; cases "tl (tl u)") (simp_all add: rune_len_def)

lemma rune_len_prefix:
  assumes "rune_len s = n" and "0 < n"
  shows "rune_len (take n s @ t) = n" and "n \<le> length s"
proof -
  obtain a u where s: "s = a # u" using assms by (cases s) (auto simp: rune_len_def)
  show "n \<le> length s" using assms unfolding s rune_len_shape by (simp split: if_splits)
  then have "length (take (n - 1) u @ t) \<ge> n - 1" "\<And>i. i < n - 1 \<Longrightarrow> (take (n - 1) u @ t) ! i = u ! i"
    using s by (simp_all add: nth_append)
  moreover have "take n s @ t = a # (take (n - 1) u @ t)" using s assms(2) by (cases n) simp_all
  ultimately show "rune_len (take n s @ t) = n"
    using assms unfolding s by (simp add: rune_len_shape split: if_splits)
qed

lemma rune_len_one: "rune_len (c # cs) = 1 \<longleftrightarrow> code c < 128"
  by (auto simp: rune_len_def split: list.splits)

lemma rune_len_high: "rune_len (c # cs) \<noteq> 1 \<Longrightarrow> 128 \<le> code c"
  using rune_len_one [of c cs] by simp

lemma parse_str_u00:
  assumes "code c < 128"
  shows "parse_str ([CHR 0x5C, CHR ''u'', CHR ''0'', CHR ''0'', hex_digit (code c div 16), hex_digit (code c mod 16)] @ t)
       = cons_str [c] (parse_str t)"
proof -
  have "hex_val (CHR ''0'') = Some 0" by code_simp
  moreover have "code c div 16 < 16" using assms by linarith
  ultimately have "getu4 ([CHR ''0'', CHR ''0'', hex_digit (code c div 16), hex_digit (code c mod 16)] @ t) = Some (code c)"
    by (simp add: getu4_def hex_val_hex_digit)
  then show ?thesis using assms by (simp add: encode_rune_def)
qed

lemma parse_str_esc_ascii:
  assumes "code c < 128"
  shows "parse_str (esc_ascii c @ t) = cons_str [c] (parse_str t)"
  using parse_str_u00 [OF assms, of t] assms rune_len_one [of c t]
  by (simp add: esc_ascii_def simple_esc_def)

lemma parse_str_u4:
  "getu4 ([a, b, c, d] @ t) = Some r \<Longrightarrow> r < 0xD800 \<or> 0xE000 \<le> r \<Longrightarrow>
   parse_str ([CHR 0x5C, CHR ''u'', a, b, c, d] @ t) = cons_str (encode_rune r) (parse_str t)"
  by auto

lemma parse_str_raw:
  assumes "rune_len (c # cs) = n" and "1 < n"
  shows "parse_str (c # take (n - 1) cs @ t) = cons_str (c # take (n - 1) cs) (parse_str t)"
proof -
  have l: "rune_len (c # take (n - 1) cs @ t) = n" "n - 1 \<le> length cs"
    using rune_len_prefix(1) [of "c # cs" n t] rune_len_prefix(2) [of "c # cs" n] assms by (cases n; simp)+
  moreover have "128 \<le> code c" using assms rune_len_high [of c cs] by simp
  moreover from this have "c \<noteq> CHR 0x22" "c \<noteq> CHR 0x5C" by auto
  ultimately show ?thesis using assms by simp
qed

declare parse_str.simps(2) [simp del]

lemma parse_str_escape: "parse_str (escape s @ CHR 0x22 # rest) = Some (to_valid s, rest)"
proof (induction s rule: escape.induct)
  case (2 c cs)
  let ?q = "CHR 0x22 # rest"
  consider (ascii) "rune_len (c # cs) = 1" | (bad) "rune_len (c # cs) = 0"
    | (l) "1 < rune_len (c # cs)" "take 3 (c # cs) = [CHR 0xE2, CHR 0x80, CHR 0xA8]"
    | (p) "1 < rune_len (c # cs)" "take 3 (c # cs) = [CHR 0xE2, CHR 0x80, CHR 0xA9]"
    | (raw) "1 < rune_len (c # cs)" "take 3 (c # cs) \<noteq> [CHR 0xE2, CHR 0x80, CHR 0xA8]"
        "take 3 (c # cs) \<noteq> [CHR 0xE2, CHR 0x80, CHR 0xA9]"
    by fastforce
  then show ?case
  proof cases
    case ascii
    then have "code c < 128" by (simp only: rune_len_one)
    then show ?thesis using 2(1) ascii parse_str_esc_ascii [of c "escape cs @ ?q"] by simp
  next
    case bad
    have "getu4 (''fffd'' @ escape cs @ ?q) = Some 0xfffd" by (simp add: getu4_def hex_val_def is_digit_def)
    moreover have "encode_rune 0xfffd = replacement" by (simp add: encode_rune_def replacement_def char_of_def bit_Suc_0_iff)
    ultimately show ?thesis using 2(2) bad parse_str_u4 [of _ _ _ _ "escape cs @ ?q"] by simp
  next
    case l
    then obtain ds where cs: "c = CHR 0xE2" "cs = CHR 0x80 # CHR 0xA8 # ds"
      by (cases cs; cases "tl cs"; simp)
    have "getu4 (''2028'' @ escape ds @ ?q) = Some 0x2028" by (simp add: getu4_def hex_val_def is_digit_def)
    moreover have "encode_rune 0x2028 = [CHR 0xE2, CHR 0x80, CHR 0xA8]" by (simp add: encode_rune_def replacement_def char_of_def bit_Suc_0_iff)
    moreover have "rune_len (c # cs) = 3" by (simp add: cs rune_len_def second_ok_def cont_def)
    ultimately show ?thesis using 2(3) cs parse_str_u4 [of _ _ _ _ "escape ds @ ?q"] by simp
  next
    case p
    then obtain ds where cs: "c = CHR 0xE2" "cs = CHR 0x80 # CHR 0xA9 # ds"
      by (cases cs; cases "tl cs"; simp)
    have "getu4 (''2029'' @ escape ds @ ?q) = Some 0x2029" by (simp add: getu4_def hex_val_def is_digit_def)
    moreover have "encode_rune 0x2029 = [CHR 0xE2, CHR 0x80, CHR 0xA9]" by (simp add: encode_rune_def replacement_def char_of_def bit_Suc_0_iff)
    moreover have "rune_len (c # cs) = 3" by (simp add: cs rune_len_def second_ok_def cont_def)
    ultimately show ?thesis using 2(4) cs parse_str_u4 [of _ _ _ _ "escape ds @ ?q"] by simp
  next
    case raw
    then show ?thesis using 2(5) parse_str_raw [of c cs "rune_len (c # cs)" "escape (drop (rune_len (c # cs) - 1) cs) @ ?q"] by auto
  qed
qed (simp add: parse_str.simps)

section \<open>A number read back\<close>

lemma parse_uint_snoc: "parse_uint (s @ [c]) = parse_uint s * 10 + (code c - 48)"
  by (simp add: parse_uint_def)

lemma parse_uint_show_nat: "parse_uint (show_nat n) = n"
proof (induction n rule: show_nat.induct)
  case (1 n)
  show ?case
  proof (cases "n < 10")
    case True
    then show ?thesis by (subst show_nat.simps) (simp add: parse_uint_def)
  next
    case False
    then show ?thesis using 1 by (subst show_nat.simps) (simp add: parse_uint_snoc)
  qed
qed

lemma show_nat_zero: "show_nat 0 = ''0''"
  by (subst show_nat.simps) (simp add: char_of_def bit_Suc_0_iff)

lemma show_nat_leading: "n \<noteq> 0 \<Longrightarrow> hd (show_nat n) \<noteq> CHR ''0''"
proof (induction n rule: show_nat.induct)
  case (1 n)
  have "char_of (48 + n) \<noteq> CHR ''0''" if "n < 10"
  proof
    assume "char_of (48 + n) = CHR ''0''"
    then have "code (char_of (48 + n)) = code (CHR ''0'')" by simp
    then show False using that 1(2) by simp
  qed
  then show ?case using 1 show_nat_digits [of "n div 10"]
    by (subst show_nat.simps) auto
qed

lemma parse_num_show_nat:
  assumes "ends_number rest"
  shows "parse_num (show_nat n @ rest) = Some (show_nat n, rest)"
proof -
  obtain c t where ct: "show_nat n = c # t" using show_nat_digits [of n] by (cases "show_nat n") auto
  have d: "list_all is_digit (c # t)" using show_nat_digits [of n] ct by simp
  have tw: "takeWhile is_digit (c # t @ rest) = c # t" "dropWhile is_digit (c # t @ rest) = rest"
    using d assms takeWhile_append2 [of "c # t" is_digit rest] dropWhile_append2 [of "c # t" is_digit rest]
    by (cases rest; simp add: ends_number_def list_all_iff)+
  have "parse_int (c # t @ rest) = Some (c # t, rest)"
  proof (cases "n = 0")
    case True
    then show ?thesis using ct show_nat_zero by (simp add: parse_int_def)
  next
    case False
    then have "c \<noteq> CHR ''0''" using show_nat_leading [of n] ct by simp
    then show ?thesis using tw by (simp add: parse_int_def digits1_def)
  qed
  moreover have "parse_frac rest = Some ([], rest)" "parse_exp rest = Some ([], rest)"
    using assms by (cases rest; simp add: parse_frac_def parse_exp_def ends_number_def)+
  moreover have "c \<noteq> CHR ''-''" using d by (auto simp: is_digit_def)
  ultimately show ?thesis using ct by (simp add: parse_num_def then_str_def Let_def)
qed

lemma store_uint16_show: "store_uint16 (JNum (show_nat (unat w))) old = Inr w"
proof -
  have "unat w < 2 ^ LENGTH(16)" by (rule unsigned_less)
  then show ?thesis using show_nat_digits [of "unat w"] by (simp add: store_uint16_def parse_uint_show_nat)
qed

section \<open>The parser's fuel is enough\<close>

lemma skip_ws_length: "length (skip_ws s) \<le> length s"
  by (simp add: skip_ws_def length_dropWhile_le)

lemma skip_ws_Cons: "skip_ws s = c # t \<Longrightarrow> length t < length s"
  using skip_ws_length [of s] by simp

lemma parse_str_rest:
  assumes "parse_str (c # cs) = Some (v, r)"
  shows "r = cs \<or> (\<exists>k t. parse_str (drop k cs) = Some (t, r))"
proof -
  have "r = cs \<or> (\<exists>t. parse_str (drop 0 cs) = Some (t, r)) \<or> (\<exists>t. parse_str (drop 1 cs) = Some (t, r))
    \<or> (\<exists>k t. parse_str (drop k cs) = Some (t, r))"
    using assms by (simp add: parse_str.simps(2) cons_str_eq_Some drop_Suc split: if_splits option.splits) blast+
  then show ?thesis by blast
qed

lemma parse_str_length: "parse_str s = Some (v, r) \<Longrightarrow> length r < length s"
proof (induction s arbitrary: v rule: length_induct)
  case (1 s)
  then obtain c cs where s: "s = c # cs" by (cases s) auto
  then consider "r = cs" | k t where "parse_str (drop k cs) = Some (t, r)"
    using parse_str_rest 1(2) by blast
  then show ?case
  proof cases
    case 2
    then have "length r < length (drop k cs)" using 1(1) s by (metis length_drop diff_le_self le_imp_less_Suc length_Cons)
    then show ?thesis using s by simp
  qed (simp add: s)
qed

lemma digits1_length: "digits1 s = Some (v, r) \<Longrightarrow> length r < length s"
  using length_dropWhile_le [of is_digit s] dropWhile_eq_self_iff [of is_digit s]
  by (cases s) (auto simp: digits1_def split: if_splits intro: le_imp_less_Suc length_dropWhile_le)

lemma parse_int_length: "parse_int s = Some (v, r) \<Longrightarrow> length r < length s"
  by (auto simp: parse_int_def split: list.splits if_splits dest: digits1_length)

lemma parse_frac_length: "parse_frac s = Some (v, r) \<Longrightarrow> length r \<le> length s"
  by (auto simp: parse_frac_def cons_str_eq_Some split: list.splits if_splits dest: digits1_length)

lemma parse_exp_length: "parse_exp s = Some (v, r) \<Longrightarrow> length r \<le> length s"
  by (auto simp: parse_exp_def cons_str_eq_Some split: list.splits if_splits dest!: digits1_length)

lemma parse_num_length: "parse_num s = Some (v, r) \<Longrightarrow> length r < length s"
  by (auto simp: parse_num_def then_str_def cons_str_eq_Some Let_def split: list.splits if_splits option.splits
    dest!: parse_int_length parse_frac_length parse_exp_length)

lemma strip_prefix_length: "strip_prefix p s = Some r \<Longrightarrow> p \<noteq> [] \<Longrightarrow> s \<noteq> [] \<Longrightarrow> length r < length s"
  by (auto simp: strip_prefix_def split: if_splits)

lemmas parse_lengths = parse_str_length parse_num_length strip_prefix_length skip_ws_Cons

lemma parse_length:
  "(parse_value n s = Some (v, r) \<longrightarrow> length r < length s)
   \<and> (parse_members n s = Some (ms, r) \<longrightarrow> length r < length s)
   \<and> (parse_elems n s = Some (vs, r) \<longrightarrow> length r < length s)"
proof (induction n arbitrary: s v ms vs r)
  case (Suc n)
  then have ih: "\<And>s v r. parse_value n s = Some (v, r) \<Longrightarrow> length r < length s"
    "\<And>s ms r. parse_members n s = Some (ms, r) \<Longrightarrow> length r < length s"
    "\<And>s vs r. parse_elems n s = Some (vs, r) \<Longrightarrow> length r < length s" by blast+
  show ?case
  proof (intro conjI impI)
    assume "parse_value (Suc n) s = Some (v, r)"
    then show "length r < length s"
      by (auto split: list.splits if_splits dest!: ih parse_lengths)
  next
    assume "parse_members (Suc n) s = Some (ms, r)"
    then show "length r < length s" using skip_ws_length
      by (auto split: list.splits if_splits option.splits dest!: ih parse_lengths)
         (meson less_trans less_le_trans le_less_trans less_SucI)+
  next
    assume "parse_elems (Suc n) s = Some (vs, r)"
    then show "length r < length s" using skip_ws_length
      by (auto split: list.splits if_splits option.splits dest!: ih parse_lengths)
         (meson less_trans less_le_trans le_less_trans less_SucI)+
  qed
qed simp

lemma parse_members_fuel:
  assumes v: "\<And>s. 2 * length s < n \<Longrightarrow> parse_value m s = parse_value n s"
    and ms: "\<And>s. 2 * length s < n \<Longrightarrow> parse_members m s = parse_members n s"
    and len: "2 * length s < Suc n"
  shows "parse_members (Suc m) s = parse_members (Suc n) s"
proof -
  { fix c t k r d u
    assume s: "s = c # t" and p: "parse_str t = Some (k, r)" and d: "skip_ws r = d # u"
    have u: "2 * length (skip_ws u) < n"
      using s len parse_str_length [OF p] skip_ws_Cons [OF d] skip_ws_length [of u] by simp
    { fix w r2 e x
      assume q: "parse_value n (skip_ws u) = Some (w, r2)" and e: "skip_ws r2 = e # x"
      have "length r2 < length (skip_ws u)" using q parse_length [of n "skip_ws u" w r2] by simp
      then have "2 * length (skip_ws x) < n" using u skip_ws_Cons [OF e] skip_ws_length [of x] by simp }
    note this u }
  then show ?thesis using v ms by (auto split: list.split option.split)
qed

lemma parse_elems_fuel:
  assumes v: "\<And>s. 2 * length s < n \<Longrightarrow> parse_value m s = parse_value n s"
    and es: "\<And>s. 2 * length s + 1 < n \<Longrightarrow> parse_elems m s = parse_elems n s"
    and len: "2 * length s + 1 < Suc n"
  shows "parse_elems (Suc m) s = parse_elems (Suc n) s"
proof -
  { fix w r e x
    assume q: "parse_value n s = Some (w, r)" and e: "skip_ws r = e # x"
    have "length r < length s" using q parse_length [of n s w r] by simp
    then have "2 * length (skip_ws x) + 1 < n" using len skip_ws_Cons [OF e] skip_ws_length [of x] by simp }
  moreover have "parse_value m s = parse_value n s" using len by (intro v) simp
  ultimately show ?thesis using es by (auto split: list.split option.split)
qed

lemma parse_value_fuel:
  assumes ms: "\<And>s. 2 * length s < n \<Longrightarrow> parse_members m s = parse_members n s"
    and es: "\<And>s. 2 * length s + 1 < n \<Longrightarrow> parse_elems m s = parse_elems n s"
    and len: "2 * length s < Suc n"
  shows "parse_value (Suc m) s = parse_value (Suc n) s"
proof -
  { fix c t d u
    assume "s = c # t" and d: "skip_ws t = d # u"
    then have "2 * length (d # u) + 1 < n" "2 * length (d # u) < n" using len skip_ws_length [of t] by simp_all }
  then show ?thesis using ms es by (auto split: list.split)
qed

lemma parse_fuel:
  "(2 * length s < n \<longrightarrow> parse_value (Suc n) s = parse_value n s)
   \<and> (2 * length s < n \<longrightarrow> parse_members (Suc n) s = parse_members n s)
   \<and> (2 * length s + 1 < n \<longrightarrow> parse_elems (Suc n) s = parse_elems n s)"
proof (induction n arbitrary: s)
  case (Suc n)
  show ?case
    using parse_value_fuel [of n "Suc n" s] parse_members_fuel [of n "Suc n" s] parse_elems_fuel [of n "Suc n" s]
      Suc.IH by blast
qed simp

text \<open>More fuel than \<open>parse_json\<close> provides never changes its answer.\<close>

lemma parse_json_fuel: "2 * length s + 2 \<le> n \<Longrightarrow> parse_value n (skip_ws s) = parse_value (2 * length s + 2) (skip_ws s)"
proof (induction n rule: dec_induct)
  case (step n)
  then show ?case using parse_fuel [of "skip_ws s" n] skip_ws_length [of s] by simp
qed simp

section \<open>An encoded struct read back\<close>

lemma skip_ws_self: "\<not> is_ws c \<Longrightarrow> skip_ws (c # s) = c # s"
  by (simp add: skip_ws_def)

lemma digit_facts:
  "is_digit c \<Longrightarrow> \<not> is_ws c \<and> c \<notin> {CHR 0x22, CHR ''{'', CHR ''['', CHR ''t'', CHR ''f'', CHR ''n''}"
  by (auto simp: is_digit_def is_ws_def)

lemma field_text_parse:
  assumes "ends_number rest"
  shows "parse_value (Suc n) (field_text f @ rest) = Some (field_value f, rest)
       \<and> skip_ws (field_text f @ rest) = field_text f @ rest"
proof (cases f)
  case (FUint k)
  obtain c t where ct: "show_nat k = c # t" using show_nat_digits [of k] by (cases "show_nat k") auto
  then have "is_digit c" using show_nat_digits [of k] by simp
  then show ?thesis using digit_facts [of c] parse_num_show_nat [OF assms, of k] FUint ct
    by (simp add: skip_ws_self)
next
  case (FStr s)
  then show ?thesis using parse_str_escape [of s rest] by (simp add: quote_def skip_ws_self is_ws_def)
qed

lemma ends_number_sep [simp]: "ends_number (CHR '','' # s)" "ends_number (CHR ''}'' # s)"
  by (simp_all add: ends_number_def is_digit_def)

lemma members_text_quote: "fs \<noteq> [] \<Longrightarrow> \<exists>u. members_text fs = CHR 0x22 # u"
  by (induction fs rule: members_text.induct) (auto simp: quote_def)

lemma parse_members_text:
  "fs \<noteq> [] \<Longrightarrow> length fs < n \<Longrightarrow>
   parse_members n (members_text fs @ rest) = Some (map (\<lambda>(k, f). (to_valid k, field_value f)) fs, rest)"
proof (induction fs arbitrary: n rule: members_text.induct)
  case (2 k f)
  then obtain m where n: "n = Suc (Suc m)" by (cases n; cases "n - 1") auto
  show ?case
    using field_text_parse [of "CHR ''}'' # rest" m f] parse_str_escape [of k "CHR '':'' # field_text f @ CHR ''}'' # rest"]
    by (simp add: n quote_def skip_ws_self is_ws_def del: parse_value.simps)
next
  case (3 k f g fs)
  then obtain m where n: "n = Suc (Suc m)" by (cases n; cases "n - 1") auto
  let ?rest = "members_text (g # fs) @ rest"
  obtain u where u: "members_text (g # fs) = CHR 0x22 # u" using members_text_quote by blast
  then have "skip_ws ?rest = ?rest" by (simp add: skip_ws_self is_ws_def)
  moreover have "parse_members (Suc m) ?rest = Some (map (\<lambda>(k, f). (to_valid k, field_value f)) (g # fs), rest)"
    using 3(1) [of "Suc m"] 3(3) n by (simp del: parse_members.simps)
  ultimately show ?case
    using field_text_parse [of "CHR '','' # ?rest" m f] parse_str_escape [of k "CHR '':'' # field_text f @ CHR '','' # ?rest"]
    by (simp add: n quote_def skip_ws_self is_ws_def parse_members.simps(2) [of "Suc m"] del: parse_value.simps parse_members.simps)
qed simp

lemma members_text_length: "length fs < length (members_text fs)"
  by (induction fs rule: members_text.induct) (simp_all add: quote_def)

lemma parse_json_encode:
  assumes "fs \<noteq> []"
  shows "parse_json (encode_object fs) = Some (JObj (map (\<lambda>(k, f). (to_valid k, field_value f)) fs))"
proof -
  obtain u where u: "members_text fs = CHR 0x22 # u" using assms members_text_quote by blast
  have "parse_members (2 * length (encode_object fs) + 1) (members_text fs @ [])
      = Some (map (\<lambda>(k, f). (to_valid k, field_value f)) fs, [])"
    using assms members_text_length [of fs] by (intro parse_members_text) (simp_all add: encode_object_def)
  then show ?thesis using u
    by (simp add: parse_json_def encode_object_def skip_ws_self is_ws_def del: parse_members.simps)
      (simp add: skip_ws_def)
qed

end
