(* ===== verification/Records.thy ===== *)
theory Records
  imports Config Framing Json
begin

text \<open>
  \<open>src/internal/transport/records.go\<close>: the hello and response records, their validation, their
  JSON encoding as \<open>framing.go\<close> puts them on the wire, and the session handle. The interface
  \<open>json_codec\<close> states what \<open>readJSON\<close> and \<open>writeJSON\<close> need of a record type.
\<close>

section \<open>Records\<close>

definition helloVersion :: "16 word" where "helloVersion = 1"

record Hello =
  hVersion :: "16 word"
  hRole :: Mode
  hToken :: string

type_synonym Status = string

definition statusOK :: Status where "statusOK = ''ok''"
definition statusError :: Status where "statusError = ''error''"

record Response =
  rVersion :: "16 word"
  rStatus :: Status
  rSessionID :: string
  rErrorCode :: string

definition validateHello :: "Hello \<Rightarrow> gerr option" where
  "validateHello h =
     (if hVersion h \<noteq> helloVersion then Some (Errorf ''%w: %d'' [Sentinel ErrProtocolVersion])
      else if hRole h = ModeExit \<or> hRole h = ModeProxy then None
      else Some (Errorf ''%w: %q'' [Sentinel ErrUnexpectedRole]))"

definition validateResponse :: "Response \<Rightarrow> gerr option" where
  "validateResponse r =
     (if rVersion r \<noteq> helloVersion then Some (Errorf ''%w: %d'' [Sentinel ErrProtocolVersion])
      else if rStatus r = statusOK \<or> rStatus r = statusError then None
      else Some (Errorf ''%w: %q'' [Sentinel ErrUnexpectedStatus]))"

text \<open>
  \<open>hex.EncodeToString\<close> of 16 random bytes; \<open>None\<close> is the panic when the random source fails.
\<close>

definition hex_byte :: "byte \<Rightarrow> string" where
  "hex_byte b = [hex_digit (unat b div 16), hex_digit (unat b mod 16)]"

definition newSessionID :: "bytes result \<Rightarrow> string option" where
  "newSessionID rnd = (case rnd of Inl _ \<Rightarrow> None | Inr b \<Rightarrow> Some (concat (map hex_byte (take 16 b))))"

section \<open>JSON form\<close>

text \<open>The member names are the struct tags; two members of a response are \<open>omitempty\<close>.\<close>

definition marshal_hello :: "Hello \<Rightarrow> bytes result" where
  "marshal_hello h = Inr (bytes_of_string (encode_object
     [(''version'', FUint (unat (hVersion h))), (''role'', FStr (hRole h)), (''token'', FStr (hToken h))]))"

definition omitempty :: "string \<Rightarrow> string \<Rightarrow> (string \<times> field) list" where
  "omitempty k s = (if s = [] then [] else [(k, FStr s)])"

definition marshal_response :: "Response \<Rightarrow> bytes result" where
  "marshal_response r = Inr (bytes_of_string (encode_object
     ([(''version'', FUint (unat (rVersion r))), (''status'', FStr (rStatus r))]
      @ omitempty ''session_id'' (rSessionID r) @ omitempty ''error_code'' (rErrorCode r))))"

definition store_hello :: "Hello \<Rightarrow> string \<Rightarrow> json \<Rightarrow> Hello result" where
  "store_hello h k v =
     (if field_is ''version'' k then map_sum id (\<lambda>x. h\<lparr>hVersion := x\<rparr>) (store_uint16 v (hVersion h))
      else if field_is ''role'' k then map_sum id (\<lambda>x. h\<lparr>hRole := x\<rparr>) (store_string v (hRole h))
      else if field_is ''token'' k then map_sum id (\<lambda>x. h\<lparr>hToken := x\<rparr>) (store_string v (hToken h))
      else Inr h)"

definition store_response :: "Response \<Rightarrow> string \<Rightarrow> json \<Rightarrow> Response result" where
  "store_response r k v =
     (if field_is ''version'' k then map_sum id (\<lambda>x. r\<lparr>rVersion := x\<rparr>) (store_uint16 v (rVersion r))
      else if field_is ''status'' k then map_sum id (\<lambda>x. r\<lparr>rStatus := x\<rparr>) (store_string v (rStatus r))
      else if field_is ''session_id'' k then map_sum id (\<lambda>x. r\<lparr>rSessionID := x\<rparr>) (store_string v (rSessionID r))
      else if field_is ''error_code'' k then map_sum id (\<lambda>x. r\<lparr>rErrorCode := x\<rparr>) (store_string v (rErrorCode r))
      else Inr r)"

definition zeroHello :: Hello where "zeroHello = \<lparr>hVersion = 0, hRole = [], hToken = []\<rparr>"

definition zeroResponse :: Response where
  "zeroResponse = \<lparr>rVersion = 0, rStatus = [], rSessionID = [], rErrorCode = []\<rparr>"

definition unmarshal_hello :: "bytes \<Rightarrow> Hello result" where
  "unmarshal_hello = json_unmarshal store_hello zeroHello"

definition unmarshal_response :: "bytes \<Rightarrow> Response result" where
  "unmarshal_response = json_unmarshal store_response zeroResponse"

text \<open>What arrives: invalid UTF-8 in a string has become U+FFFD.\<close>

definition wire_hello :: "Hello \<Rightarrow> Hello" where
  "wire_hello h = h\<lparr>hRole := to_valid (hRole h), hToken := to_valid (hToken h)\<rparr>"

definition wire_response :: "Response \<Rightarrow> Response" where
  "wire_response r = r\<lparr>rStatus := to_valid (rStatus r), rSessionID := to_valid (rSessionID r),
     rErrorCode := to_valid (rErrorCode r)\<rparr>"

section \<open>Codec interface\<close>

locale json_codec =
  fixes marshal :: "'v \<Rightarrow> bytes result" and unmarshal :: "bytes \<Rightarrow> 'v result" and wire :: "'v \<Rightarrow> 'v"
  assumes marshal_total: "\<exists>d. marshal v = Inr d"
    and unmarshal_marshal: "marshal v = Inr d \<Longrightarrow> unmarshal d = Inr (wire v)"
begin

lemma writeJSON_all:
  "wscript w = [] \<Longrightarrow> marshal v = Inr d \<Longrightarrow>
   writeJSON marshal w v = (None, w\<lparr>sent := sent w @ frame_bytes d\<rparr>)"
  by (simp add: writeJSON_def conn_simps)

lemma readJSON_frame:
  assumes "marshal v = Inr d" and "length d \<le> 4096" and "concat (pending r) = frame_bytes d @ rest"
  obtains r' where "readJSON unmarshal r = (Inr (wire v), r')" and "concat (pending r') = rest" and "fate r' = fate r"
  using assms readFrame_flat_eq [of r] frame_of_stream_frame [OF assms(2)] unmarshal_marshal [OF assms(1)]
  by (fastforce simp: readJSON_def)

lemma record_roundtrip:
  assumes "wscript w = []" and "writeJSON marshal w v = (e, w')"
    and "length (sent w') \<le> length (sent w) + 4100"
    and "concat (pending r) = drop (length (sent w)) (sent w') @ rest"
  shows "e = None \<and> (\<exists>r'. readJSON unmarshal r = (Inr (wire v), r') \<and> concat (pending r') = rest)"
proof -
  obtain d where d: "marshal v = Inr d" using marshal_total by blast
  then have w: "e = None" "sent w' = sent w @ frame_bytes d" using writeJSON_all [OF assms(1) d] assms(2) by auto
  then have "length d \<le> 4096" using assms(3) by (simp add: frame_bytes_def)
  with d show ?thesis using w assms(4) by (auto elim: readJSON_frame)
qed

end

section \<open>Instances\<close>

lemma field_is_names:
  "field_is ''version'' ''version''" "field_is ''role'' ''role''" "field_is ''token'' ''token''"
  "field_is ''status'' ''status''" "field_is ''session_id'' ''session_id''" "field_is ''error_code'' ''error_code''"
  "\<not> field_is ''version'' ''role''" "\<not> field_is ''version'' ''token''" "\<not> field_is ''role'' ''token''"
  "\<not> field_is ''version'' ''status''" "\<not> field_is ''version'' ''session_id''" "\<not> field_is ''version'' ''error_code''"
  "\<not> field_is ''status'' ''session_id''" "\<not> field_is ''status'' ''error_code''" "\<not> field_is ''session_id'' ''error_code''"
  by code_simp+

lemma to_valid_names:
  "to_valid ''version'' = ''version''" "to_valid ''role'' = ''role''" "to_valid ''token'' = ''token''"
  "to_valid ''status'' = ''status''" "to_valid ''session_id'' = ''session_id''" "to_valid ''error_code'' = ''error_code''"
  by code_simp+

lemmas codec_simps = field_is_names to_valid_names store_uint16_show store_string_def json_unmarshal_def parse_json_encode

lemma unmarshal_hello_encode: "marshal_hello h = Inr d \<Longrightarrow> unmarshal_hello d = Inr (wire_hello h)"
  by (auto simp: marshal_hello_def unmarshal_hello_def wire_hello_def store_hello_def zeroHello_def codec_simps
    simp del: to_valid.simps(2))

lemma unmarshal_response_encode: "marshal_response r = Inr d \<Longrightarrow> unmarshal_response d = Inr (wire_response r)"
  by (cases "rSessionID r = []"; cases "rErrorCode r = []")
    (auto simp: marshal_response_def unmarshal_response_def wire_response_def store_response_def
      zeroResponse_def omitempty_def codec_simps simp del: to_valid.simps(2))

interpretation hello_codec: json_codec marshal_hello unmarshal_hello wire_hello
  by unfold_locales (simp_all add: unmarshal_hello_encode, simp add: marshal_hello_def)

interpretation response_codec: json_codec marshal_response unmarshal_response wire_response
  by unfold_locales (simp_all add: unmarshal_response_encode, simp add: marshal_response_def)

section \<open>Validation and handles\<close>

lemma validateHello_None: "validateHello h = None \<longleftrightarrow> hVersion h = 1 \<and> hRole h \<in> {ModeExit, ModeProxy}"
  by (auto simp: validateHello_def helloVersion_def)

lemma validateResponse_None: "validateResponse r = None \<longleftrightarrow> rVersion r = 1 \<and> rStatus r \<in> {statusOK, statusError}"
  by (auto simp: validateResponse_def helloVersion_def)

lemma to_valid_ascii: "list_all (\<lambda>c. code c < 128) s \<Longrightarrow> to_valid s = s"
proof (induction s)
  case (Cons c s)
  then have "rune_len (c # s) = 1" by (simp add: rune_len_one del: One_nat_def)
  then show ?case using Cons by simp
qed simp

lemma hex_digit_ascii: "n < 16 \<Longrightarrow> code (hex_digit n) < 128"
proof -
  assume "n < 16"
  then have "n \<in> set [0..<16]" by simp
  moreover have "list_all (\<lambda>n. code (hex_digit n) < 128) [0..<16]" by code_simp
  ultimately show ?thesis by (simp only: list_all_iff)
qed

lemma hex_byte_ascii: "list_all (\<lambda>c. code c < 128) (hex_byte b)"
proof -
  have "unat b < 2 ^ LENGTH(8)" by (rule unsigned_less)
  then have "unat b div 16 < 16" by simp
  then show ?thesis by (simp add: hex_byte_def hex_digit_ascii)
qed

lemma hex_digit_inj: "m < 16 \<Longrightarrow> n < 16 \<Longrightarrow> hex_digit m = hex_digit n \<longleftrightarrow> m = n"
  by (metis hex_val_hex_digit option.inject)

lemma hex_byte_inj: "hex_byte a = hex_byte b \<longleftrightarrow> a = b"
proof -
  have "unat a < 2 ^ LENGTH(8)" "unat b < 2 ^ LENGTH(8)" by (rule unsigned_less)+
  then have l: "unat a div 16 < 16" "unat b div 16 < 16" by simp_all
  have "unat a = unat b" if "unat a div 16 = unat b div 16" "unat a mod 16 = unat b mod 16"
    using that by (metis div_mult_mod_eq)
  then show ?thesis using l by (auto simp: hex_byte_def hex_digit_inj word_unat_eq_iff)
qed

lemma newSessionID_ascii: "newSessionID rnd = Some sid \<Longrightarrow> to_valid sid = sid"
proof -
  have "list_all (\<lambda>c. code c < 128) (concat (map hex_byte bs))" for bs
    by (induction bs) (simp_all add: hex_byte_ascii)
  then show "newSessionID rnd = Some sid \<Longrightarrow> to_valid sid = sid"
    by (auto simp: newSessionID_def to_valid_ascii split: sum.splits)
qed

lemma concat_hex_inj: "concat (map hex_byte xs) = concat (map hex_byte ys) \<longleftrightarrow> xs = ys"
proof (induction xs arbitrary: ys)
  case Nil
  show ?case by (cases ys) (simp_all add: hex_byte_def)
next
  case (Cons x xs)
  have [simp]: "length (hex_byte b) = 2" for b by (simp add: hex_byte_def)
  show ?case
  proof (cases ys)
    case (Cons y ys')
    then show ?thesis using Cons.IH [of ys'] by (simp add: hex_byte_inj)
  qed (simp add: hex_byte_def)
qed

lemma length_concat_hex: "length (concat (map hex_byte xs)) = 2 * length xs"
  by (induction xs) (simp_all add: hex_byte_def)

section \<open>Properties\<close>



text \<open>
  A session handle is 32 lower-case hexadecimal digits and determines the random bytes it was
  made from, so distinct draws give distinct handles.
\<close>

theorem newSessionID_distinct:
  assumes "length a = 16" and "length b = 16"
  shows "(\<exists>s. newSessionID (Inr a) = Some s \<and> length s = 32)
    \<and> (newSessionID (Inr a) = newSessionID (Inr b) \<longleftrightarrow> a = b)"
  using assms by (simp add: newSessionID_def concat_hex_inj length_concat_hex)

theorem newSessionID_distinct_witness:
  "newSessionID (Inr (replicate 16 0)) \<noteq> newSessionID (Inr (replicate 15 0 @ [1]))"
  using newSessionID_distinct [of "replicate 16 0" "replicate 15 0 @ [1]"] by (simp add: numeral_eq_Suc)

end
