(* ===== verification/Handshake.thy ===== *)
theory Handshake
  imports Records Timing
begin

text \<open>
  \<open>src/internal/transport/tls.go\<close>, \<open>yamux.go\<close>, \<open>handshake.go\<close> and \<open>authenticator.go\<close>: the
  authenticated set-up of a session on the relay and on the client. The TCP dial, the TLS handshake
  and the start of yamux are arguments (records of outcomes, as functions of the configuration the
  code passes to them); reads, writes and deadlines of the connection are modelled.
\<close>

section \<open>Connections under a deadline\<close>

text \<open>
  A connection with the deadline in force and a lg of the operations performed on it, each with
  the deadline it ran under.
\<close>

datatype cop = OpTLS "int option" | OpRead "int option" | OpWrite "int option" | OpMux "int option"

record tconn =
  rd :: reader
  wr :: writer
  deadline :: "int option"
  closed :: bool
  ops :: "cop list"

definition log_op :: "(int option \<Rightarrow> cop) \<Rightarrow> tconn \<Rightarrow> tconn" where
  "log_op f c = c\<lparr>ops := ops c @ [f (deadline c)]\<rparr>"

definition SetDeadline :: "gerr option \<Rightarrow> int option \<Rightarrow> tconn \<Rightarrow> gerr option \<times> tconn" where
  "SetDeadline err d c = (case err of Some e \<Rightarrow> (Some e, c) | None \<Rightarrow> (None, c\<lparr>deadline := d\<rparr>))"

definition conn_Close :: "tconn \<Rightarrow> tconn" where "conn_Close c = c\<lparr>closed := True\<rparr>"

definition conn_readJSON :: "(bytes \<Rightarrow> 'v result) \<Rightarrow> tconn \<Rightarrow> 'v result \<times> tconn" where
  "conn_readJSON u c = (case readJSON u (rd c) of (x, r) \<Rightarrow> (x, (log_op OpRead c)\<lparr>rd := r\<rparr>))"

definition conn_writeJSON :: "('v \<Rightarrow> bytes result) \<Rightarrow> tconn \<Rightarrow> 'v \<Rightarrow> gerr option \<times> tconn" where
  "conn_writeJSON mar c v = (case writeJSON mar (wr c) v of (x, w) \<Rightarrow> (x, (log_op OpWrite c)\<lparr>wr := w\<rparr>))"

section \<open>TLS\<close>

text \<open>\<open>tls.VersionTLS13\<close>; certificate pools and key pairs are opaque handles.\<close>

definition DefaultMinTLSVersion :: "16 word" where "DefaultMinTLSVersion = 0x0304"

record TLSConfig =
  ServerName :: string
  RootCAs :: "nat option"
  Certificate :: "nat option"
  MinTLSVersion :: "16 word"

text \<open>The fields of \<open>tls.Config\<close> that the code sets.\<close>

record tls_config =
  cfgServerName :: string
  cfgRootCAs :: "nat option"
  cfgCertificates :: "nat option list"
  cfgMinVersion :: "16 word"
  cfgInsecureSkipVerify :: bool

record yamux_config =
  AcceptBacklog :: nat
  EnableKeepAlive :: bool
  KeepAliveEvery :: int
  ConnectionWriteTimeout :: int
  MaxStreamWindowSize :: "32 word"
  yStreamOpenTimeout :: int
  yStreamCloseTimeout :: int
  LogToSlog :: bool

text \<open>
  What the environment answers during one client attempt and during one relay handshake: clock
  readings (\<open>dNow\<close> when \<open>dialTLS\<close> sets its deadline, \<open>dExchNow\<close> when \<open>exchange\<close> does), the results of
  setting and of lifting a deadline (\<open>dRestore\<close>: the last one, in \<open>exchange\<close>), of TLS and of yamux.
\<close>

record dial_env =
  dNow :: int
  dExchNow :: int
  dDial :: "tconn result"
  dSet :: "gerr option"
  dTLS :: "tls_config \<Rightarrow> gerr option"
  dClear :: "gerr option"
  dSetup :: "gerr option"
  dRestore :: "gerr option"
  dMux :: "yamux_config \<Rightarrow> nat result"

record accept_env =
  aNow :: int
  aSet :: "gerr option"
  aTLS :: "tls_config \<Rightarrow> gerr option"
  aClear :: "gerr option"
  aRand :: "bytes result"
  aMux :: "yamux_config \<Rightarrow> nat result"

definition clientTLS :: "TLSConfig \<Rightarrow> tls_config" where
  "clientTLS cfg = \<lparr>cfgServerName = ServerName cfg, cfgRootCAs = RootCAs cfg, cfgCertificates = [],
     cfgMinVersion = MinTLSVersion cfg, cfgInsecureSkipVerify = False\<rparr>"

definition serverTLS :: "TLSConfig \<Rightarrow> tls_config" where
  "serverTLS cfg = \<lparr>cfgServerName = [], cfgRootCAs = None, cfgCertificates = [Certificate cfg],
     cfgMinVersion = MinTLSVersion cfg, cfgInsecureSkipVerify = False\<rparr>"

text \<open>
  \<open>dialTLS\<close> returns the connection, or an error with the connection it opened and gave up, if any.
\<close>

definition dialTLS :: "dial_env \<Rightarrow> TLSConfig \<Rightarrow> Timing \<Rightarrow> gerr \<times> tconn option + tconn" where
  "dialTLS env cfg timing = (case dDial env of
      Inl err \<Rightarrow> Inl (Errorf ''%w: %s: %v'' [Sentinel ErrDial], None)
    | Inr conn \<Rightarrow>
        (case SetDeadline (dSet env) (Some (dNow env + DialTimeout timing)) conn of
           (Some err, c1) \<Rightarrow> Inl (Errorf ''%w: %v'' [Sentinel ErrDial], Some (conn_Close c1))
         | (None, c1) \<Rightarrow>
             (case dTLS env (clientTLS cfg) of
                Some err \<Rightarrow> Inl (Errorf ''%w: %v'' [Sentinel ErrHandshake], Some (conn_Close (log_op OpTLS c1)))
              | None \<Rightarrow>
                  (case SetDeadline (dClear env) None (log_op OpTLS c1) of
                     (Some err, c2) \<Rightarrow> Inl (Errorf ''%w: %v'' [Sentinel ErrDial], Some (conn_Close c2))
                   | (None, c2) \<Rightarrow> Inr c2))))"

definition listenTLS :: "accept_env \<Rightarrow> TLSConfig \<Rightarrow> Timing \<Rightarrow> tconn \<Rightarrow> gerr option \<times> tconn" where
  "listenTLS env cfg timing raw =
     (case SetDeadline (aSet env) (Some (aNow env + HandshakeTimeout timing)) raw of
        (Some err, c1) \<Rightarrow> (Some (Errorf ''transport: set handshake deadline: %w'' [err]), conn_Close c1)
      | (None, c1) \<Rightarrow>
          (case aTLS env (serverTLS cfg) of
             Some err \<Rightarrow> (Some (Errorf ''transport: TLS handshake: %w'' [err]), conn_Close (log_op OpTLS c1))
           | None \<Rightarrow>
               (case SetDeadline (aClear env) None (log_op OpTLS c1) of
                  (Some err, c2) \<Rightarrow> (Some (Errorf ''transport: clear deadline: %w'' [err]), conn_Close c2)
                | (None, c2) \<Rightarrow> (None, c2))))"

text \<open>\<open>AppendCertsFromPEM\<close> is an argument: the pool it fills, if it finds a certificate.\<close>

definition LoadTrustPool :: "(string \<Rightarrow> bytes result) \<Rightarrow> (bytes \<Rightarrow> nat option) \<Rightarrow> string \<Rightarrow> nat result" where
  "LoadTrustPool readFile appendCerts path = (case readFile path of
      Inl err \<Rightarrow> Inl (Errorf ''transport: read CA file %q: %w'' [err])
    | Inr pem \<Rightarrow>
        (case appendCerts pem of
           None \<Rightarrow> Inl (Errorf ''%w: %s'' [Sentinel ErrUntrustedCA])
         | Some pool \<Rightarrow> Inr pool))"

section \<open>The multiplexer's configuration\<close>

definition defaultMaxStreamBytes :: nat where "defaultMaxStreamBytes = 4194304"
definition defaultStreamConcurrency :: nat where "defaultStreamConcurrency = 256"

text \<open>\<open>slogWriter.Write\<close>: the message logged, if any, and the count it reports.\<close>

definition slogWriter_Write :: "string \<Rightarrow> string option \<times> nat" where
  "slogWriter_Write p =
     (let msg = rev (dropWhile (\<lambda>c. c = CHR 0x0A) (rev p))
      in (if msg \<noteq> [] then Some msg else None, length p))"

definition buildSessionConfig :: "Timing \<Rightarrow> bool \<Rightarrow> yamux_config" where
  "buildSessionConfig timing lg = \<lparr>AcceptBacklog = defaultStreamConcurrency, EnableKeepAlive = True,
     KeepAliveEvery = KeepAliveInterval timing, ConnectionWriteTimeout = PingTimeout timing,
     MaxStreamWindowSize = of_nat defaultMaxStreamBytes, yStreamOpenTimeout = StreamOpenTimeout timing,
     yStreamCloseTimeout = DrainTimeout timing, LogToSlog = lg\<rparr>"

definition newClientSession :: "(yamux_config \<Rightarrow> nat result) \<Rightarrow> Timing \<Rightarrow> bool \<Rightarrow> nat result" where
  "newClientSession yamux_Client timing lg = (case yamux_Client (buildSessionConfig timing lg) of
      Inl err \<Rightarrow> Inl (Errorf ''transport: start client session: %w'' [err]) | Inr m \<Rightarrow> Inr m)"

definition newServerSession :: "(yamux_config \<Rightarrow> nat result) \<Rightarrow> Timing \<Rightarrow> bool \<Rightarrow> nat result" where
  "newServerSession yamux_Server timing lg = (case yamux_Server (buildSessionConfig timing lg) of
      Inl err \<Rightarrow> Inl (Errorf ''transport: start server session: %w'' [err]) | Inr m \<Rightarrow> Inr m)"

section \<open>Sessions\<close>

record Session =
  ID :: string
  SRole :: Mode
  SMux :: nat

definition newSession :: "tconn option \<Rightarrow> nat option \<Rightarrow> Mode \<Rightarrow> string \<Rightarrow> Session option" where
  "newSession conn mux role sid = (case (conn, mux) of
      (Some _, Some m) \<Rightarrow> Some \<lparr>ID = sid, SRole = role, SMux = m\<rparr>
    | _ \<Rightarrow> None)"

section \<open>Relay side\<close>

text \<open>A Go map from role to bearer.\<close>

record Verifier =
  ExpectedExits :: "Mode \<rightharpoonup> string"

definition verify :: "Verifier \<Rightarrow> Mode \<Rightarrow> string \<Rightarrow> gerr option" where
  "verify v role token = (case ExpectedExits v role of
      None \<Rightarrow> Some (Errorf ''%w: %q'' [Sentinel ErrBadRole])
    | Some expected \<Rightarrow>
        if token = [] then Some (Sentinel ErrEmptyBearer)
        else if token \<noteq> expected then Some (Errorf ''%w: %q'' [Sentinel ErrWrongToken])
        else None)"

record Handshake =
  hTLSConfig :: TLSConfig
  hTiming :: Timing
  hLogger :: bool
  hVerifier :: Verifier

definition writeVerdict :: "tconn \<Rightarrow> string \<Rightarrow> gerr option \<times> tconn" where
  "writeVerdict conn c = conn_writeJSON marshal_response conn
     \<lparr>rVersion = helloVersion, rStatus = statusError, rSessionID = [], rErrorCode = c\<rparr>"

text \<open>A call returns a value or an error, or panics.\<close>

datatype 'a outcome = Yields 'a | Fails gerr | Panics

definition handshake :: "Handshake \<Rightarrow> accept_env \<Rightarrow> tconn \<Rightarrow> Session outcome \<times> tconn" where
  "handshake h env raw = (case listenTLS env (hTLSConfig h) (hTiming h) raw of
      (Some err, c1) \<Rightarrow> (Fails (Errorf ''%w: %v'' [Sentinel ErrListenTLS]), c1)
    | (None, c1) \<Rightarrow>
        (case conn_readJSON unmarshal_hello c1 of
           (Inl err, c2) \<Rightarrow> (Fails (Errorf ''%w: %v'' [Sentinel ErrRecvFailure]), c2)
         | (Inr hello, c2) \<Rightarrow>
             (case validateHello hello of
                Some err \<Rightarrow> (Fails (Errorf ''%w: %v'' [Sentinel ErrRecvFailure]), c2)
              | None \<Rightarrow>
                  (case verify (hVerifier h) (hRole hello) (hToken hello) of
                     Some err \<Rightarrow> (Fails (Errorf ''transport: verify: %w'' [err]),
                       snd (writeVerdict c2 ''authentication_failed''))
                   | None \<Rightarrow>
                       (case newSessionID (aRand env) of
                          None \<Rightarrow> (Panics, c2)
                        | Some sid \<Rightarrow>
                            (case conn_writeJSON marshal_response c2
                                \<lparr>rVersion = helloVersion, rStatus = statusOK, rSessionID = sid, rErrorCode = []\<rparr> of
                               (Some err, c3) \<Rightarrow> (Fails (Errorf ''%w: %v'' [Sentinel ErrSendFailure]), c3)
                             | (None, c3) \<Rightarrow>
                                 (case newServerSession (aMux env) (hTiming h) (hLogger h) of
                                    Inl err \<Rightarrow> (Fails (Errorf ''transport: %w'' [err]), conn_Close c3)
                                  | Inr mux \<Rightarrow>
                                      (case newSession (Some c3) (Some mux) (hRole hello) sid of
                                         None \<Rightarrow> (Fails (Errorf ''%w'' [Sentinel ErrNilSession]), conn_Close c3)
                                       | Some s \<Rightarrow> (Yields s, log_op OpMux c3)))))))))"

text \<open>
  What successive \<open>Accept\<close> calls give: an error (with whether the context is done by then) or a
  connection. \<open>None\<close>: still waiting for the next connection. The connections are returned as
  \<open>Run\<close> leaves them.
\<close>

datatype accept = AcceptErr gerr bool | Accepted accept_env tconn

fun hs_Run :: "Handshake \<Rightarrow> accept list \<Rightarrow> Session option outcome option \<times> tconn list" where
  "hs_Run h [] = (None, [])"
| "hs_Run h (AcceptErr err ctxDone # as) =
     (Some (if ctxDone then Yields None else Fails (Errorf ''transport: accept: %w'' [err])), [])"
| "hs_Run h (Accepted env raw # as) =
     (case handshake h env raw of
        (Yields s, c) \<Rightarrow> (Some (Yields (Some s)), [c])
      | (Panics, c) \<Rightarrow> (Some Panics, [c])
      | (Fails herr, c) \<Rightarrow> (case hs_Run h as of (r, cs) \<Rightarrow> (r, conn_Close c # cs)))"

section \<open>Client side\<close>

record Authenticator =
  Addr :: string
  Role :: Mode
  Token :: string
  aTiming :: Timing
  aServerName :: string
  aRootCAs :: "nat option"
  aMinTLSVersion :: "16 word"

definition auth_dial :: "Authenticator \<Rightarrow> dial_env \<Rightarrow> gerr \<times> tconn option + tconn" where
  "auth_dial a env =
     (case dialTLS env \<lparr>ServerName = aServerName a, RootCAs = aRootCAs a, Certificate = None,
        MinTLSVersion = aMinTLSVersion a\<rparr> (aTiming a) of
        Inl (err, c) \<Rightarrow> Inl (Errorf ''transport: dial: %w'' [err], c)
      | Inr c \<Rightarrow> Inr c)"

definition exchange :: "Authenticator \<Rightarrow> dial_env \<Rightarrow> tconn \<Rightarrow> Response result \<times> tconn" where
  "exchange a env conn =
     (case SetDeadline (dSetup env) (Some (dExchNow env + SetupTimeout (aTiming a))) conn of
        (Some err, c1) \<Rightarrow> (Inl (Errorf ''transport: set setup deadline: %w'' [err]), c1)
      | (None, c1) \<Rightarrow>
          (case conn_writeJSON marshal_hello c1 \<lparr>hVersion = helloVersion, hRole = Role a, hToken = Token a\<rparr> of
             (Some err, c2) \<Rightarrow> (Inl (Errorf ''%w: %v'' [Sentinel ErrExchange]), c2)
           | (None, c2) \<Rightarrow>
               (case conn_readJSON unmarshal_response c2 of
                  (Inl err, c3) \<Rightarrow> (Inl (Errorf ''%w: %v'' [Sentinel ErrExchange]), c3)
                | (Inr resp, c3) \<Rightarrow>
                    (case validateResponse resp of
                       Some err \<Rightarrow> (Inl (Errorf ''transport: invalid response: %w'' [err]), c3)
                     | None \<Rightarrow>
                         if rStatus resp \<noteq> statusOK
                         then (Inl (Errorf ''%w: %s'' [Sentinel ErrAuthentication]), c3)
                         else (Inr resp, snd (SetDeadline (dRestore env) None c3))))))"

definition authenticate :: "Authenticator \<Rightarrow> dial_env \<Rightarrow> Session result \<times> tconn option" where
  "authenticate a env = (case auth_dial a env of
      Inl (err, c) \<Rightarrow> (Inl (Errorf ''transport: %w'' [err]), c)
    | Inr conn \<Rightarrow>
        (case exchange a env conn of
           (Inl err, c1) \<Rightarrow> (Inl (Errorf ''transport: %w'' [err]), Some (conn_Close c1))
         | (Inr resp, c1) \<Rightarrow>
             (case newClientSession (dMux env) (aTiming a) True of
                Inl err \<Rightarrow> (Inl (Errorf ''%w: %v'' [Sentinel ErrHandshake]), Some (conn_Close c1))
              | Inr mux \<Rightarrow>
                  (case newSession (Some c1) (Some mux) (Role a) (rSessionID resp) of
                     None \<Rightarrow> (Inl (Errorf ''%w'' [Sentinel ErrNilSession]), Some (conn_Close c1))
                   | Some s \<Rightarrow> (Inr s, Some (log_op OpMux c1))))))"

text \<open>
  \<open>Authenticator.Run\<close>: each attempt comes with the random number drawn for its jitter and, if the
  context ends during the wait, its error. The second component lists the delays waited.
\<close>

fun auth_Run :: "Authenticator \<Rightarrow> nat \<Rightarrow> (dial_env \<times> rat \<times> gerr option) list \<Rightarrow> Session result option \<times> int list" where
  "auth_Run a attempt [] = (None, [])"
| "auth_Run a attempt ((env, u, ctxErr) # xs) = (case fst (authenticate a env) of
      Inr s \<Rightarrow> (Some (Inr s), [])
    | Inl err \<Rightarrow>
        (case ctxErr of
           Some e \<Rightarrow> (Some (Inl e), [backoff (aTiming a) u attempt])
         | None \<Rightarrow> (case auth_Run a (Suc attempt) xs of (r, ds) \<Rightarrow> (r, backoff (aTiming a) u attempt # ds))))"

section \<open>Reference records\<close>

definition okResponse :: "string \<Rightarrow> Response" where
  "okResponse sid = \<lparr>rVersion = helloVersion, rStatus = statusOK, rSessionID = sid, rErrorCode = []\<rparr>"

definition deniedResponse :: Response where
  "deniedResponse = \<lparr>rVersion = helloVersion, rStatus = statusError, rSessionID = [],
     rErrorCode = ''authentication_failed''\<rparr>"

text \<open>A relay whose environment answers without errors, on a fresh connection.\<close>

definition relay_ready :: "Handshake \<Rightarrow> accept_env \<Rightarrow> tconn \<Rightarrow> bool" where
  "relay_ready h env raw \<longleftrightarrow> aSet env = None \<and> aTLS env (serverTLS (hTLSConfig h)) = None \<and> aClear env = None
     \<and> (\<exists>b. aRand env = Inr b \<and> length b = 16) \<and> (\<exists>m. aMux env (buildSessionConfig (hTiming h) (hLogger h)) = Inr m)
     \<and> wscript (wr raw) = [] \<and> sent (wr raw) = []"

definition helloOf :: "Authenticator \<Rightarrow> Hello" where
  "helloOf a = \<lparr>hVersion = helloVersion, hRole = Role a, hToken = Token a\<rparr>"

text \<open>A concrete relay, client and connection.\<close>

definition sampleRelay :: Handshake where
  "sampleRelay = \<lparr>hTLSConfig = \<lparr>ServerName = [], RootCAs = None, Certificate = Some 1, MinTLSVersion = DefaultMinTLSVersion\<rparr>,
     hTiming = DefaultTiming, hLogger = True, hVerifier = \<lparr>ExpectedExits = [ModeProxy \<mapsto> ''k7'']\<rparr>\<rparr>"

definition sampleAccept :: accept_env where
  "sampleAccept = \<lparr>aNow = 0, aSet = None, aTLS = (\<lambda>_. None), aClear = None, aRand = Inr (replicate 16 0), aMux = (\<lambda>_. Inr 1)\<rparr>"

definition sampleAuth :: Authenticator where
  "sampleAuth = \<lparr>Addr = ''relay:443'', Role = ModeProxy, Token = ''k7'', aTiming = DefaultTiming,
     aServerName = ''relay'', aRootCAs = Some 1, aMinTLSVersion = DefaultMinTLSVersion\<rparr>"

definition sampleConn :: "bytes \<Rightarrow> tconn" where
  "sampleConn bs = \<lparr>rd = \<lparr>pending = [bs], fate = Sentinel EOF\<rparr>, wr = \<lparr>sent = [], wscript = []\<rparr>,
     deadline = None, closed = False, ops = []\<rparr>"

definition sampleDial :: "tconn \<Rightarrow> dial_env" where
  "sampleDial c = \<lparr>dNow = 0, dExchNow = 1, dDial = Inr c, dSet = None, dTLS = (\<lambda>_. None), dClear = None, dSetup = None,
     dRestore = None, dMux = (\<lambda>_. Inr 1)\<rparr>"

section \<open>Lemmas\<close>

lemma SetDeadline_None [conn_simps]: "SetDeadline None d c = (None, c\<lparr>deadline := d\<rparr>)"
  by (simp add: SetDeadline_def)

lemma SetDeadline_Some [conn_simps]: "SetDeadline (Some e) d c = (Some e, c)"
  by (simp add: SetDeadline_def)

lemma SetDeadline_sel [conn_simps]: "ops (snd (SetDeadline e d c)) = ops c"
  by (simp add: SetDeadline_def split: option.split)

lemma log_op_sel [simp]:
  "rd (log_op f c) = rd c" "wr (log_op f c) = wr c" "deadline (log_op f c) = deadline c"
  "closed (log_op f c) = closed c" "ops (log_op f c) = ops c @ [f (deadline c)]"
  by (simp_all add: log_op_def)

lemma conn_Close_sel [simp]: "closed (conn_Close c)" "ops (conn_Close c) = ops c" "wr (conn_Close c) = wr c"
  by (simp_all add: conn_Close_def)

lemma verify_None: "verify v role token = None \<longleftrightarrow> token \<noteq> [] \<and> ExpectedExits v role = Some token"
  by (auto simp: verify_def split: option.splits)

lemma newSession_Some [simp]: "newSession (Some c) (Some m) role sid = Some \<lparr>ID = sid, SRole = role, SMux = m\<rparr>"
  by (simp add: newSession_def)

text \<open>A completed \<open>listenTLS\<close> leaves a connection without deadline.\<close>

lemma listenTLS_ok:
  "listenTLS env cfg timing raw = (None, c) \<Longrightarrow>
   rd c = rd raw \<and> wr c = wr raw \<and> deadline c = None \<and> aTLS env (serverTLS cfg) = None
   \<and> ops c = ops raw @ [OpTLS (Some (aNow env + HandshakeTimeout timing))]"
  by (auto simp: listenTLS_def SetDeadline_def split: option.splits)

lemma listenTLS_all:
  assumes "aSet env = None" and "aTLS env (serverTLS cfg) = None" and "aClear env = None"
  obtains c where "listenTLS env cfg timing raw = (None, c)" "rd c = rd raw" "wr c = wr raw"
    "deadline c = None" "ops c = ops raw @ [OpTLS (Some (aNow env + HandshakeTimeout timing))]"
  using assms by (auto simp: listenTLS_def conn_simps)

lemma conn_readJSON_cases:
  "conn_readJSON u c = (x, c') \<Longrightarrow> \<exists>r. readJSON u (rd c) = (x, r) \<and> c' = (log_op OpRead c)\<lparr>rd := r\<rparr>"
  by (auto simp: conn_readJSON_def split: prod.splits)

lemma conn_writeJSON_cases:
  "conn_writeJSON f c v = (x, c') \<Longrightarrow> \<exists>w. writeJSON f (wr c) v = (x, w) \<and> c' = (log_op OpWrite c)\<lparr>wr := w\<rparr>"
  by (auto simp: conn_writeJSON_def split: prod.splits)

lemma handshake_yields:
  assumes "handshake h env raw = (Yields s, c)"
  obtains hello r w where
    "aTLS env (serverTLS (hTLSConfig h)) = None"
    "readJSON unmarshal_hello (rd raw) = (Inr hello, r)"
    "validateHello hello = None" "verify (hVerifier h) (hRole hello) (hToken hello) = None"
    "newSessionID (aRand env) = Some (ID s)"
    "writeJSON marshal_response (wr raw)
       \<lparr>rVersion = helloVersion, rStatus = statusOK, rSessionID = ID s, rErrorCode = []\<rparr> = (None, w)"
    "wr c = w" "SRole s = hRole hello"
  using assms
  by (auto simp: handshake_def newSession_Some split: prod.splits option.splits sum.splits
      dest!: listenTLS_ok conn_readJSON_cases conn_writeJSON_cases)

text \<open>Every operation \<open>exchange\<close> performs runs under the set-up deadline.\<close>

lemma exchange_ops:
  assumes "dSetup env = None" and "exchange a env conn = (x, c)"
  shows "\<exists>l. ops c = ops conn @ l \<and> set l \<subseteq> {OpWrite (Some (dExchNow env + SetupTimeout (aTiming a))),
      OpRead (Some (dExchNow env + SetupTimeout (aTiming a)))} \<and> l \<noteq> []"
  using assms
  by (auto simp: exchange_def conn_simps split: prod.splits option.splits sum.splits if_splits
      dest!: conn_readJSON_cases conn_writeJSON_cases)

lemma exchange_ok:
  assumes "exchange a env conn = (Inr resp, c)"
  shows "rStatus resp = statusOK \<and> rVersion resp = 1
    \<and> deadline c = (if dRestore env = None then None else Some (dExchNow env + SetupTimeout (aTiming a)))"
  using assms
  by (auto simp: exchange_def SetDeadline_def validateResponse_None split: prod.splits option.splits sum.splits if_splits
      dest!: conn_readJSON_cases conn_writeJSON_cases)

lemma escape_length: "length (escape s) \<le> 6 * length s"
proof (induction s rule: escape.induct)
  case (2 c cs)
  have "length (esc_ascii c) \<le> 6" by (simp add: esc_ascii_def)
  moreover have "length (take n cs) + 6 * length (drop n cs) \<le> 6 * length cs" for n by simp
  ultimately show ?case using 2 by (auto intro: order_trans)
qed simp

lemma show_nat_one: "show_nat 1 = ''1''"
  by (subst show_nat.simps) (simp add: char_of_def bit_Suc_0_iff)

lemma length_escape_names:
  "length (escape ''version'') = 7" "length (escape ''status'') = 6" "length (escape ''session_id'') = 10"
  "length (escape ''error_code'') = 10" "length (escape ''ok'') = 2" "length (escape ''error'') = 5"
  "length (escape ''authentication_failed'') = 21"
  by code_simp+

lemma okResponse_small:
  assumes "marshal_response (okResponse sid) = Inr d" and "length sid \<le> 32"
  shows "length d \<le> 4096"
proof -
  have "length (escape sid) \<le> 192" using escape_length [of sid] assms(2) by simp
  then show ?thesis using assms(1) show_nat_one
    by (auto simp: okResponse_def marshal_response_def omitempty_def encode_object_def quote_def
      statusOK_def helloVersion_def length_escape_names simp del: escape.simps)
qed

lemma deniedResponse_small: "marshal_response deniedResponse = Inr d \<Longrightarrow> length d \<le> 4096"
  using show_nat_one
  by (auto simp: deniedResponse_def marshal_response_def omitempty_def encode_object_def quote_def
      statusError_def helloVersion_def length_escape_names simp del: escape.simps)

lemma wire_okResponse: "newSessionID rnd = Some sid \<Longrightarrow> wire_response (okResponse sid) = okResponse sid"
  using newSessionID_ascii [of rnd sid] to_valid_ascii [of "''ok''"]
  by (simp add: wire_response_def okResponse_def statusOK_def del: to_valid.simps(2))

lemma wire_deniedResponse: "wire_response deniedResponse = deniedResponse"
  using to_valid_ascii [of "''error''"] to_valid_ascii [of "''authentication_failed''"]
  by (simp add: wire_response_def deniedResponse_def statusError_def del: to_valid.simps(2))

text \<open>The relay's answer to a well-formed hello.\<close>

lemma relay_answers:
  assumes ready: "relay_ready h env raw"
    and d: "marshal_hello (helloOf a) = Inr d" "length d \<le> 4096"
    and hello: "concat (pending (rd raw)) = frame_bytes d"
    and role: "Role a \<in> {ModeExit, ModeProxy}" "valid_utf8 (Role a)" "valid_utf8 (Token a)"
  shows "if Token a \<noteq> [] \<and> ExpectedExits (hVerifier h) (Role a) = Some (Token a)
    then \<exists>sid c m e. newSessionID (aRand env) = Some sid \<and> length sid = 32
        \<and> handshake h env raw = (Yields \<lparr>ID = sid, SRole = Role a, SMux = m\<rparr>, c)
        \<and> marshal_response (okResponse sid) = Inr e \<and> sent (wr c) = frame_bytes e
    else \<exists>err c e. handshake h env raw = (Fails err, c) \<and> marshal_response deniedResponse = Inr e \<and> sent (wr c) = frame_bytes e"
proof -
  obtain c1 where l: "listenTLS env (hTLSConfig h) (hTiming h) raw = (None, c1)" "rd c1 = rd raw" "wr c1 = wr raw"
    using ready listenTLS_all [of env "hTLSConfig h" "hTiming h" raw] unfolding relay_ready_def by metis
  have "wire_hello (helloOf a) = helloOf a" using role by (simp add: wire_hello_def helloOf_def valid_utf8_def)
  then obtain r where "readJSON unmarshal_hello (rd raw) = (Inr (helloOf a), r)"
    using hello_codec.readJSON_frame [OF d, of "rd raw" "[]"] hello by auto
  then obtain c2 where c2: "conn_readJSON unmarshal_hello c1 = (Inr (helloOf a), c2)" "wr c2 = wr raw"
    using l by (simp add: conn_readJSON_def)
  have valid: "validateHello (helloOf a) = None"
    using role by (simp add: validateHello_None helloOf_def helloVersion_def)
  obtain b m where env: "aRand env = Inr b" "length b = 16"
      "aMux env (buildSessionConfig (hTiming h) (hLogger h)) = Inr m" and w: "wscript (wr raw) = []" "sent (wr raw) = []"
    using ready by (auto simp: relay_ready_def)
  obtain sid where sid: "newSessionID (aRand env) = Some sid" "length sid = 32"
    using env by (simp add: newSessionID_def length_concat_hex)
  obtain eo ed where e: "marshal_response (okResponse sid) = Inr eo" "marshal_response deniedResponse = Inr ed"
    using response_codec.marshal_total by meson
  have wo: "writeJSON marshal_response (wr raw) (okResponse sid) = (None, (wr raw)\<lparr>sent := frame_bytes eo\<rparr>)"
    and wd: "writeJSON marshal_response (wr raw) deniedResponse = (None, (wr raw)\<lparr>sent := frame_bytes ed\<rparr>)"
    using response_codec.writeJSON_all [OF w(1)] e w(2) by simp_all
  have v: "verify (hVerifier h) (Role a) (Token a) = None
      \<longleftrightarrow> Token a \<noteq> [] \<and> ExpectedExits (hVerifier h) (Role a) = Some (Token a)" by (rule verify_None)
  show ?thesis
    using l c2 valid sid wo wd e v env
    by (cases "verify (hVerifier h) (Role a) (Token a)")
       (auto simp: handshake_def helloOf_def writeVerdict_def conn_writeJSON_def newServerSession_def
         simp flip: okResponse_def deniedResponse_def)
qed

text \<open>The client's reading of a reply.\<close>

lemma exchange_reply:
  assumes "dSetup env = None" and "wscript (wr k) = []"
    and e: "marshal_response resp = Inr e" "length e \<le> 4096" "wire_response resp = resp"
    and "concat (pending (rd k)) = frame_bytes e" and "rVersion resp = 1"
  shows "rStatus resp = statusOK \<Longrightarrow> fst (exchange a env k) = Inr resp"
    and "rStatus resp = statusError \<Longrightarrow> fst (exchange a env k) = Inl (Errorf ''%w: %s'' [Sentinel ErrAuthentication])"
proof -
  obtain d where d: "marshal_hello (helloOf a) = Inr d" using hello_codec.marshal_total by blast
  obtain r where "readJSON unmarshal_response (rd k) = (Inr resp, r)"
    using response_codec.readJSON_frame [OF e(1,2), of "rd k" "[]"] e(3) assms(6) by auto
  then show "rStatus resp = statusOK \<Longrightarrow> fst (exchange a env k) = Inr resp"
    and "rStatus resp = statusError \<Longrightarrow> fst (exchange a env k) = Inl (Errorf ''%w: %s'' [Sentinel ErrAuthentication])"
    using assms(1,2,7) hello_codec.writeJSON_all [of "wr k" "helloOf a" d] d
    by (auto simp: exchange_def conn_simps conn_writeJSON_def conn_readJSON_def helloOf_def
        validateResponse_def helloVersion_def statusOK_def statusError_def)
qed

lemma authenticate_fails_closed: "authenticate a env = (Inl err, Some c) \<Longrightarrow> closed c"
  by (auto simp: authenticate_def auth_dial_def dialTLS_def SetDeadline_def
      split: sum.splits prod.splits option.splits)

lemma auth_Run_delays:
  "auth_Run a n xs = (r, ds) \<Longrightarrow> i < length ds \<Longrightarrow>
   \<exists>u. u \<in> set (map (fst \<circ> snd) xs) \<and> ds ! i = backoff (aTiming a) u (n + i)"
proof (induction xs arbitrary: n r ds i)
  case (Cons x xs)
  obtain env u ce where x: "x = (env, u, ce)" by (cases x)
  show ?case
  proof (cases i)
    case 0
    then show ?thesis using Cons.prems x by (auto split: sum.splits option.splits prod.splits)
  next
    case (Suc j)
    then obtain r' ds' where "auth_Run a (Suc n) xs = (r', ds')" "ds = backoff (aTiming a) u n # ds'"
      using Cons.prems x by (auto split: sum.splits option.splits prod.splits)
    then show ?thesis using Cons.IH [of "Suc n" r' ds' j] Cons.prems Suc by auto
  qed
qed simp

lemma sample_hello: "\<exists>d. marshal_hello (helloOf sampleAuth) = Inr d \<and> length d \<le> 4096"
  using show_nat_one
  by (simp add: marshal_hello_def helloOf_def sampleAuth_def helloVersion_def encode_object_def quote_def
    esc_ascii_def rune_len_def ModeProxy_def)

lemma sample_facts:
  "relay_ready sampleRelay sampleAccept (sampleConn bs)" "Role sampleAuth \<in> {ModeExit, ModeProxy}"
  "valid_utf8 (Role sampleAuth)" "valid_utf8 (Token sampleAuth)" "Token sampleAuth \<noteq> []"
  "ExpectedExits (hVerifier sampleRelay) (Role sampleAuth) = Some (Token sampleAuth)"
  "wscript (wr (sampleConn bs)) = []" "sent (wr (sampleConn bs)) = []" "concat (pending (rd (sampleConn bs))) = bs"
  "dSetup (sampleDial c) = None"
  by (simp_all add: relay_ready_def sampleRelay_def sampleAccept_def sampleConn_def sampleAuth_def sampleDial_def
    valid_utf8_def ModeProxy_def to_valid_ascii del: to_valid.simps(2))

lemma sample_session:
  "marshal_hello (helloOf sampleAuth) = Inr d \<Longrightarrow> length d \<le> 4096 \<Longrightarrow>
   \<exists>s c. handshake sampleRelay sampleAccept (sampleConn (frame_bytes d)) = (Yields s, c)"
  using relay_answers [of sampleRelay sampleAccept "sampleConn (frame_bytes d)" sampleAuth d] sample_facts by auto

text \<open>
  Client and relay agree. For a role and token in valid UTF-8 that fit a frame, a relay whose
  environment answers and a client that reads the relay's bytes, in any chunks on either side: if
  the token is the expected non-empty bearer, both ends succeed and hold the same session
  identifier; otherwise the relay creates no session and the client fails with
  \<open>ErrAuthentication\<close>.
\<close>

lemma auth_agreement:
  assumes "relay_ready h env raw" and "dSetup cenv = None" and "wscript (wr k) = []" and "sent (wr k) = []"
    and "Role a \<in> {ModeExit, ModeProxy}" and "valid_utf8 (Role a)" and "valid_utf8 (Token a)"
    and "marshal_hello (helloOf a) = Inr d" and "length d \<le> 4096"
    and "concat (pending (rd raw)) = frame_bytes d"
    and "handshake h env raw = (out, rc)" and "concat (pending (rd k)) = sent (wr rc)"
  shows "if Token a \<noteq> [] \<and> ExpectedExits (hVerifier h) (Role a) = Some (Token a)
    then \<exists>s resp. out = Yields s \<and> fst (exchange a cenv k) = Inr resp \<and> rSessionID resp = ID s \<and> SRole s = Role a
    else (\<exists>err. out = Fails err) \<and> fst (exchange a cenv k) = Inl (Errorf ''%w: %s'' [Sentinel ErrAuthentication])"
proof (cases "Token a \<noteq> [] \<and> ExpectedExits (hVerifier h) (Role a) = Some (Token a)")
  case True
  then obtain sid m e where s: "newSessionID (aRand env) = Some sid" "length sid = 32"
      "out = Yields \<lparr>ID = sid, SRole = Role a, SMux = m\<rparr>" "marshal_response (okResponse sid) = Inr e"
      "sent (wr rc) = frame_bytes e"
    using relay_answers [of h env raw a d] assms by auto
  then have "fst (exchange a cenv k) = Inr (okResponse sid)"
    using exchange_reply(1) [of cenv k "okResponse sid" e a] assms okResponse_small [of sid e] wire_okResponse
    by (simp add: okResponse_def helloVersion_def)
  then show ?thesis using True s by (simp add: okResponse_def)
next
  case False
  then obtain err e where s: "out = Fails err" "marshal_response deniedResponse = Inr e" "sent (wr rc) = frame_bytes e"
    using relay_answers [of h env raw a d] assms by (auto split: if_splits)
  then have "fst (exchange a cenv k) = Inl (Errorf ''%w: %s'' [Sentinel ErrAuthentication])"
    using exchange_reply(2) [of cenv k deniedResponse e a] assms deniedResponse_small [of e] wire_deniedResponse
    by (simp add: deniedResponse_def helloVersion_def)
  then show ?thesis using False s by simp
qed

text \<open>A session means that the TLS handshake succeeded under the authenticator's own settings.\<close>

lemma authenticate_tls:
  "authenticate a env = (Inr s, c) \<Longrightarrow>
   dTLS env \<lparr>cfgServerName = aServerName a, cfgRootCAs = aRootCAs a, cfgCertificates = [],
     cfgMinVersion = aMinTLSVersion a, cfgInsecureSkipVerify = False\<rparr> = None"
  by (auto simp: authenticate_def auth_dial_def dialTLS_def SetDeadline_def clientTLS_def
      split: sum.splits prod.splits option.splits)

text \<open>Every authenticator gets a session from the sample environment and a positive verdict.\<close>

lemma sample_authenticates:
  "\<exists>reply s c. authenticate a (sampleDial (sampleConn reply)) = (Inr s, c)
     \<and> newSessionID (Inr (replicate 16 0)) = Some (ID s)"
proof -
  obtain sid where sid: "newSessionID (Inr (replicate 16 0)) = Some sid" "length sid = 32"
    using length_concat_hex [of "replicate 16 0"] by (auto simp: newSessionID_def)
  obtain e where e: "marshal_response (okResponse sid) = Inr e" using response_codec.marshal_total by blast
  let ?env = "sampleDial (sampleConn (frame_bytes e))"
  obtain c where c: "auth_dial a ?env = Inr c" "rd c = rd (sampleConn (frame_bytes e))"
      "wr c = wr (sampleConn (frame_bytes e))"
    by (simp add: auth_dial_def dialTLS_def sampleDial_def conn_simps)
  have "fst (exchange a ?env c) = Inr (okResponse sid)"
    using exchange_reply(1) [OF sample_facts(10), of c "okResponse sid" e a "sampleConn (frame_bytes e)"] c e sid
      sample_facts okResponse_small wire_okResponse by (simp add: okResponse_def helloVersion_def)
  then obtain c' where x: "exchange a ?env c = (Inr (okResponse sid), c')" by (cases "exchange a ?env c") auto
  then obtain s k where "authenticate a ?env = (Inr s, k)" "ID s = sid"
    using c by (simp add: authenticate_def newClientSession_def sampleDial_def okResponse_def)
  then show ?thesis using sid(1) by blast
qed

section \<open>Properties\<close>

text \<open>
  C2. The relay creates a session only on a connection whose TLS handshake succeeded and whose
  first frame is a hello of version 1 with role exit-node or proxy and a non-empty token equal to the
  expected bearer of that role. The session carries that role and the identifier sent to the client
  in the positive verdict, which was written before.
\<close>

theorem handshake_only_verified:
  assumes "handshake h env raw = (Yields s, c)"
  shows "aTLS env (serverTLS (hTLSConfig h)) = None \<and>
    (\<exists>hello r. readJSON unmarshal_hello (rd raw) = (Inr hello, r) \<and> hVersion hello = 1
      \<and> hRole hello \<in> {ModeExit, ModeProxy} \<and> hToken hello \<noteq> []
      \<and> ExpectedExits (hVerifier h) (hRole hello) = Some (hToken hello) \<and> SRole s = hRole hello)
    \<and> newSessionID (aRand env) = Some (ID s)
    \<and> writeJSON marshal_response (wr raw) (okResponse (ID s)) = (None, wr c)"
  using assms by (rule handshake_yields) (auto simp: validateHello_None verify_None okResponse_def)

theorem handshake_only_verified_witness:
  "\<exists>bs s c. handshake sampleRelay sampleAccept (sampleConn bs) = (Yields s, c)
     \<and> newSessionID (Inr (replicate 16 0)) = Some (ID s)"
proof -
  obtain d where d: "marshal_hello (helloOf sampleAuth) = Inr d" "length d \<le> 4096" using sample_hello by blast
  then obtain s c where s: "handshake sampleRelay sampleAccept (sampleConn (frame_bytes d)) = (Yields s, c)"
    using sample_session by blast
  from handshake_only_verified [OF s] show ?thesis using s by (auto simp: sampleAccept_def)
qed

text \<open>
  C27. Deadlines during set-up. On the client every read and write of the exchange runs under the
  set-up deadline, which is lifted before the multiplexer starts, unless lifting it fails: that error is
  ignored, and a successful exchange then leaves the deadline in force. On the relay the TLS handshake is
  bounded, but the deadline is cleared before the hello is read: that read, and the write of the
  verdict, wait without limit.
\<close>

theorem setup_deadlines:
  assumes "dSetup cenv = None" and "exchange a cenv k = (x, k')"
    and "listenTLS env (hTLSConfig h) (hTiming h) raw = (None, c1)" and "handshake h env raw = (out, c)"
  shows "(\<exists>l. ops k' = ops k @ l \<and> l \<noteq> []
      \<and> set l \<subseteq> {OpWrite (Some (dExchNow cenv + SetupTimeout (aTiming a))), OpRead (Some (dExchNow cenv + SetupTimeout (aTiming a)))})
    \<and> (isl x \<or> deadline k' = (if dRestore cenv = None then None else Some (dExchNow cenv + SetupTimeout (aTiming a))))
    \<and> (\<exists>l. ops c = ops raw @ [OpTLS (Some (aNow env + HandshakeTimeout (hTiming h))), OpRead None] @ l
      \<and> set l \<subseteq> {OpWrite None, OpMux None})"
proof -
  have "\<exists>l. ops c = ops c1 @ [OpRead None] @ l \<and> set l \<subseteq> {OpWrite None, OpMux None}"
    using assms(4) listenTLS_ok [OF assms(3)]
    by (auto simp: handshake_def assms(3) writeVerdict_def split: prod.splits option.splits sum.splits
        dest!: conn_readJSON_cases) (auto simp: conn_writeJSON_def split: prod.splits)
  moreover have "isl x \<or> deadline k' = (if dRestore cenv = None then None else Some (dExchNow cenv + SetupTimeout (aTiming a)))" using exchange_ok [of a cenv k "projr x" k'] assms(2) by (cases x) auto
  ultimately show ?thesis using exchange_ops [OF assms(1,2)] listenTLS_ok [OF assms(3)] by auto
qed

theorem setup_deadlines_witness:
  "OpRead None \<in> set (ops (snd (handshake sampleRelay sampleAccept (sampleConn []))))
    \<and> ops (snd (exchange sampleAuth (sampleDial (sampleConn [])) (sampleConn []))) \<noteq> []"
proof -
  obtain x k' where x: "exchange sampleAuth (sampleDial (sampleConn [])) (sampleConn []) = (x, k')" by fastforce
  obtain c1 where c1: "listenTLS sampleAccept (hTLSConfig sampleRelay) (hTiming sampleRelay) (sampleConn []) = (None, c1)"
    by (rule listenTLS_all [of sampleAccept "hTLSConfig sampleRelay" "hTiming sampleRelay" "sampleConn []"])
      (auto simp: sampleAccept_def)
  obtain out c where c: "handshake sampleRelay sampleAccept (sampleConn []) = (out, c)" by fastforce
  show ?thesis using setup_deadlines [OF sample_facts(10) x c1 c] x c by auto
qed

text \<open>
  C28. The relay's accept loop survives failed handshakes: \<open>Run\<close> returns the session of the first
  connection that authenticates, and every earlier connection has been closed.
\<close>

theorem hs_Run_first_session:
  "hs_Run h as = (Some (Yields (Some s)), cs) \<Longrightarrow>
   \<exists>pre env raw post. as = pre @ Accepted env raw # post \<and> length cs = Suc (length pre)
     \<and> handshake h env raw = (Yields s, last cs) \<and> list_all closed (butlast cs)
     \<and> list_all (\<lambda>x. \<exists>e r err. x = Accepted e r \<and> fst (handshake h e r) = Fails err) pre"
proof (induction as arbitrary: cs)
  case (Cons x as)
  show ?case
  proof (cases x)
    case (Accepted env raw)
    then consider c where "handshake h env raw = (Yields s, c)" "cs = [c]"
      | err c cs' where "handshake h env raw = (Fails err, c)" "hs_Run h as = (Some (Yields (Some s)), cs')" "cs = conn_Close c # cs'"
      using Cons.prems by (auto split: prod.splits outcome.splits)
    then show ?thesis
    proof cases
      case 1
      then show ?thesis using Accepted by (intro exI [of _ "[]"]) auto
    next
      case 2
      then obtain pre e r post where "as = pre @ Accepted e r # post" "length cs' = Suc (length pre)"
        "handshake h e r = (Yields s, last cs')" "list_all closed (butlast cs')"
        "list_all (\<lambda>x. \<exists>e r err. x = Accepted e r \<and> fst (handshake h e r) = Fails err) pre"
        using Cons.IH by blast
      then show ?thesis using 2 Accepted
        by (intro exI [of _ "x # pre"] exI [of _ e] exI [of _ r] exI [of _ post]) auto
    qed
  qed (use Cons.prems in \<open>auto split: if_splits\<close>)
qed simp

theorem hs_Run_first_session_witness:
  "\<exists>bs s cs. hs_Run sampleRelay [Accepted sampleAccept (sampleConn []), Accepted sampleAccept (sampleConn bs)]
       = (Some (Yields (Some s)), cs) \<and> length cs = 2 \<and> list_all closed (butlast cs)"
proof -
  obtain d where d: "marshal_hello (helloOf sampleAuth) = Inr d" "length d \<le> 4096" using sample_hello by blast
  then obtain s c where s: "handshake sampleRelay sampleAccept (sampleConn (frame_bytes d)) = (Yields s, c)"
    using sample_session by blast
  obtain out c0 where h0: "handshake sampleRelay sampleAccept (sampleConn []) = (out, c0)" by fastforce
  have "read_full 4 \<lparr>pending = [[]], fate = Sentinel EOF\<rparr> = (Inl (Sentinel EOF), \<lparr>pending = [], fate = Sentinel EOF\<rparr>)"
    by (simp add: read_full_def read_full_loop.simps conn_read_def)
  then have "\<exists>err. out = Fails err" using h0
    by (auto simp: handshake_def listenTLS_def sampleAccept_def conn_simps conn_readJSON_def readJSON_def readFrame_def
        sampleConn_def frameHeaderLen_def)
  then have r: "hs_Run sampleRelay [Accepted sampleAccept (sampleConn []), Accepted sampleAccept (sampleConn (frame_bytes d))]
      = (Some (Yields (Some s)), [conn_Close c0, c])" using s h0 by auto
  from hs_Run_first_session [OF r] show ?thesis using r by (intro exI) auto
qed

text \<open>
  C25. The client holds a session only if the TLS handshake succeeded with certificate verification
  against its own trust pool, the pinned server name and minimum version, and the relay's verdict was
  positive; on every failure after the dial the connection is closed.
\<close>

theorem authenticate_trust:
  "authenticate a env = (res, c) \<Longrightarrow>
   (case res of
      Inl err \<Rightarrow> (case c of None \<Rightarrow> isl (dDial env) | Some k \<Rightarrow> closed k)
    | Inr s \<Rightarrow> SRole s = Role a
        \<and> dTLS env \<lparr>cfgServerName = aServerName a, cfgRootCAs = aRootCAs a, cfgCertificates = [],
            cfgMinVersion = aMinTLSVersion a, cfgInsecureSkipVerify = False\<rparr> = None
        \<and> (\<exists>conn resp conn'. auth_dial a env = Inr conn \<and> exchange a env conn = (Inr resp, conn')
            \<and> rStatus resp = statusOK \<and> ID s = rSessionID resp))"
  by (auto simp: authenticate_def auth_dial_def dialTLS_def SetDeadline_def clientTLS_def
      split: sum.splits prod.splits option.splits dest: exchange_ok)

theorem authenticate_trust_witness:
  "\<exists>reply s c. authenticate sampleAuth (sampleDial (sampleConn reply)) = (Inr s, c) \<and> SRole s = ModeProxy
     \<and> newSessionID (Inr (replicate 16 0)) = Some (ID s)"
proof -
  obtain reply s c where s: "authenticate sampleAuth (sampleDial (sampleConn reply)) = (Inr s, c)"
      "newSessionID (Inr (replicate 16 0)) = Some (ID s)"
    using sample_authenticates by blast
  then show ?thesis using authenticate_trust [OF s(1)] by (auto simp: sampleAuth_def)
qed

end
