(* ===== verification/Resolver.thy ===== *)
theory Resolver
  imports Access
begin

text \<open>
  \<open>src/internal/exit/resolver.go\<close>: name resolution under a concurrency limit. The lookup itself
  (\<open>net.Resolver\<close>) is an input of the step that ends it; the base context is cancelled at most once.
\<close>

section \<open>The limiter\<close>

text \<open>A buffered channel used as a semaphore: its capacity and the tokens in it.\<close>

record limiter =
  slots :: nat
  inuse :: nat

definition newLimiter :: "int \<Rightarrow> limiter" where
  "newLimiter bound = \<lparr>slots = nat (if bound < 1 then 1 else bound), inuse = 0\<rparr>"

definition limiter_acquire :: "limiter \<Rightarrow> limiter option" where
  "limiter_acquire l = (if inuse l < slots l then Some (l\<lparr>inuse := inuse l + 1\<rparr>) else None)"

definition limiter_release :: "limiter \<Rightarrow> limiter" where
  "limiter_release l = l\<lparr>inuse := inuse l - 1\<rparr>"

section \<open>Calls of Resolve\<close>

text \<open>
  One resolver with all calls made on it: a call waits for a slot, looks its name up, or has
  returned. The \<open>int\<close> of \<open>Looking\<close> is the time at which the lookup's context expires.
\<close>

datatype call = WaitingSlot string | Looking string int | Done "IP result"

record boundedResolver =
  base :: "gerr option"
  limiter :: limiter
  timeout :: int
  calls :: "call list"
  clock :: int

definition newBoundedResolver :: "int \<Rightarrow> int \<Rightarrow> boundedResolver" where
  "newBoundedResolver bound tmo = \<lparr>base = None, limiter = newLimiter bound, timeout = tmo, calls = [], clock = 0\<rparr>"

text \<open>The outcome of a finished lookup: its error, \<open>net.ErrClosed\<close> without addresses, or the first address.\<close>

definition resolve_result :: "IP list result \<Rightarrow> IP result" where
  "resolve_result addrs = (case addrs of
      Inl err \<Rightarrow> Inl err
    | Inr [] \<Rightarrow> Inl (Sentinel NetErrClosed)
    | Inr (a # _) \<Rightarrow> Inr a)"

datatype rsv_event = Call string | Acquire nat | GiveUp nat | LookupEnds nat "IP list result" | BaseDone gerr | Elapse nat

fun resolver_step :: "boundedResolver \<Rightarrow> rsv_event \<Rightarrow> boundedResolver option" where
  "resolver_step r (Call name) =
     Some (r\<lparr>calls := calls r @ [case base r of Some err \<Rightarrow> Done (Inl err) | None \<Rightarrow> WaitingSlot name]\<rparr>)"
| "resolver_step r (Acquire i) =
     (if i < length (calls r) then
        (case calls r ! i of
           WaitingSlot name \<Rightarrow>
             map_option (\<lambda>l. r\<lparr>limiter := l, calls := (calls r)[i := Looking name (clock r + timeout r)]\<rparr>)
               (limiter_acquire (limiter r))
         | _ \<Rightarrow> None)
      else None)"
| "resolver_step r (GiveUp i) =
     (if i < length (calls r) then
        (case (calls r ! i, base r) of
           (WaitingSlot name, Some err) \<Rightarrow> Some (r\<lparr>calls := (calls r)[i := Done (Inl err)]\<rparr>)
         | _ \<Rightarrow> None)
      else None)"
| "resolver_step r (LookupEnds i addrs) =
     (if i < length (calls r) then
        (case calls r ! i of
           Looking name t \<Rightarrow> Some (r\<lparr>limiter := limiter_release (limiter r),
             calls := (calls r)[i := Done (resolve_result addrs)]\<rparr>)
         | _ \<Rightarrow> None)
      else None)"
| "resolver_step r (BaseDone err) = (if base r = None then Some (r\<lparr>base := Some err\<rparr>) else None)"
| "resolver_step r (Elapse d) = Some (r\<lparr>clock := clock r + int d\<rparr>)"

section \<open>Invariant\<close>

definition is_looking :: "call \<Rightarrow> bool" where
  "is_looking c \<longleftrightarrow> (case c of Looking _ _ \<Rightarrow> True | _ \<Rightarrow> False)"

definition lookups :: "boundedResolver \<Rightarrow> nat" where
  "lookups r = length (filter is_looking (calls r))"

definition resolver_inv :: "nat \<Rightarrow> boundedResolver \<Rightarrow> bool" where
  "resolver_inv k r \<longleftrightarrow> slots (limiter r) = k \<and> inuse (limiter r) = lookups r \<and> lookups r \<le> k"

definition call_work :: "call \<Rightarrow> nat" where
  "call_work c = (case c of WaitingSlot _ \<Rightarrow> 2 | Looking _ _ \<Rightarrow> 1 | Done _ \<Rightarrow> 0)"

interpretation limiter_slots: bounded_slots "\<lambda>l. slots l = k \<and> inuse l \<le> k" inuse k limiter_acquire limiter_release for k
  by unfold_locales (auto simp: limiter_acquire_def limiter_release_def split: if_splits)

lemma resolver_event_inv:
  assumes inv: "resolver_inv k r" and step: "resolver_step r ev = Some r'"
  shows "resolver_inv k r'"
proof (cases ev)
  case (Acquire i)
  with step obtain name l where s: "i < length (calls r)" "calls r ! i = WaitingSlot name" "limiter_acquire (limiter r) = Some l"
      "r' = r\<lparr>limiter := l, calls := (calls r)[i := Looking name (clock r + timeout r)]\<rparr>"
    by (auto split: if_splits call.splits)
  then show ?thesis
    using inv filter_update [OF s(1), of is_looking "Looking name (clock r + timeout r)"]
      limiter_slots.acquire_used [of "limiter r" k l] limiter_slots.acquire_bound [of "limiter r" k l]
    by (simp add: resolver_inv_def lookups_def is_looking_def)
next
  case (LookupEnds i addrs)
  with step obtain name t where s: "i < length (calls r)" "calls r ! i = Looking name t"
      "r' = r\<lparr>limiter := limiter_release (limiter r), calls := (calls r)[i := Done (resolve_result addrs)]\<rparr>"
    by (auto split: if_splits call.splits)
  then show ?thesis
    using inv filter_update [OF s(1), of is_looking "Done (resolve_result addrs)"]
      limiter_slots.release_used [of "limiter r" k]
    by (simp add: resolver_inv_def lookups_def is_looking_def limiter_release_def)
next
  case (GiveUp i)
  with step obtain name err where s: "i < length (calls r)" "calls r ! i = WaitingSlot name"
      "r' = r\<lparr>calls := (calls r)[i := Done (Inl err)]\<rparr>"
    by (auto split: if_splits call.splits option.splits)
  then show ?thesis
    using inv filter_update [OF s(1), of is_looking "Done (Inl err)"]
    by (simp add: resolver_inv_def lookups_def is_looking_def)
qed (use inv step in \<open>auto simp: resolver_inv_def lookups_def is_looking_def newLimiter_def split: option.splits if_splits\<close>)

interpretation resolver_ok: machine_invariant "newBoundedResolver bound tmo" resolver_step
  "resolver_inv (nat (if bound < 1 then 1 else bound))" for bound tmo
  by unfold_locales
     (simp add: resolver_inv_def newBoundedResolver_def newLimiter_def lookups_def, rule resolver_event_inv)

lemma work_decreases:
  assumes "resolver_step r ev = Some r'" and "\<And>n. ev \<noteq> Call n" "\<And>d. ev \<noteq> Elapse d" "\<And>e. ev \<noteq> BaseDone e"
  shows "length (calls r') = length (calls r) \<and> sum_list (map call_work (calls r')) < sum_list (map call_work (calls r))"
  using assms
  by (cases ev) (auto split: if_splits call.splits option.splits intro!: sum_list_update_less simp: call_work_def)

section \<open>Properties\<close>

text \<open>
  C23. At most \<open>bound\<close> lookups of one resolver run at a time (one if the bound is below 1), the
  limiter's tokens are exactly the running lookups, so none is leaked, and a call made after the base
  context ended returns its error without a lookup.
\<close>

theorem resolver_bounded:
  assumes "reaches resolver_step (newBoundedResolver bound tmo) r"
  shows "lookups r \<le> max 1 (nat bound) \<and> inuse (limiter r) = lookups r
    \<and> (case base r of None \<Rightarrow> True
       | Some err \<Rightarrow> resolver_step r (Call name) = Some (r\<lparr>calls := calls r @ [Done (Inl err)]\<rparr>))"
  using resolver_ok.reaches_inv [OF assms] by (auto simp: resolver_inv_def split: if_splits option.splits)

theorem resolver_bounded_witness:
  "\<exists>r. run_events resolver_step (newBoundedResolver 1 5) [Call ''a'', Call ''b'', Acquire 1] = Some r
     \<and> lookups r \<le> 1 \<and> inuse (limiter r) = 1 \<and> resolver_step r (Acquire 0) = None"
proof -
  let ?es = "[Call ''a'', Call ''b'', Acquire 1]"
  obtain r where r: "run_events resolver_step (newBoundedResolver 1 5) ?es = Some r" "inuse (limiter r) = 1"
      "resolver_step r (Acquire 0) = None"
    by (simp add: newBoundedResolver_def newLimiter_def limiter_acquire_def)
  then show ?thesis using resolver_bounded [OF run_events_reaches [OF r(1)]] by simp
qed

text \<open>
  Teardown unblocks every call. Once the base context is done, as long as some call has not
  returned one of them can return, and every step of a call brings the resolver strictly closer to
  the state in which all have returned and the limiter is empty.
\<close>

theorem resolver_unwinds:
  assumes reach: "reaches resolver_step (newBoundedResolver bound tmo) r" and base: "base r = Some err"
  shows "(if \<exists>i < length (calls r). call_work (calls r ! i) \<noteq> 0
     then \<exists>i r'. (resolver_step r (GiveUp i) = Some r' \<or> resolver_step r (LookupEnds i (Inl err)) = Some r')
       \<and> calls r' ! i = Done (Inl err) \<and> sum_list (map call_work (calls r')) < sum_list (map call_work (calls r))
     else inuse (limiter r) = 0)"
proof (cases "\<exists>i < length (calls r). call_work (calls r ! i) \<noteq> 0")
  case True
  then obtain i where i: "i < length (calls r)" "call_work (calls r ! i) \<noteq> 0" by blast
  then have "\<exists>ev r'. (ev = GiveUp i \<or> ev = LookupEnds i (Inl err)) \<and> resolver_step r ev = Some r' \<and> calls r' ! i = Done (Inl err)"
    using base by (cases "calls r ! i") (auto simp: call_work_def resolve_result_def)
  then obtain ev r' where ev: "ev = GiveUp i \<or> ev = LookupEnds i (Inl err)" "resolver_step r ev = Some r'"
      "calls r' ! i = Done (Inl err)" by blast
  moreover have "sum_list (map call_work (calls r')) < sum_list (map call_work (calls r))"
    using ev(1) work_decreases [OF ev(2)] by blast
  ultimately show ?thesis using True by (simp del: resolver_step.simps) blast
next
  case False
  then have "\<forall>c \<in> set (calls r). \<not> is_looking c"
    by (auto simp: in_set_conv_nth is_looking_def call_work_def split: call.splits) fastforce
  then have "lookups r = 0" by (simp add: lookups_def)
  then have "inuse (limiter r) = 0" using resolver_ok.reaches_inv [OF reach] by (simp add: resolver_inv_def)
  then show ?thesis by (simp only: False if_False)
qed

theorem resolver_unwinds_witness:
  "\<exists>r i r'. run_events resolver_step (newBoundedResolver 1 5) [Call ''a'', BaseDone (Sentinel Canceled)] = Some r
     \<and> (resolver_step r (GiveUp i) = Some r' \<or> resolver_step r (LookupEnds i (Inl (Sentinel Canceled))) = Some r')
     \<and> calls r' ! i = Done (Inl (Sentinel Canceled))"
proof -
  let ?es = "[Call ''a'', BaseDone (Sentinel Canceled)]"
  obtain r where r: "run_events resolver_step (newBoundedResolver 1 5) ?es = Some r" "base r = Some (Sentinel Canceled)"
      "calls r = [WaitingSlot ''a'']"
    by (simp add: newBoundedResolver_def)
  then show ?thesis using resolver_unwinds [OF run_events_reaches [OF r(1)] r(2)]
    by (auto simp: call_work_def split: if_splits)
qed

end
