(* ===== verification/Handler.thy ===== *)
theory Handler
  imports Access Streams
begin

text \<open>
  \<open>src/internal/exit/handler.go\<close>: the exit's SOCKS5 handler. What it does to the outside world is
  a list of effects. The SOCKS5 library is an argument; \<open>socks_contract\<close> names the documented
  behaviour the handler relies on. The context watcher of \<open>ServeConn\<close> is a small machine.
\<close>

section \<open>Options\<close>

definition Sec :: int where "Sec = 1000000000"

record Options =
  oSetupTimeout :: int
  oDialTimeout :: int
  oResolveTimeout :: int
  oResolveBound :: int

definition options_defaults :: "Options \<Rightarrow> Options" where
  "options_defaults o1 =
     (let o2 = (if oSetupTimeout o1 \<le> 0 then o1\<lparr>oSetupTimeout := 15 * Sec\<rparr> else o1);
          o3 = (if oDialTimeout o2 \<le> 0 then o2\<lparr>oDialTimeout := 10 * Sec\<rparr> else o2);
          o4 = (if oResolveTimeout o3 \<le> 0 then o3\<lparr>oResolveTimeout := 5 * Sec\<rparr> else o3)
      in if oResolveBound o4 < 1 then o4\<lparr>oResolveBound := 16\<rparr> else o4)"

record Handler =
  opts :: Options
  pol :: policy

definition New :: "Options \<Rightarrow> Handler" where
  "New o1 = \<lparr>opts = options_defaults o1, pol = newPolicy\<rparr>"

section \<open>CONNECT\<close>

datatype reply = RepSuccess | RepRuleFailure | RepHostUnreachable

text \<open>
  Effects of one request: a SOCKS5 reply with the bound address, a dial of a \<open>host:port\<close> address
  under a context deadline, the close of the target, the stream's deadline, the copy of the payload
  between a client-side connection and the target, and what the library does on its own: an error
  reply, or serving a command with its built-in handler.
\<close>

datatype heff =
    SendReply reply "string option"
  | DialTarget string int
  | CloseTarget
  | SetStreamDeadline "int option"
  | Forward nconn nconn
  | LibReply
  | LibCommand nat

definition CommandConnect :: nat where "CommandConnect = 1"

record Request =
  command :: nat
  destIP :: IP
  destPort :: nat

text \<open>
  What the environment answers: the clock when \<open>ServeConn\<close> sets the stream's deadline, when it makes
  the set-up context and when \<open>handleConnect\<close> makes the dial context (the request has arrived in between);
  the dialer (the target's local address), the success reply, the lifting of the deadline.
\<close>

record connect_env =
  cStart :: int
  cSetup :: int
  cDialAt :: int
  cDial :: "string \<Rightarrow> string result"
  cReply :: "gerr option"
  cClear :: "gerr option"

definition normalise :: "IP \<Rightarrow> IP" where
  "normalise ip = (case To4 ip of Some v4 \<Rightarrow> v4 | None \<Rightarrow> ip)"

text \<open>\<open>forward\<close> runs a \<open>Duplex\<close> between the stream, wrapped to keep what was read ahead, and the target.\<close>

definition forward :: "nconn \<Rightarrow> nconn \<Rightarrow> heff" where
  "forward writer target = Forward (PayloadConn writer) target"

definition handleConnect :: "Handler \<Rightarrow> connect_env \<Rightarrow> int \<Rightarrow> nconn \<Rightarrow> Request \<Rightarrow> gerr option \<times> heff list" where
  "handleConnect h env setupDeadline writer req =
     (let ip = normalise (destIP req);
          target = JoinHostPort (IP_String ip) (show_nat (destPort req));
          dialled = DialTarget target (min setupDeadline (cDialAt env + oDialTimeout (opts h)))
      in if \<not> allowed (pol h) ip then
           (Some (Errorf ''exit: destination %s refused by policy'' []), [SendReply RepRuleFailure None])
         else case cDial env target of
           Inl err \<Rightarrow> (Some (Errorf ''exit: dial %s: %w'' [err]), [dialled, SendReply RepHostUnreachable None])
         | Inr addr \<Rightarrow>
             (case cReply env of
                Some err \<Rightarrow> (Some (Errorf ''exit: send reply: %w'' [err]),
                  [dialled, SendReply RepSuccess (Some addr), CloseTarget, CloseTarget])
              | None \<Rightarrow>
                  (case cClear env of
                     Some err \<Rightarrow> (Some err, [dialled, SendReply RepSuccess (Some addr), CloseTarget])
                   | None \<Rightarrow> (None, [dialled, SendReply RepSuccess (Some addr), SetStreamDeadline None,
                       forward writer TCPConn, CloseTarget]))))"

definition connectOnlyRule_Allow :: "nat \<Rightarrow> bool" where
  "connectOnlyRule_Allow cmd \<longleftrightarrow> cmd = CommandConnect"

section \<open>ServeConn\<close>

text \<open>
  The library, given a connection, a rule and a connect handle, serves one stream. It parses at most
  one request; unless the rule allows the request's command it only replies, a CONNECT goes to the
  handle together with the connection, any other command to its built-in handler. The writer the
  handle receives is \<open>None\<close> if it is not a \<open>net.Conn\<close>.
\<close>

type_synonym connect_handle = "nconn option \<Rightarrow> Request \<Rightarrow> gerr option \<times> heff list"
type_synonym socks_lib = "nconn \<Rightarrow> (nat \<Rightarrow> bool) \<Rightarrow> connect_handle \<Rightarrow> gerr option \<times> heff list"

definition socks_contract :: "socks_lib \<Rightarrow> bool" where
  "socks_contract lib \<longleftrightarrow> (\<forall>conn rule handle.
     (\<exists>e. lib conn rule handle = (e, [LibReply])) \<or>
     (\<exists>req. rule (command req) \<and>
        (if command req = CommandConnect then lib conn rule handle = handle (Some conn) req
         else \<exists>e. lib conn rule handle = (e, [LibCommand (command req)]))))"

definition connectHandle :: "Handler \<Rightarrow> connect_env \<Rightarrow> int \<Rightarrow> connect_handle" where
  "connectHandle h env setupDeadline writer req = (case writer of
      None \<Rightarrow> (Some (Errorf ''exit: unexpected connection wrapper'' []), [])
    | Some nc \<Rightarrow> handleConnect h env setupDeadline nc req)"

definition ServeConn :: "Handler \<Rightarrow> connect_env \<Rightarrow> gerr option \<Rightarrow> nconn \<Rightarrow> socks_lib \<Rightarrow> gerr option \<times> heff list" where
  "ServeConn h env setErr conn lib =
     (let deadline = cStart env + oSetupTimeout (opts h);
          setupDeadline = cSetup env + oSetupTimeout (opts h)
      in case setErr of
           Some err \<Rightarrow> (Some err, [])
         | None \<Rightarrow>
             (case lib conn connectOnlyRule_Allow (connectHandle h env setupDeadline) of
                (err, effs) \<Rightarrow> (err, SetStreamDeadline (Some deadline) # effs)))"

text \<open>
  The goroutine of \<open>ServeConn\<close> that watches the session: it cuts the stream when the session
  ends, unless \<open>ServeConn\<close> is over first; \<open>ServeConn\<close> joins it before it returns. The library's call
  returns when its client and its target are done, which is up to them (\<open>LibraryReturns\<close>), or because
  the session has ended and its connection was closed under it (\<open>LibraryInterrupted\<close>: every read and
  write on the stream fails then).
\<close>

record watch =
  session_done :: bool
  stop :: bool
  watcher_done :: bool
  stream_cut :: bool
  returned :: bool

datatype watch_event = SessionEnds | LibraryReturns | LibraryInterrupted | WatcherSeesSession | WatcherSeesStop | ServeConnReturns

definition watch_start :: watch where
  "watch_start = \<lparr>session_done = False, stop = False, watcher_done = False, stream_cut = False, returned = False\<rparr>"

fun watch_step :: "watch \<Rightarrow> watch_event \<Rightarrow> watch option" where
  "watch_step w SessionEnds = Some (w\<lparr>session_done := True\<rparr>)"
| "watch_step w LibraryReturns = (if stop w then None else Some (w\<lparr>stop := True\<rparr>))"
| "watch_step w LibraryInterrupted = (if stop w \<or> \<not> stream_cut w then None else Some (w\<lparr>stop := True\<rparr>))"
| "watch_step w WatcherSeesSession =
     (if watcher_done w \<or> \<not> session_done w then None else Some (w\<lparr>stream_cut := True, watcher_done := True\<rparr>))"
| "watch_step w WatcherSeesStop = (if watcher_done w \<or> \<not> stop w then None else Some (w\<lparr>watcher_done := True\<rparr>))"
| "watch_step w ServeConnReturns =
     (if stop w \<and> watcher_done w \<and> \<not> returned w then Some (w\<lparr>returned := True\<rparr>) else None)"

definition watch_inv :: "watch \<Rightarrow> bool" where
  "watch_inv w \<longleftrightarrow> (returned w \<longrightarrow> stop w \<and> watcher_done w) \<and> (stream_cut w \<longrightarrow> session_done w \<and> watcher_done w)
     \<and> (watcher_done w \<longrightarrow> stream_cut w \<or> stop w)"

interpretation watch_ok: machine_invariant watch_start watch_step watch_inv
proof unfold_locales
  fix s ev t assume "watch_inv s" "watch_step s ev = Some t"
  then show "watch_inv t" by (cases ev) (auto simp: watch_inv_def split: if_splits)
qed (simp add: watch_inv_def watch_start_def)

section \<open>Lemmas\<close>

lemma options_defaults_positive:
  "0 < oSetupTimeout (options_defaults o1) \<and> 0 < oDialTimeout (options_defaults o1)
   \<and> 0 < oResolveTimeout (options_defaults o1) \<and> 1 \<le> oResolveBound (options_defaults o1)"
  by (simp add: options_defaults_def Let_def Sec_def)

lemma normalise_v6: "length (normalise ip) = 16 \<Longrightarrow> take 12 (normalise ip) \<noteq> v4InV6Prefix"
  by (auto simp: normalise_def To4_def split: if_splits option.splits)

text \<open>The address that is dialled, as a dialer reads it: the one the policy has allowed.\<close>

definition dials :: "string \<Rightarrow> IP \<Rightarrow> nat \<Rightarrow> bool" where
  "dials addr ip port \<longleftrightarrow> (\<exists>host. SplitHostPort addr = Inr (host, show_nat port) \<and> ParseIP host = Some ip)"

lemma JoinHostPort_dials:
  "dials (JoinHostPort (IP_String ip) (show_nat port)) ip' port' \<longleftrightarrow>
     (length ip = 4 \<or> length ip = 16) \<and> ip' = As16 ip \<and> show_nat port' = show_nat port"
  using SplitHostPort_JoinHostPort [OF IP_String_brackets show_nat_plain] ParseIP_IP_String [of ip]
  by (auto simp: dials_def)

lemma handleConnect_dials:
  assumes "handleConnect h env dl conn req = (e, effs)" and "DialTarget addr t \<in> set effs"
  shows "allowed (pol h) (normalise (destIP req)) \<and> t = min dl (cDialAt env + oDialTimeout (opts h))
    \<and> addr = JoinHostPort (IP_String (normalise (destIP req))) (show_nat (destPort req))"
  using assms by (auto simp: handleConnect_def Let_def forward_def split: if_splits sum.splits option.splits)

text \<open>What an allowed address is dialled as.\<close>

lemma allowed_dialled:
  assumes "allowed newPolicy ip" and "length ip = 4 \<or> length ip = 16" and "x = As16 ip"
    and "length ip = 16 \<Longrightarrow> take 12 ip \<noteq> v4InV6Prefix"
  shows "length x = 16 \<and> (\<forall>a b c d. x = v4InV6Prefix @ [a, b, c, d] \<longrightarrow> \<not> refused_v4 (unat a) (unat b) (unat c) (unat d))
      \<and> (take 12 x \<noteq> v4InV6Prefix \<longrightarrow> \<not> refused_v6 x)"
proof -
  have l: "length v4InV6Prefix = 12" by (simp add: v4InV6Prefix_def)
  show ?thesis
  proof (cases "length ip = 4")
    case True
    then show ?thesis using assms(1,3) l allowed_v4 by (auto simp: As16_def)
  next
    case False
    then show ?thesis using assms l allowed_v6 [of ip] by (auto simp: As16_def)
  qed
qed

text \<open>Under the library's contract a served stream is one reply, or one CONNECT.\<close>

lemma ServeConn_cases:
  assumes "socks_contract lib" and "ServeConn h env setErr conn lib = (e, effs)"
  obtains (unset) err where "setErr = Some err" "effs = []"
  | (replied) "effs = [SetStreamDeadline (Some (cStart env + oSetupTimeout (opts h))), LibReply]"
  | (connect) req effs' where "command req = CommandConnect"
      "handleConnect h env (cSetup env + oSetupTimeout (opts h)) conn req = (e, effs')"
      "effs = SetStreamDeadline (Some (cStart env + oSetupTimeout (opts h))) # effs'"
proof (cases setErr)
  case None
  let ?handle = "connectHandle h env (cSetup env + oSetupTimeout (opts h))"
  obtain effs' where e: "lib conn connectOnlyRule_Allow ?handle = (e, effs')"
      "effs = SetStreamDeadline (Some (cStart env + oSetupTimeout (opts h))) # effs'"
    using assms(2) None by (auto simp: ServeConn_def Let_def split: prod.splits)
  have "(\<exists>e. lib conn connectOnlyRule_Allow ?handle = (e, [LibReply])) \<or>
      (\<exists>req. connectOnlyRule_Allow (command req) \<and>
        (if command req = CommandConnect then lib conn connectOnlyRule_Allow ?handle = ?handle (Some conn) req
         else \<exists>e. lib conn connectOnlyRule_Allow ?handle = (e, [LibCommand (command req)])))"
    using assms(1) unfolding socks_contract_def by blast
  then show ?thesis using e replied connect by (auto simp: connectOnlyRule_Allow_def connectHandle_def)
qed (use assms in \<open>auto simp: ServeConn_def Let_def intro: unset\<close>)

lemma forward_half_closes: "CloseWrite (PayloadConn YamuxStream) = SendsFIN \<and> CloseWrite TCPConn = SendsFIN"
  by (simp add: yamux_Close_def)

text \<open>
  \<open>ServeConn\<close> leaves no goroutine behind: it returns only after its watcher ended, the watcher cuts
  the stream only if the session ended, and once the library returned at most two steps are left.
\<close>

lemma ServeConn_joins_watcher:
  assumes "reaches watch_step watch_start w"
  shows "(returned w \<longrightarrow> watcher_done w) \<and> (stream_cut w \<longrightarrow> session_done w)
    \<and> (stop w \<and> \<not> returned w \<longrightarrow> watch_step w ServeConnReturns \<noteq> None \<or>
        (\<exists>w1. watch_step w WatcherSeesStop = Some w1 \<and> watch_step w1 ServeConnReturns \<noteq> None))"
  using watch_ok.reaches_inv [OF assms] by (cases "watcher_done w") (simp_all add: watch_inv_def)

text \<open>A library that hands every request of its client to the handle when the rule allows it.\<close>

lemma sample_lib_contract:
  "socks_contract (\<lambda>conn rule handle. if rule 1 then handle (Some conn) \<lparr>command = 1, destIP = ip, destPort = p\<rparr> else (None, [LibReply]))"
  unfolding socks_contract_def CommandConnect_def
  by (auto intro!: exI [of _ "\<lparr>command = 1, destIP = ip, destPort = p\<rparr>"])

section \<open>Properties\<close>

text \<open>
  C3. The exit never dials an internal destination. Whatever a client sends, every address that a
  handler with the shipped policy hands to its dialer denotes, read back as the dialer reads it, an IP
  address outside the refused IPv4 and IPv6 ranges, IPv4-mapped forms included, or no IP address at
  all; and the dial's context ends no later than the dial timeout, counted from the moment of the dial,
  and than the end of the stream's set-up context.
\<close>

theorem exit_never_dials_internal:
  assumes "socks_contract lib" and "ServeConn (New o1) env setErr conn lib = (e, effs)"
    and "DialTarget addr t \<in> set effs"
  shows "(\<forall>ip port. dials addr ip port \<longrightarrow> length ip = 16
      \<and> (\<forall>a b c d. ip = v4InV6Prefix @ [a, b, c, d] \<longrightarrow> \<not> refused_v4 (unat a) (unat b) (unat c) (unat d))
      \<and> (take 12 ip \<noteq> v4InV6Prefix \<longrightarrow> \<not> refused_v6 ip))
    \<and> t \<le> cDialAt env + oDialTimeout (options_defaults o1) \<and> t \<le> cSetup env + oSetupTimeout (options_defaults o1)"
  using assms(1,2)
proof (cases rule: ServeConn_cases)
  case (connect req effs')
  define ip where "ip = normalise (destIP req)"
  have d: "allowed newPolicy ip" "addr = JoinHostPort (IP_String ip) (show_nat (destPort req))"
      "t = min (cSetup env + oSetupTimeout (options_defaults o1)) (cDialAt env + oDialTimeout (options_defaults o1))"
    using handleConnect_dials [OF connect(2)] connect(3) assms(3) by (auto simp: New_def ip_def)
  have "length x = 16 \<and> (\<forall>a b c d. x = v4InV6Prefix @ [a, b, c, d] \<longrightarrow> \<not> refused_v4 (unat a) (unat b) (unat c) (unat d))
      \<and> (take 12 x \<noteq> v4InV6Prefix \<longrightarrow> \<not> refused_v6 x)" if "dials addr x p" for x p
    using that allowed_dialled [OF d(1)] normalise_v6 [of "destIP req"] unfolding d(2) JoinHostPort_dials ip_def by blast
  then show ?thesis using d(3) by auto
qed (use assms(3) in auto)

theorem exit_never_dials_internal_witness:
  "\<exists>e effs addr. ServeConn (New \<lparr>oSetupTimeout = 0, oDialTimeout = 0, oResolveTimeout = 0, oResolveBound = 0\<rparr>)
      \<lparr>cStart = 0, cSetup = 1, cDialAt = 9000000000, cDial = (\<lambda>_. Inr ''203.0.113.7:5000''), cReply = None, cClear = None\<rparr> None YamuxStream
      (\<lambda>conn rule handle. if rule 1 then handle (Some conn) \<lparr>command = 1, destIP = v4InV6Prefix @ [8, 8, 8, 8], destPort = 443\<rparr> else (None, [LibReply]))
      = (e, effs) \<and> DialTarget addr 15000000001 \<in> set effs \<and> dials addr (v4InV6Prefix @ [8, 8, 8, 8]) 443 \<and> \<not> refused_v4 8 8 8 8"
proof -
  let ?o = "\<lparr>oSetupTimeout = 0, oDialTimeout = 0, oResolveTimeout = 0, oResolveBound = 0\<rparr>"
  let ?env = "\<lparr>cStart = 0, cSetup = 1, cDialAt = 9000000000, cDial = (\<lambda>_. Inr ''203.0.113.7:5000''), cReply = None, cClear = None\<rparr>"
  let ?lib = "\<lambda>conn rule handle. if rule 1 then handle (Some conn) \<lparr>command = 1, destIP = v4InV6Prefix @ [8, 8, 8, 8], destPort = 443\<rparr> else (None, [LibReply])"
  define addr where "addr = JoinHostPort (IP_String [8, 8, 8, 8]) (show_nat 443)"
  have a: "allowed newPolicy [8, 8, 8, 8]" by (simp add: allowed_v4 refused_v4_def)
  have n: "normalise (v4InV6Prefix @ [8, 8, 8, 8]) = [8, 8, 8, 8]" by (simp add: normalise_def To4_def v4InV6Prefix_def)
  obtain e effs where s: "ServeConn (New ?o) ?env None YamuxStream ?lib = (e, effs)" "DialTarget addr 15000000001 \<in> set effs"
    by (simp add: ServeConn_def Let_def connectOnlyRule_Allow_def CommandConnect_def connectHandle_def handleConnect_def New_def
        options_defaults_def Sec_def n a addr_def [symmetric])
  have "dials addr (v4InV6Prefix @ [8, 8, 8, 8]) 443" by (simp add: addr_def JoinHostPort_dials As16_def)
  then show ?thesis using exit_never_dials_internal [OF sample_lib_contract s] s by fastforce
qed

text \<open>
  C36. The life of a CONNECT. Only CONNECT requests are served. Only addresses that the
  handler's policy allows are dialled. Success is reported only after the dial succeeded, with the target's own address; the
  payload is copied only after that reply and after the set-up deadline was lifted; a target that was
  dialled is closed last, on every path.
\<close>

theorem connect_lifecycle:
  assumes "socks_contract lib" and "ServeConn h env setErr conn lib = (e, effs)"
  shows "(\<forall>cmd. LibCommand cmd \<notin> set effs)
    \<and> (DialTarget addr t \<in> set effs \<longrightarrow> (\<exists>ip port. allowed (pol h) ip \<and> addr = JoinHostPort (IP_String ip) (show_nat port)))
    \<and> (SendReply RepSuccess a \<in> set effs \<longrightarrow>
        (\<exists>dst t local. DialTarget dst t \<in> set effs \<and> cDial env dst = Inr local \<and> a = Some local \<and> last effs = CloseTarget))
    \<and> (Forward c tgt \<in> set effs \<longrightarrow> e = None \<and> c = PayloadConn conn \<and>
        (\<exists>local pre. effs = pre @ [SendReply RepSuccess (Some local), SetStreamDeadline None, Forward c tgt, CloseTarget]))"
  using assms
proof (cases rule: ServeConn_cases)
  case (connect req effs')
  have "DialTarget addr t \<in> set effs \<Longrightarrow> \<exists>ip port. allowed (pol h) ip \<and> addr = JoinHostPort (IP_String ip) (show_nat port)"
    using handleConnect_dials [OF connect(2)] connect(3) by auto
  moreover have "(\<forall>cmd. LibCommand cmd \<notin> set effs)
    \<and> (SendReply RepSuccess a \<in> set effs \<longrightarrow>
        (\<exists>dst t local. DialTarget dst t \<in> set effs \<and> cDial env dst = Inr local \<and> a = Some local \<and> last effs = CloseTarget))
    \<and> (Forward c tgt \<in> set effs \<longrightarrow> e = None \<and> c = PayloadConn conn \<and>
        (\<exists>local pre. effs = pre @ [SendReply RepSuccess (Some local), SetStreamDeadline None, Forward c tgt, CloseTarget]))"
    using connect by (auto simp: handleConnect_def Let_def forward_def split: if_splits sum.splits option.splits)
  ultimately show ?thesis by blast
qed auto

theorem connect_lifecycle_witness:
  "\<exists>e effs. ServeConn (New \<lparr>oSetupTimeout = 0, oDialTimeout = 0, oResolveTimeout = 0, oResolveBound = 0\<rparr>)
      \<lparr>cStart = 0, cSetup = 1, cDialAt = 9000000000, cDial = (\<lambda>_. Inr ''203.0.113.7:5000''), cReply = None, cClear = None\<rparr> None YamuxStream
      (\<lambda>conn rule handle. if rule 1 then handle (Some conn) \<lparr>command = 1, destIP = [8, 8, 8, 8], destPort = 443\<rparr> else (None, [LibReply]))
      = (e, effs) \<and> e = None \<and> Forward (PayloadConn YamuxStream) TCPConn \<in> set effs"
proof -
  let ?o = "\<lparr>oSetupTimeout = 0, oDialTimeout = 0, oResolveTimeout = 0, oResolveBound = 0\<rparr>"
  let ?env = "\<lparr>cStart = 0, cSetup = 1, cDialAt = 9000000000, cDial = (\<lambda>_. Inr ''203.0.113.7:5000''), cReply = None, cClear = None\<rparr>"
  let ?lib = "\<lambda>conn rule handle. if rule 1 then handle (Some conn) \<lparr>command = 1, destIP = [8, 8, 8, 8], destPort = 443\<rparr> else (None, [LibReply])"
  have a: "allowed newPolicy [8, 8, 8, 8]" by (simp add: allowed_v4 refused_v4_def)
  have n: "normalise [8, 8, 8, 8] = [8, 8, 8, 8]" by (simp add: normalise_def To4_def)
  obtain e effs where s: "ServeConn (New ?o) ?env None YamuxStream ?lib = (e, effs)"
      "Forward (PayloadConn YamuxStream) TCPConn \<in> set effs"
    by (simp add: ServeConn_def Let_def connectOnlyRule_Allow_def CommandConnect_def connectHandle_def handleConnect_def New_def
        n a forward_def)
  from connect_lifecycle [OF sample_lib_contract s(1)] show ?thesis using s by blast
qed

end
