(* ===== verification/Service.thy ===== *)
theory Service
  imports Registry
begin

text \<open>
  \<open>src/internal/relay/service.go\<close>: the relay's session workers and its shutdown, as a machine
  whose events are the atomic steps of the accept goroutine, of each worker and of \<open>Run\<close>. A session is
  the index of its worker; \<open>wclosed\<close> says that its yamux session is closed.
\<close>

section \<open>State\<close>

text \<open>
  A worker goroutine: spawned; registered and about to close the session it replaced; in its serve
  loop; past the loop and about to close its own session; past that; past \<open>Vacate\<close>; ended. The
  generation is the one \<open>Register\<close> returned.
\<close>

datatype wphase = Spawned | Replacing "64 word" nat | Serving "64 word" | Closing "64 word" | Leaving "64 word"
  | Vacated | Finished

record worker =
  wrole :: Mode
  wphase :: wphase
  wclosed :: bool

datatype spc = Running | WaitAccept | WaitWorkers | Returned "gerr option"

record service =
  reg :: "nat registry"
  sessions :: "nat set"
  workers :: "worker list"
  accepting :: bool
  ctx :: "gerr option"
  svcCancelled :: bool
  spc :: spc

definition NewService :: service where
  "NewService = \<lparr>reg = NewRegistry, sessions = {}, workers = [], accepting = True, ctx = None,
     svcCancelled = False, spc = Running\<rparr>"

section \<open>Operations\<close>

definition register :: "nat \<Rightarrow> service \<Rightarrow> service" where
  "register session s = s\<lparr>sessions := insert session (sessions s)\<rparr>"

definition close_session :: "nat \<Rightarrow> worker list \<Rightarrow> worker list" where
  "close_session i ws = (if i < length ws then ws[i := (ws ! i)\<lparr>wclosed := True\<rparr>] else ws)"

definition closeAll :: "service \<Rightarrow> service" where
  "closeAll s = s\<lparr>workers := map (\<lambda>(i, w). if i \<in> sessions s then w\<lparr>wclosed := True\<rparr> else w)
     (zip [0..<length (workers s)] (workers s))\<rparr>"

definition set_phase :: "nat \<Rightarrow> wphase \<Rightarrow> worker list \<Rightarrow> worker list" where
  "set_phase i p ws = ws[i := (ws ! i)\<lparr>wphase := p\<rparr>]"

text \<open>The role's serve loop; another role has none and the worker returns.\<close>

definition started :: "Mode \<Rightarrow> 64 word \<Rightarrow> wphase" where
  "started role g = (if role \<in> {ModeProxy, ModeExit} then Serving g else Leaving g)"

datatype svc_event =
    AcceptSession Mode
  | AcceptEnds
  | WorkerRegisters nat
  | WorkerClosesPrev nat
  | ServeReturns nat
  | WorkerCloses nat
  | WorkerVacates nat
  | WorkerEnds nat
  | PeerCloses nat
  | CtxDone gerr
  | ShutdownStarts
  | AcceptJoined
  | WorkersJoined

text \<open>
  \<open>serveSession\<close> is \<open>WorkerRegisters\<close>, then \<open>WorkerClosesPrev\<close> when there was a holder to replace
  (the close is outside the registry's lock: any other step may come in between), \<open>ServeReturns\<close>,
  \<open>WorkerCloses\<close> and its deferred calls \<open>WorkerVacates\<close> and \<open>WorkerEnds\<close>. A serve loop returns when
  its session is closed or the service context is done.
\<close>

fun service_step :: "service \<Rightarrow> svc_event \<Rightarrow> service option" where
  "service_step s (AcceptSession role) =
     (if accepting s then
        Some ((register (length (workers s)) s)\<lparr>workers := workers s @ [\<lparr>wrole = role, wphase = Spawned, wclosed = False\<rparr>]\<rparr>)
      else None)"
| "service_step s AcceptEnds = (if accepting s then Some (s\<lparr>accepting := False\<rparr>) else None)"
| "service_step s (WorkerRegisters i) =
     (if i < length (workers s) \<and> wphase (workers s ! i) = Spawned then
        (case Register (reg s) (wrole (workers s ! i)) (Some i) of
           (prev, g, r) \<Rightarrow>
             Some (s\<lparr>reg := r, workers := set_phase i
               (case prev of None \<Rightarrow> started (wrole (workers s ! i)) g | Some p \<Rightarrow> Replacing g p) (workers s)\<rparr>))
      else None)"
| "service_step s (WorkerClosesPrev i) =
     (if i < length (workers s) then
        (case wphase (workers s ! i) of
           Replacing g p \<Rightarrow> Some (s\<lparr>workers := set_phase i (started (wrole (workers s ! i)) g) (close_session p (workers s))\<rparr>)
         | _ \<Rightarrow> None)
      else None)"
| "service_step s (ServeReturns i) =
     (if i < length (workers s) \<and> (wclosed (workers s ! i) \<or> svcCancelled s \<or> ctx s \<noteq> None) then
        (case wphase (workers s ! i) of
           Serving g \<Rightarrow> Some (s\<lparr>workers := set_phase i (Closing g) (workers s)\<rparr>)
         | _ \<Rightarrow> None)
      else None)"
| "service_step s (WorkerCloses i) =
     (if i < length (workers s) then
        (case wphase (workers s ! i) of
           Closing g \<Rightarrow> Some (s\<lparr>workers := set_phase i (Leaving g) (close_session i (workers s))\<rparr>)
         | _ \<Rightarrow> None)
      else None)"
| "service_step s (WorkerVacates i) =
     (if i < length (workers s) then
        (case wphase (workers s ! i) of
           Leaving g \<Rightarrow> Some (s\<lparr>reg := Vacate (reg s) (wrole (workers s ! i)) g,
             workers := set_phase i Vacated (workers s)\<rparr>)
         | _ \<Rightarrow> None)
      else None)"
| "service_step s (WorkerEnds i) =
     (if i < length (workers s) \<and> wphase (workers s ! i) = Vacated
      then Some (s\<lparr>sessions := sessions s - {i}, workers := set_phase i Finished (workers s)\<rparr>) else None)"
| "service_step s (PeerCloses i) =
     (if i < length (workers s) then Some (s\<lparr>workers := close_session i (workers s)\<rparr>) else None)"
| "service_step s (CtxDone err) = (if ctx s = None then Some (s\<lparr>ctx := Some err\<rparr>) else None)"
| "service_step s ShutdownStarts =
     (if spc s = Running \<and> (ctx s \<noteq> None \<or> \<not> accepting s) then Some (s\<lparr>spc := WaitAccept\<rparr>) else None)"
| "service_step s AcceptJoined =
     (if spc s = WaitAccept \<and> \<not> accepting s
      then Some ((closeAll s)\<lparr>svcCancelled := True, spc := WaitWorkers\<rparr>) else None)"
| "service_step s WorkersJoined =
     (if spc s = WaitWorkers \<and> list_all (\<lambda>w. wphase w = Finished) (workers s)
      then Some (s\<lparr>spc := Returned (ctx s)\<rparr>) else None)"

section \<open>Invariant\<close>

text \<open>The generation a worker is registered with, and whether it is registered and has not closed its own session yet.\<close>

fun holds :: "wphase \<Rightarrow> 64 word option" where
  "holds (Replacing g p) = Some g"
| "holds (Serving g) = Some g"
| "holds (Closing g) = Some g"
| "holds (Leaving g) = Some g"
| "holds _ = None"

fun unretired :: "wphase \<Rightarrow> bool" where
  "unretired (Replacing g p) = True"
| "unretired (Serving g) = True"
| "unretired (Closing g) = True"
| "unretired _ = False"

text \<open>A session that a worker of its role has replaced and is about to close.\<close>

fun replaces :: "wphase \<Rightarrow> nat option" where
  "replaces (Replacing g p) = Some p"
| "replaces _ = None"

definition victim :: "worker list \<Rightarrow> nat \<Rightarrow> bool" where
  "victim ws i \<longleftrightarrow> (\<exists>j < length ws. wrole (ws ! j) = wrole (ws ! i) \<and> replaces (wphase (ws ! j)) = Some i)"

text \<open>A registration belongs to a worker that has not vacated it yet.\<close>

definition inv_reg :: "nat registry \<Rightarrow> worker list \<Rightarrow> bool" where
  "inv_reg r ws \<longleftrightarrow> (\<forall>k i g. Current r k = Some (i, g) \<longrightarrow>
     i < length ws \<and> wrole (ws ! i) = k \<and> holds (wphase (ws ! i)) = Some g)"

definition inv_sessions :: "nat set \<Rightarrow> worker list \<Rightarrow> bool" where
  "inv_sessions ss ws \<longleftrightarrow> ss = {i. i < length ws \<and> wphase (ws ! i) \<noteq> Finished}"

definition inv_shutdown :: "service \<Rightarrow> bool" where
  "inv_shutdown s \<longleftrightarrow> (spc s \<notin> {Running, WaitAccept} \<longrightarrow> \<not> accepting s \<and> svcCancelled s
       \<and> (\<forall>i < length (workers s). wphase (workers s ! i) \<noteq> Finished \<longrightarrow> wclosed (workers s ! i)))
     \<and> (spc s \<notin> {Running, WaitAccept, WaitWorkers} \<longrightarrow> list_all (\<lambda>w. wphase w = Finished) (workers s))"

text \<open>Registry operations a worker has performed.\<close>

definition reg_ops :: "worker \<Rightarrow> nat" where
  "reg_ops w = (case wphase w of Spawned \<Rightarrow> 0 | Vacated \<Rightarrow> 2 | Finished \<Rightarrow> 2 | _ \<Rightarrow> 1)"

definition op_count :: "worker list \<Rightarrow> nat" where
  "op_count ws = sum_list (map reg_ops ws)"

text \<open>
  As long as the generation counters have not wrapped: no worker holds a generation above its
  slot's, one that holds the slot's own generation is the holder, and an open session of a worker that
  is registered and not past its serve loop is the holder or about to be closed by a successor.
\<close>

definition gen_bound :: "nat registry \<Rightarrow> worker list \<Rightarrow> bool" where
  "gen_bound r ws \<longleftrightarrow> (\<forall>i < length ws. \<forall>g. holds (wphase (ws ! i)) = Some g \<longrightarrow>
     unat g \<le> unat (slot_gen r (wrole (ws ! i)))
     \<and> (g = slot_gen r (wrole (ws ! i)) \<longrightarrow> Current r (wrole (ws ! i)) = Some (i, g)))"

definition open_held :: "nat registry \<Rightarrow> worker list \<Rightarrow> bool" where
  "open_held r ws \<longleftrightarrow> (\<forall>i < length ws. unretired (wphase (ws ! i)) \<and> \<not> wclosed (ws ! i) \<longrightarrow>
     (\<exists>g. Current r (wrole (ws ! i)) = Some (i, g)) \<or> victim ws i)"

definition inv_gen :: "nat registry \<Rightarrow> worker list \<Rightarrow> bool" where
  "inv_gen r ws \<longleftrightarrow> op_count ws < 2 ^ 64 \<longrightarrow>
     (\<forall>k. unat (slot_gen r k) \<le> op_count ws) \<and> gen_bound r ws \<and> open_held r ws"

definition service_inv :: "service \<Rightarrow> bool" where
  "service_inv s \<longleftrightarrow> inv_reg (reg s) (workers s) \<and> inv_sessions (sessions s) (workers s) \<and> inv_shutdown s
     \<and> inv_gen (reg s) (workers s)"

definition worker_work :: "worker \<Rightarrow> nat" where
  "worker_work w = (case wphase w of Spawned \<Rightarrow> 6 | Replacing _ _ \<Rightarrow> 5 | Serving _ \<Rightarrow> 4 | Closing _ \<Rightarrow> 3
     | Leaving _ \<Rightarrow> 2 | Vacated \<Rightarrow> 1 | Finished \<Rightarrow> 0)"

declare register_def [simp]

lemma started_simps [simp]:
  "holds (started k g) = Some g" "started k g \<notin> {Spawned, Vacated, Finished}" "started k g \<noteq> Replacing h p"
  "started k g \<noteq> Spawned" "started k g \<noteq> Vacated" "started k g \<noteq> Finished"
  by (simp_all add: started_def)

lemma holds_phase: "holds p = Some g \<Longrightarrow> p \<noteq> Spawned \<and> p \<noteq> Vacated \<and> p \<noteq> Finished"
  by (cases p) simp_all

lemma holds_ops: "holds (wphase w) = Some g \<Longrightarrow> reg_ops w = 1"
  by (cases "wphase w") (simp_all add: reg_ops_def)

section \<open>Worker lists\<close>

lemma length_close_session [simp]: "length (close_session i ws) = length ws"
  by (simp add: close_session_def)

lemma length_set_phase [simp]: "length (set_phase i p ws) = length ws"
  by (simp add: set_phase_def)

lemma close_session_nth [simp]:
  "j < length ws \<Longrightarrow> close_session i ws ! j = (ws ! j)\<lparr>wclosed := wclosed (ws ! j) \<or> i = j\<rparr>"
  by (auto simp: close_session_def nth_list_update)

lemma set_phase_nth [simp]:
  "j < length ws \<Longrightarrow> set_phase i p ws ! j = (if i = j then (ws ! j)\<lparr>wphase := p\<rparr> else ws ! j)"
  by (auto simp: set_phase_def nth_list_update)

text \<open>\<open>ws'\<close> is \<open>ws\<close> with some sessions closed.\<close>

definition closes_some :: "worker list \<Rightarrow> worker list \<Rightarrow> bool" where
  "closes_some ws ws' \<longleftrightarrow> length ws' = length ws \<and> (\<forall>j < length ws. wrole (ws' ! j) = wrole (ws ! j)
     \<and> wphase (ws' ! j) = wphase (ws ! j) \<and> (wclosed (ws ! j) \<longrightarrow> wclosed (ws' ! j)))"

lemma closes_close [simp]: "closes_some ws (close_session i ws)"
  by (simp add: closes_some_def)

lemma closeAll_sel [simp]: "reg (closeAll s) = reg s" "sessions (closeAll s) = sessions s"
  by (simp_all add: closeAll_def)

lemma closeAll_workers [simp]:
  "length (workers (closeAll s)) = length (workers s)"
  "j < length (workers s) \<Longrightarrow> workers (closeAll s) ! j
     = (if j \<in> sessions s then (workers s ! j)\<lparr>wclosed := True\<rparr> else workers s ! j)"
  by (simp_all add: closeAll_def)

lemma closes_all: "closes_some (workers s) (workers (closeAll s))"
  by (simp add: closes_some_def)

lemma inv_sessions_spawn:
  "inv_sessions ss ws \<Longrightarrow> inv_sessions (insert (length ws) ss) (ws @ [\<lparr>wrole = k, wphase = Spawned, wclosed = c\<rparr>])"
  by (auto simp: inv_sessions_def nth_append less_Suc_eq)

lemma op_count_closes: "closes_some ws ws' \<Longrightarrow> op_count ws' = op_count ws"
  by (auto simp: op_count_def closes_some_def reg_ops_def intro!: arg_cong [of _ _ sum_list] nth_equalityI)

lemma inv_reg_closes: "closes_some ws ws' \<Longrightarrow> inv_reg r ws \<Longrightarrow> inv_reg r ws'"
  by (fastforce simp: inv_reg_def closes_some_def)

lemma inv_gen_closes:
  assumes c: "closes_some ws ws'" and inv: "inv_gen r ws"
  shows "inv_gen r ws'"
proof -
  have v: "victim ws' i = victim ws i" if "i < length ws" for i using c that by (auto simp: victim_def closes_some_def)
  have "gen_bound r ws' = gen_bound r ws" using c by (auto simp: gen_bound_def closes_some_def)
  moreover have "open_held r ws'" if "open_held r ws" using that c v by (fastforce simp: open_held_def closes_some_def)
  ultimately show ?thesis using inv op_count_closes [OF c] by (simp add: inv_gen_def)
qed

lemma inv_sessions_closes: "closes_some ws ws' \<Longrightarrow> inv_sessions ss ws = inv_sessions ss ws'"
  by (auto simp: inv_sessions_def closes_some_def)

lemma op_count_phase:
  "i < length ws \<Longrightarrow> op_count (set_phase i p ws) + reg_ops (ws ! i) = op_count ws + reg_ops ((ws ! i)\<lparr>wphase := p\<rparr>)"
  unfolding op_count_def set_phase_def by (rule sum_list_update_eq)

lemma unat_inc64: "unat (x :: 64 word) < 2 ^ 64 - 1 \<Longrightarrow> unat (x + 1) = unat x + 1"
  by (simp add: unat_word_ariths)

section \<open>Registration and retirement\<close>

lemma register_facts:
  assumes "Register r k (Some i) = (prev, g, r')"
  shows "Current r' = (Current r)(k \<mapsto> (i, g))" and "prev = map_option fst (Current r k)"
    and "g = slot_gen r k + 1" and "slot_gen r' = (slot_gen r)(k := g)"
  using relay_slots.register_holder [OF assms] relay_slots.register_prev [OF assms] assms
  by (auto simp: Register_def slot_gen_def Let_def fun_eq_iff split: option.splits)

lemma vacate_slot_gen:
  "slot_gen (Vacate r k g) j = (if j = k \<and> slots r k \<noteq> None \<and> slot_gen r k = g then g + 1 else slot_gen r j)"
  by (auto simp: Vacate_def slot_gen_def split: option.splits)

lemma current_gen: "Current r k = Some (m, g) \<Longrightarrow> slot_gen r k = g"
  by (auto simp: Current_def slot_gen_def split: option.splits)

lemma gen_boundD:
  assumes "gen_bound r ws" and "i < length ws" and "holds (wphase (ws ! i)) = Some g"
  shows "unat g \<le> unat (slot_gen r (wrole (ws ! i)))"
    and "g = slot_gen r (wrole (ws ! i)) \<Longrightarrow> Current r (wrole (ws ! i)) = Some (i, g)"
  using assms unfolding gen_bound_def by blast+

text \<open>A worker that is not replacing another does not make a session lose its successor by its own step.\<close>

lemma victim_phase:
  assumes "victim ws j" and "j < length ws" and "replaces (wphase (ws ! i)) \<noteq> Some j"
  shows "victim (set_phase i p ws) j"
proof -
  obtain m where m: "m < length ws" "wrole (ws ! m) = wrole (ws ! j)" "replaces (wphase (ws ! m)) = Some j"
    using assms(1) by (auto simp: victim_def)
  then have "m \<noteq> i" using assms(3) by auto
  then show ?thesis using m assms(2) unfolding victim_def by (intro exI [of _ m]) simp
qed

lemma inv_gen_register:
  assumes inv: "inv_gen r ws" and i: "i < length ws" "wphase (ws ! i) = Spawned"
    and reg: "Register r (wrole (ws ! i)) (Some i) = (prev, g, r')"
    and p: "p = (case prev of None \<Rightarrow> started (wrole (ws ! i)) g | Some q \<Rightarrow> Replacing g q)"
  shows "inv_gen r' (set_phase i p ws)"
  unfolding inv_gen_def
proof (intro impI conjI)
  assume lt: "op_count (set_phase i p ws) < 2 ^ 64"
  let ?k = "wrole (ws ! i)"
  note f = register_facts [OF reg]
  have hp: "holds p = Some g" using p by (auto split: option.splits)
  have cnt: "op_count (set_phase i p ws) = op_count ws + 1"
    using op_count_phase [of i ws p] i holds_ops [of "(ws ! i)\<lparr>wphase := p\<rparr>"] hp by (simp add: reg_ops_def)
  then have le: "unat (slot_gen r k) \<le> op_count ws" and gb: "gen_bound r ws" and oh: "open_held r ws" for k
    using inv lt unfolding inv_gen_def by auto
  have "unat (slot_gen r ?k) < 2 ^ 64 - 1" using le [of ?k] cnt lt by linarith
  then have g: "unat g = unat (slot_gen r ?k) + 1" using unat_inc64 f(3) by simp
  show "\<forall>k. unat (slot_gen r' k) \<le> op_count (set_phase i p ws)"
    using le g f(4) cnt by (auto intro: le_SucI)
  show "gen_bound r' (set_phase i p ws)"
    unfolding gen_bound_def
  proof (intro allI impI)
    fix j h assume "j < length (set_phase i p ws)" "holds (wphase (set_phase i p ws ! j)) = Some h"
    then show "unat h \<le> unat (slot_gen r' (wrole (set_phase i p ws ! j))) \<and> (h = slot_gen r' (wrole (set_phase i p ws ! j))
        \<longrightarrow> Current r' (wrole (set_phase i p ws ! j)) = Some (j, h))"
      using gen_boundD [OF gb, of j h] g f(1,4) hp by (cases "j = i") (auto simp: le_SucI)
  qed
  show "open_held r' (set_phase i p ws)"
    unfolding open_held_def
  proof (intro allI impI)
    fix j assume j: "j < length (set_phase i p ws)"
      "unretired (wphase (set_phase i p ws ! j)) \<and> \<not> wclosed (set_phase i p ws ! j)"
    show "(\<exists>h. Current r' (wrole (set_phase i p ws ! j)) = Some (j, h)) \<or> victim (set_phase i p ws) j"
    proof (cases "j = i")
      case True
      then show ?thesis using f(1) i by simp
    next
      case ne: False
      then have "(\<exists>h. Current r (wrole (ws ! j)) = Some (j, h)) \<or> victim ws j" using oh j by (simp add: open_held_def)
      then show ?thesis
      proof
        assume "victim ws j"
        then show ?thesis using victim_phase [of ws j i p] i(2) j by simp
      next
        assume cur: "\<exists>h. Current r (wrole (ws ! j)) = Some (j, h)"
        show ?thesis
        proof (cases "wrole (ws ! j) = ?k")
          case True
          then obtain h where "Current r ?k = Some (j, h)" using cur by metis
          then have "replaces p = Some j" by (simp add: p f(2))
          moreover have "set_phase i p ws ! i = (ws ! i)\<lparr>wphase := p\<rparr>" using i(1) by simp
          moreover have "set_phase i p ws ! j = ws ! j" using ne j(1) by simp
          ultimately have "victim (set_phase i p ws) j" using i(1) True unfolding victim_def by (intro exI [of _ i]) simp
          then show ?thesis ..
        next
          case False
          then show ?thesis using cur f(1) j(1) by simp
        qed
      qed
    qed
  qed
qed

lemma inv_gen_vacate:
  assumes inv: "inv_gen r ws" and i: "i < length ws" "wphase (ws ! i) = Leaving g"
  shows "inv_gen (Vacate r (wrole (ws ! i)) g) (set_phase i Vacated ws)"
  unfolding inv_gen_def
proof (intro impI conjI)
  let ?k = "wrole (ws ! i)" and ?ws = "set_phase i Vacated ws"
  let ?r = "Vacate r ?k g"
  assume lt: "op_count ?ws < 2 ^ 64"
  have cnt: "op_count ?ws = op_count ws + 1" using op_count_phase [of i ws Vacated] i by (simp add: reg_ops_def)
  then have le: "unat (slot_gen r k) \<le> op_count ws" and gb: "gen_bound r ws" and oh: "open_held r ws" for k
    using inv lt unfolding inv_gen_def by auto
  note own = gen_boundD [OF gb i(1), of g]
  have c: "Current ?r = (if \<exists>m. Current r ?k = Some (m, g) then (Current r)(?k := None) else Current r)"
    using relay_slots.vacate_holder [of r ?k g] by simp
  have cur: "Current r ?k = Some (i, g)" "slots r ?k \<noteq> None" if "slot_gen r ?k = g"
  proof -
    show "Current r ?k = Some (i, g)" using own(2) [OF _ that [symmetric]] i(2) by simp
    then show "slots r ?k \<noteq> None" by (auto simp: Current_def split: option.splits)
  qed
  have "unat g < 2 ^ 64 - 1" if "slot_gen r ?k = g" using le [of ?k] cnt lt unfolding that by linarith
  then have u: "unat (g + 1) = unat g + 1" if "slot_gen r ?k = g" using that by (simp add: unat_inc64)
  have mono: "unat (slot_gen r j) \<le> unat (slot_gen ?r j)" and top: "unat (slot_gen ?r j) \<le> op_count ws + 1" for j
    using u le [of j] by (auto simp: vacate_slot_gen le_SucI)
  have stay: "Current ?r (wrole (ws ! j)) = Current r (wrole (ws ! j))" if "Current r (wrole (ws ! j)) = Some (j, h)" "j \<noteq> i" for j h
  proof (cases "wrole (ws ! j) = ?k")
    case True
    have "slot_gen r ?k \<noteq> g" using cur(1) that True by auto
    then have "Current ?r = Current r" using c current_gen [of r ?k] by (simp split: if_splits)
    then show ?thesis by simp
  qed (simp add: c)
  show "\<forall>k. unat (slot_gen ?r k) \<le> op_count ?ws" using top cnt by simp
  show "gen_bound ?r ?ws"
    unfolding gen_bound_def
  proof (intro allI impI)
    fix j h assume j: "j < length ?ws" "holds (wphase (?ws ! j)) = Some h"
    then have ji: "j \<noteq> i" by auto
    then have b: "unat h \<le> unat (slot_gen r (wrole (ws ! j)))" "h = slot_gen r (wrole (ws ! j)) \<Longrightarrow> Current r (wrole (ws ! j)) = Some (j, h)"
      using gen_boundD [OF gb, of j h] j by auto
    moreover have "h = slot_gen r (wrole (ws ! j))" if "h = slot_gen ?r (wrole (ws ! j))"
      using that b(1) u by (auto simp: vacate_slot_gen split: if_splits)
    ultimately show "unat h \<le> unat (slot_gen ?r (wrole (?ws ! j))) \<and> (h = slot_gen ?r (wrole (?ws ! j))
        \<longrightarrow> Current ?r (wrole (?ws ! j)) = Some (j, h))"
      using mono [of "wrole (ws ! j)"] stay [of j h] ji j(1) by auto
  qed
  show "open_held ?r ?ws"
    unfolding open_held_def
  proof (intro allI impI)
    fix j assume j: "j < length ?ws" "unretired (wphase (?ws ! j)) \<and> \<not> wclosed (?ws ! j)"
    then have ji: "j \<noteq> i" by auto
    then have "(\<exists>h. Current r (wrole (ws ! j)) = Some (j, h)) \<or> victim ws j" using oh j by (simp add: open_held_def)
    then show "(\<exists>h. Current ?r (wrole (?ws ! j)) = Some (j, h)) \<or> victim ?ws j"
      using stay [of j] ji victim_phase [of ws j i Vacated] i(2) j(1) by auto
  qed
qed

text \<open>A step that keeps the registrations: the worker's generation stays, it closes what it was about to replace.\<close>

lemma inv_gen_phase:
  assumes inv: "inv_gen r ws" and i: "i < length ws" and ops: "reg_ops ((ws ! i)\<lparr>wphase := p\<rparr>) = reg_ops (ws ! i)"
    and h: "holds p = holds (wphase (ws ! i))" and l: "unretired p \<longrightarrow> unretired (wphase (ws ! i))"
    and c: "\<And>q. replaces (wphase (ws ! i)) = Some q \<Longrightarrow> q < length ws \<Longrightarrow> wclosed (ws ! q)"
  shows "inv_gen r (set_phase i p ws)"
proof -
  have "op_count (set_phase i p ws) = op_count ws" using op_count_phase [OF i, of p] ops by simp
  moreover have "gen_bound r (set_phase i p ws)" if "gen_bound r ws" using that h by (auto simp: gen_bound_def)
  moreover have "open_held r (set_phase i p ws)" if oh: "open_held r ws"
    unfolding open_held_def
  proof (intro allI impI)
    fix j assume j: "j < length (set_phase i p ws)" "unretired (wphase (set_phase i p ws ! j)) \<and> \<not> wclosed (set_phase i p ws ! j)"
    then have "(\<exists>g. Current r (wrole (ws ! j)) = Some (j, g)) \<or> victim ws j" "\<not> wclosed (ws ! j)"
      using oh l by (auto simp: open_held_def split: if_splits)
    moreover have "victim (set_phase i p ws) j" if "victim ws j"
      using victim_phase [OF that] c [of j] j(1) \<open>\<not> wclosed (ws ! j)\<close> by auto
    ultimately show "(\<exists>g. Current r (wrole (set_phase i p ws ! j)) = Some (j, g)) \<or> victim (set_phase i p ws) j"
      using j(1) by auto
  qed
  ultimately show ?thesis using inv by (simp add: inv_gen_def)
qed

lemma inv_gen_spawn:
  "inv_gen r ws \<Longrightarrow> inv_gen r (ws @ [\<lparr>wrole = k, wphase = Spawned, wclosed = c\<rparr>])"
  by (auto simp: inv_gen_def gen_bound_def open_held_def victim_def op_count_def reg_ops_def nth_append less_Suc_eq)

section \<open>Every event keeps the invariant\<close>

text \<open>The ways a worker step changes the worker list.\<close>

lemma WorkerRegisters_cases:
  assumes "service_step s (WorkerRegisters i) = Some t"
  obtains prev g r p where "i < length (workers s)" "wphase (workers s ! i) = Spawned"
    "Register (reg s) (wrole (workers s ! i)) (Some i) = (prev, g, r)"
    "p = (case prev of None \<Rightarrow> started (wrole (workers s ! i)) g | Some q \<Rightarrow> Replacing g q)"
    "holds p = Some g" "t = s\<lparr>reg := r, workers := set_phase i p (workers s)\<rparr>"
proof -
  obtain prev g r where r: "i < length (workers s)" "wphase (workers s ! i) = Spawned"
      "Register (reg s) (wrole (workers s ! i)) (Some i) = (prev, g, r)"
    using assms by (auto split: if_splits prod.splits)
  show thesis
    by (rule that [OF r refl]) (use assms r in \<open>auto split: option.splits\<close>)
qed

lemma WorkerClosesPrev_cases:
  assumes "service_step s (WorkerClosesPrev i) = Some t"
  obtains g q where "i < length (workers s)" "wphase (workers s ! i) = Replacing g q"
    "t = s\<lparr>workers := set_phase i (started (wrole (workers s ! i)) g) (close_session q (workers s))\<rparr>"
  using assms by (auto split: if_splits wphase.splits)

lemma ServeReturns_cases:
  assumes "service_step s (ServeReturns i) = Some t"
  obtains g where "i < length (workers s)" "wphase (workers s ! i) = Serving g"
    "t = s\<lparr>workers := set_phase i (Closing g) (workers s)\<rparr>"
  using assms by (auto split: if_splits wphase.splits)

lemma WorkerCloses_cases:
  assumes "service_step s (WorkerCloses i) = Some t"
  obtains g where "i < length (workers s)" "wphase (workers s ! i) = Closing g"
    "t = s\<lparr>workers := set_phase i (Leaving g) (close_session i (workers s))\<rparr>"
  using assms by (auto split: if_splits wphase.splits)

lemma WorkerVacates_cases:
  assumes "service_step s (WorkerVacates i) = Some t"
  obtains g where "i < length (workers s)" "wphase (workers s ! i) = Leaving g"
    "t = s\<lparr>reg := Vacate (reg s) (wrole (workers s ! i)) g, workers := set_phase i Vacated (workers s)\<rparr>"
  using assms by (auto split: if_splits wphase.splits)

text \<open>
  The steps of a worker that leave the registry alone: some session may be closed, and the worker
  moves to a later phase with the generation it has.
\<close>

lemma quiet_step_cases:
  assumes "service_step s ev = Some t" and "ev \<in> {WorkerClosesPrev i, ServeReturns i, WorkerCloses i}"
  obtains ws p where "i < length (workers s)" "closes_some (workers s) ws" "t = s\<lparr>workers := set_phase i p ws\<rparr>"
    "holds p = holds (wphase (workers s ! i))" "holds p \<noteq> None" "unretired (wphase (workers s ! i))"
    "\<And>q. replaces (wphase (workers s ! i)) = Some q \<Longrightarrow> q < length ws \<Longrightarrow> wclosed (ws ! q)"
    "worker_work ((workers s ! i)\<lparr>wphase := p\<rparr>) < worker_work (workers s ! i)"
proof -
  have self: "closes_some (workers s) (workers s)" by (simp add: closes_some_def)
  consider "ev = WorkerClosesPrev i" | "ev = ServeReturns i" | "ev = WorkerCloses i" using assms(2) by blast
  then show thesis
  proof cases
    case 1
    from assms(1) [unfolded 1] obtain g q where s: "i < length (workers s)" "wphase (workers s ! i) = Replacing g q"
        "t = s\<lparr>workers := set_phase i (started (wrole (workers s ! i)) g) (close_session q (workers s))\<rparr>"
      by (rule WorkerClosesPrev_cases)
    show thesis
      by (rule that [OF s(1) closes_close s(3)]) (use s in \<open>auto simp: worker_work_def started_def\<close>)
  next
    case 2
    from assms(1) [unfolded 2] obtain g where s: "i < length (workers s)" "wphase (workers s ! i) = Serving g"
        "t = s\<lparr>workers := set_phase i (Closing g) (workers s)\<rparr>"
      by (rule ServeReturns_cases)
    show thesis
      by (rule that [OF s(1) self s(3)]) (use s in \<open>auto simp: worker_work_def\<close>)
  next
    case 3
    from assms(1) [unfolded 3] obtain g where s: "i < length (workers s)" "wphase (workers s ! i) = Closing g"
        "t = s\<lparr>workers := set_phase i (Leaving g) (close_session i (workers s))\<rparr>"
      by (rule WorkerCloses_cases)
    show thesis
      by (rule that [OF s(1) closes_close s(3)]) (use s in \<open>auto simp: worker_work_def\<close>)
  qed
qed

lemma inv_reg_phase:
  assumes "inv_reg r ws" and "i < length ws" and "holds p = holds (wphase (ws ! i))"
  shows "inv_reg r (set_phase i p ws)"
  using assms by (fastforce simp: inv_reg_def)

lemma quiet_step_inv:
  assumes "service_step s ev = Some t" and "ev \<in> {WorkerClosesPrev i, ServeReturns i, WorkerCloses i}"
  shows "inv_reg (reg s) (workers s) \<Longrightarrow> inv_reg (reg t) (workers t)"
    and "inv_gen (reg s) (workers s) \<Longrightarrow> inv_gen (reg t) (workers t)"
proof -
  obtain ws p where s: "i < length (workers s)" "closes_some (workers s) ws" "t = s\<lparr>workers := set_phase i p ws\<rparr>"
      "holds p = holds (wphase (workers s ! i))" "holds p \<noteq> None" "unretired (wphase (workers s ! i))"
      "\<And>q. replaces (wphase (workers s ! i)) = Some q \<Longrightarrow> q < length ws \<Longrightarrow> wclosed (ws ! q)"
    using quiet_step_cases [OF assms] by metis
  have w: "i < length ws" "wphase (ws ! i) = wphase (workers s ! i)" using s(1,2) by (auto simp: closes_some_def)
  have ops: "reg_ops ((ws ! i)\<lparr>wphase := p\<rparr>) = reg_ops (ws ! i)"
    using s(4,5) w(2) holds_ops [of "ws ! i"] holds_ops [of "(ws ! i)\<lparr>wphase := p\<rparr>"] by auto
  show "inv_reg (reg t) (workers t)" if "inv_reg (reg s) (workers s)"
    using inv_reg_phase [OF inv_reg_closes [OF s(2) that] w(1)] s(3,4) w(2) by simp
  show "inv_gen (reg t) (workers t)" if "inv_gen (reg s) (workers s)"
    using inv_gen_phase [OF inv_gen_closes [OF s(2) that] w(1) ops] s(3,4,6,7) w(2) by simp
qed

lemma inv_reg_step:
  assumes "inv_reg (reg s) (workers s)" and "service_step s ev = Some t"
  shows "inv_reg (reg t) (workers t)"
proof (cases ev)
  case (WorkerRegisters i)
  from assms(2) [unfolded this] show ?thesis
  proof (rule WorkerRegisters_cases)
    fix prev g r p
    assume s: "i < length (workers s)" "wphase (workers s ! i) = Spawned"
      "Register (reg s) (wrole (workers s ! i)) (Some i) = (prev, g, r)"
      "holds p = Some g" "t = s\<lparr>reg := r, workers := set_phase i p (workers s)\<rparr>"
    then show ?thesis using assms(1) register_facts(1) [OF s(3)] by (fastforce simp: inv_reg_def)
  qed
next
  case (WorkerVacates i)
  from assms(2) [unfolded this] show ?thesis
    by (rule WorkerVacates_cases) (use assms(1) in \<open>fastforce simp: inv_reg_def relay_slots.vacate_holder split: if_splits\<close>)
next
  case (AcceptSession k)
  then show ?thesis using assms by (fastforce simp: inv_reg_def nth_append split: if_splits)
next
  case (WorkerClosesPrev i)
  then show ?thesis using quiet_step_inv(1) [OF assms(2) _ assms(1)] by simp
next
  case (ServeReturns i)
  then show ?thesis using quiet_step_inv(1) [OF assms(2) _ assms(1)] by simp
next
  case (WorkerCloses i)
  then show ?thesis using quiet_step_inv(1) [OF assms(2) _ assms(1)] by simp
next
  case AcceptJoined
  then show ?thesis using assms inv_reg_closes [OF closes_all assms(1)] by (auto split: if_splits)
next
  case (PeerCloses i)
  then show ?thesis using assms inv_reg_closes [OF closes_close] by (auto split: if_splits)
next
  case (WorkerEnds i)
  then show ?thesis using assms by (fastforce simp: inv_reg_def split: if_splits)
qed (use assms in \<open>auto split: if_splits\<close>)

lemma inv_gen_step:
  assumes "inv_gen (reg s) (workers s)" and "service_step s ev = Some t"
  shows "inv_gen (reg t) (workers t)"
proof (cases ev)
  case (WorkerRegisters i)
  from assms(2) [unfolded this] show ?thesis
    by (rule WorkerRegisters_cases) (use inv_gen_register [OF assms(1)] in auto)
next
  case (WorkerVacates i)
  from assms(2) [unfolded this] show ?thesis
    by (rule WorkerVacates_cases) (use inv_gen_vacate [OF assms(1)] in simp)
next
  case (AcceptSession k)
  then show ?thesis using assms by (auto intro: inv_gen_spawn split: if_splits)
next
  case (WorkerClosesPrev i)
  then show ?thesis using quiet_step_inv(2) [OF assms(2) _ assms(1)] by simp
next
  case (ServeReturns i)
  then show ?thesis using quiet_step_inv(2) [OF assms(2) _ assms(1)] by simp
next
  case (WorkerCloses i)
  then show ?thesis using quiet_step_inv(2) [OF assms(2) _ assms(1)] by simp
next
  case AcceptJoined
  then show ?thesis using assms inv_gen_closes [OF closes_all assms(1)] by (auto split: if_splits)
next
  case (PeerCloses i)
  then show ?thesis using assms inv_gen_closes [OF closes_close] by (auto split: if_splits)
next
  case (WorkerEnds i)
  then show ?thesis using assms inv_gen_phase [OF assms(1), of i Finished] by (auto simp: reg_ops_def split: if_splits)
qed (use assms in \<open>auto split: if_splits\<close>)

lemma inv_sessions_phase:
  assumes "inv_sessions ss ws" and "i < length ws" and "wphase (ws ! i) \<noteq> Finished"
  shows "inv_sessions (if p = Finished then ss - {i} else ss) (set_phase i p ws)"
  using assms by (auto simp: inv_sessions_def split: if_splits)

lemma inv_sessions_quiet:
  assumes "inv_sessions (sessions s) (workers s)" and "service_step s ev = Some t"
    and "ev \<in> {WorkerClosesPrev i, ServeReturns i, WorkerCloses i}"
  shows "inv_sessions (sessions t) (workers t)"
  using assms(2,3)
proof (rule quiet_step_cases)
  fix ws p
  assume s: "i < length (workers s)" "closes_some (workers s) ws" "t = s\<lparr>workers := set_phase i p ws\<rparr>"
    "holds p = holds (wphase (workers s ! i))" "holds p \<noteq> None"
  have "inv_sessions (sessions s) ws" "i < length ws" "wphase (ws ! i) = wphase (workers s ! i)"
    using assms(1) inv_sessions_closes [OF s(2)] s(1,2) by (auto simp: closes_some_def)
  moreover have "p \<noteq> Finished" "wphase (workers s ! i) \<noteq> Finished" using s(4,5) by auto
  ultimately show ?thesis using s(3) inv_sessions_phase [of "sessions s" ws i p] by simp
qed

lemma inv_sessions_step:
  assumes "inv_sessions (sessions s) (workers s)" and "service_step s ev = Some t"
  shows "inv_sessions (sessions t) (workers t)"
proof (cases ev)
  case AcceptJoined
  then show ?thesis using assms inv_sessions_closes [OF closes_all [of s], of "sessions s"] by (auto split: if_splits)
next
  case (AcceptSession k)
  then show ?thesis using assms inv_sessions_spawn [OF assms(1)] by (auto split: if_splits)
next
  case (WorkerRegisters i)
  from assms(2) [unfolded this] show ?thesis
  proof (rule WorkerRegisters_cases)
    fix p g r
    assume s: "i < length (workers s)" "wphase (workers s ! i) = Spawned" "holds p = Some g"
      "t = s\<lparr>reg := r, workers := set_phase i p (workers s)\<rparr>"
    then show ?thesis using inv_sessions_phase [OF assms(1) s(1), of p] holds_phase [OF s(3)] by simp
  qed
next
  case (WorkerClosesPrev i)
  then show ?thesis using inv_sessions_quiet [OF assms] by simp
next
  case (ServeReturns i)
  then show ?thesis using inv_sessions_quiet [OF assms] by simp
next
  case (WorkerCloses i)
  then show ?thesis using inv_sessions_quiet [OF assms] by simp
next
  case (WorkerVacates i)
  then show ?thesis using assms inv_sessions_phase [OF assms(1), of i Vacated] by (auto split: if_splits wphase.splits)
next
  case (WorkerEnds i)
  then show ?thesis using assms inv_sessions_phase [OF assms(1), of i Finished] by (auto split: if_splits)
next
  case (PeerCloses i)
  then show ?thesis using assms inv_sessions_closes [OF closes_close [of "workers s" i], of "sessions s"] by (auto split: if_splits)
qed (use assms in \<open>auto split: if_splits\<close>)

lemma inv_shutdown_quiet:
  assumes "inv_shutdown s" and "service_step s ev = Some t"
    and "ev \<in> {WorkerClosesPrev i, ServeReturns i, WorkerCloses i}"
  shows "inv_shutdown t"
  using assms(2,3)
proof (rule quiet_step_cases)
  fix ws p
  assume s: "i < length (workers s)" "closes_some (workers s) ws" "t = s\<lparr>workers := set_phase i p ws\<rparr>"
    "holds p = holds (wphase (workers s ! i))" "holds p \<noteq> None"
  have "wphase (workers s ! i) \<noteq> Finished" using s(4,5) by auto
  moreover from this have "\<not> list_all (\<lambda>w. wphase w = Finished) (workers s)" using s(1) by (auto simp: list_all_length)
  ultimately show ?thesis using assms(1) s(2,3) by (auto simp: inv_shutdown_def closes_some_def)
qed

lemma inv_shutdown_step:
  assumes "inv_shutdown s" and "inv_sessions (sessions s) (workers s)" and "service_step s ev = Some t"
  shows "inv_shutdown t"
proof (cases ev)
  case AcceptJoined
  then have "\<not> accepting s" "t = (closeAll s)\<lparr>svcCancelled := True, spc := WaitWorkers\<rparr>" "accepting (closeAll s) = accepting s"
    using assms(3) by (auto simp: closeAll_def split: if_splits)
  moreover have "sessions s = {i. i < length (workers s) \<and> wphase (workers s ! i) \<noteq> Finished}"
    using assms(2) unfolding inv_sessions_def .
  ultimately show ?thesis by (simp add: inv_shutdown_def)
next
  case (WorkerRegisters i)
  then obtain p r g where s: "i < length (workers s)" "wphase (workers s ! i) = Spawned"
      "holds p = Some g" "t = s\<lparr>reg := r, workers := set_phase i p (workers s)\<rparr>"
    using assms(3) by (metis WorkerRegisters_cases)
  moreover have "\<not> list_all (\<lambda>w. wphase w = Finished) (workers s)" using s(1,2) by (auto simp: list_all_length)
  ultimately show ?thesis using assms(1) by (auto simp: inv_shutdown_def)
next
  case (WorkerClosesPrev i)
  then show ?thesis using inv_shutdown_quiet [OF assms(1,3)] by simp
next
  case (ServeReturns i)
  then show ?thesis using inv_shutdown_quiet [OF assms(1,3)] by simp
next
  case (WorkerCloses i)
  then show ?thesis using inv_shutdown_quiet [OF assms(1,3)] by simp
next
  case (WorkerVacates i)
  from assms(3) [unfolded this] show ?thesis
    by (rule WorkerVacates_cases) (use assms(1) in \<open>auto simp: inv_shutdown_def list_all_length\<close>)
qed (use assms in \<open>auto simp: inv_shutdown_def list_all_length split: if_splits\<close>)

interpretation service_ok: machine_invariant NewService service_step service_inv
proof unfold_locales
  show "service_inv NewService"
    by (simp add: service_inv_def NewService_def NewRegistry_def inv_reg_def inv_sessions_def inv_shutdown_def
        inv_gen_def gen_bound_def open_held_def Current_def slot_gen_def)
next
  fix s ev t assume "service_inv s" "service_step s ev = Some t"
  then show "service_inv t"
    unfolding service_inv_def using inv_reg_step inv_sessions_step inv_shutdown_step inv_gen_step by blast
qed

section \<open>Shutdown\<close>

lemma op_count_bound: "op_count ws \<le> 2 * length ws"
  by (induction ws) (auto simp: op_count_def reg_ops_def split: wphase.splits)

lemma work_phase:
  assumes "i < length ws" and "worker_work ((ws ! i)\<lparr>wphase := p\<rparr>) < worker_work (ws ! i)" and "closes_some ws ws'"
  shows "sum_list (map worker_work (set_phase i p ws')) < sum_list (map worker_work ws)"
proof -
  have m: "map worker_work ws' = map worker_work ws"
    using assms(3) by (auto simp: closes_some_def worker_work_def intro!: nth_equalityI)
  have "worker_work ((ws' ! i)\<lparr>wphase := p\<rparr>) < worker_work (ws' ! i)" "i < length ws'"
    using assms by (auto simp: closes_some_def worker_work_def split: wphase.splits)
  then show ?thesis unfolding set_phase_def m [symmetric] by (intro sum_list_update_less) auto
qed

text \<open>Every step of a worker brings it closer to its end.\<close>

lemma worker_step_decreases:
  assumes "service_step s ev = Some t"
    and "ev \<in> {WorkerRegisters i, WorkerClosesPrev i, ServeReturns i, WorkerCloses i, WorkerVacates i, WorkerEnds i}"
  shows "sum_list (map worker_work (workers t)) < sum_list (map worker_work (workers s))"
proof -
  have self: "closes_some (workers s) (workers s)" by (simp add: closes_some_def)
  consider "ev = WorkerRegisters i" | "ev \<in> {WorkerClosesPrev i, ServeReturns i, WorkerCloses i}"
    | "ev = WorkerVacates i \<or> ev = WorkerEnds i" using assms(2) by blast
  then show ?thesis
  proof cases
    case 1
    from assms(1) [unfolded 1] show ?thesis
      by (rule WorkerRegisters_cases)
        (use work_phase [OF _ _ self, of i] in \<open>auto simp: worker_work_def started_def split: option.splits\<close>)
  next
    case 2
    from assms(1) this show ?thesis by (rule quiet_step_cases) (use work_phase in auto)
  next
    case 3
    then show ?thesis using assms(1) work_phase [of i "workers s" _ "workers s"] self
      by (auto simp: worker_work_def split: if_splits wphase.splits)
  qed
qed

section \<open>Properties\<close>

lemma victim_closes:
  assumes "victim (workers s) i" and "i < length (workers s)"
  shows "\<exists>j t. wrole (workers s ! j) = wrole (workers s ! i) \<and> replaces (wphase (workers s ! j)) = Some i
    \<and> service_step s (WorkerClosesPrev j) = Some t \<and> i < length (workers t) \<and> wclosed (workers t ! i)"
proof -
  obtain j h where "j < length (workers s)" "wrole (workers s ! j) = wrole (workers s ! i)" "wphase (workers s ! j) = Replacing h i"
    using assms(1) by (auto simp: victim_def elim!: replaces.elims)
  then show ?thesis using assms(2) by (intro exI [of _ j]) simp
qed

text \<open>
  C8. One live session per role. In every reachable state with fewer than 2^63 sessions so far, a
  session that is being served and is not closed is the one its role's slot holds, or a worker of the
  role has replaced it and its very next step, which is enabled, closes it. So of two open sessions of
  one role that are both served at least one is about to be closed by its successor, and none are when
  no worker of the role stands between \<open>Register\<close> and \<open>prev.Close()\<close>.
\<close>

theorem service_one_live_session:
  assumes "reaches service_step NewService s" and "length (workers s) < 2 ^ 63"
    and "i < length (workers s)" and "wphase (workers s ! i) = Serving g" and "\<not> wclosed (workers s ! i)"
  shows "(Current (reg s) (wrole (workers s ! i)) = Some (i, g) \<or> victim (workers s) i)
    \<and> (victim (workers s) i \<longrightarrow> (\<exists>j t. wrole (workers s ! j) = wrole (workers s ! i)
         \<and> service_step s (WorkerClosesPrev j) = Some t \<and> wclosed (workers t ! i)))
    \<and> (\<forall>j h. j < length (workers s) \<and> wphase (workers s ! j) = Serving h \<and> \<not> wclosed (workers s ! j)
         \<and> wrole (workers s ! j) = wrole (workers s ! i) \<and> j \<noteq> i \<longrightarrow> victim (workers s) i \<or> victim (workers s) j)"
proof -
  have "op_count (workers s) < 2 ^ 64" using op_count_bound [of "workers s"] assms(2) by simp
  then have inv: "inv_reg (reg s) (workers s)" "open_held (reg s) (workers s)"
    using service_ok.reaches_inv [OF assms(1)] by (simp_all add: service_inv_def inv_gen_def)
  then have held: "Current (reg s) (wrole (workers s ! j)) = Some (j, h) \<or> victim (workers s) j"
    if "j < length (workers s)" "wphase (workers s ! j) = Serving h" "\<not> wclosed (workers s ! j)" for j h
    using that by (fastforce simp: open_held_def inv_reg_def)
  then show ?thesis using held [OF assms(3-5)] victim_closes [OF _ assms(3)] by (metis option.inject prod.inject)
qed

theorem service_one_live_session_witness:
  "\<exists>s. run_events service_step NewService
      [AcceptSession ModeExit, WorkerRegisters 0, AcceptSession ModeExit, WorkerRegisters 1] = Some s
     \<and> Current (reg s) ModeExit = Some (1, 2) \<and> (\<exists>j t. service_step s (WorkerClosesPrev j) = Some t \<and> wclosed (workers t ! 0))"
proof -
  let ?es = "[AcceptSession ModeExit, WorkerRegisters 0, AcceptSession ModeExit, WorkerRegisters 1]"
  obtain s where s: "run_events service_step NewService ?es = Some s" "length (workers s) = 2"
      "wphase (workers s ! 0) = Serving 1" "\<not> wclosed (workers s ! 0)"
      "wrole (workers s ! 0) = ModeExit" "Current (reg s) ModeExit = Some (1, 2)"
    by (simp add: NewService_def NewRegistry_def Register_def Current_def set_phase_def started_def)
  then have "victim (workers s) 0" using service_one_live_session [OF run_events_reaches [OF s(1)], of 0 1] by simp
  then have "\<exists>j t. service_step s (WorkerClosesPrev j) = Some t \<and> wclosed (workers t ! 0)"
    using service_one_live_session [OF run_events_reaches [OF s(1)], of 0 1] s(2-4) by (simp del: service_step.simps) blast
  then show ?thesis using s(1,6) by (intro exI [of _ s] conjI)
qed

text \<open>
  C20. Shutdown terminates. Once the accept goroutine is joined, as long as some worker has not ended
  one of them can take a step, each worker step strictly decreases the work left, and when all have
  ended \<open>Run\<close> can return.
\<close>

theorem service_shutdown_terminates:
  assumes "reaches service_step NewService s" and "spc s = WaitWorkers"
  shows "if \<exists>i < length (workers s). wphase (workers s ! i) \<noteq> Finished
    then \<exists>i ev t. ev \<in> {WorkerRegisters i, WorkerClosesPrev i, ServeReturns i, WorkerCloses i, WorkerVacates i, WorkerEnds i} \<and> service_step s ev = Some t
      \<and> spc t = WaitWorkers \<and> sum_list (map worker_work (workers t)) < sum_list (map worker_work (workers s))
    else service_step s WorkersJoined = Some (s\<lparr>spc := Returned (ctx s)\<rparr>)"
proof (cases "\<exists>i < length (workers s). wphase (workers s ! i) \<noteq> Finished")
  case True
  then obtain i where i: "i < length (workers s)" "wphase (workers s ! i) \<noteq> Finished" by blast
  moreover have "wclosed (workers s ! i)"
    using service_ok.reaches_inv [OF assms(1)] assms(2) i by (simp add: service_inv_def inv_shutdown_def)
  ultimately obtain ev t where ev: "ev \<in> {WorkerRegisters i, WorkerClosesPrev i, ServeReturns i, WorkerCloses i, WorkerVacates i, WorkerEnds i}"
      "service_step s ev = Some t" "spc t = WaitWorkers"
    using assms(2) by (cases "wphase (workers s ! i)") (fastforce split: prod.splits simp: Let_def)+
  then show ?thesis using True worker_step_decreases [OF ev(2,1)] by (simp only: True if_True) blast
next
  case False
  then show ?thesis unfolding if_not_P [OF False] using assms(2) by (simp add: list_all_length)
qed

theorem service_shutdown_terminates_witness:
  "\<exists>s ev t. run_events service_step NewService [AcceptSession ModeProxy, CtxDone (Sentinel Canceled), AcceptEnds,
      ShutdownStarts, AcceptJoined] = Some s \<and> service_step s ev = Some t
     \<and> sum_list (map worker_work (workers t)) < sum_list (map worker_work (workers s))"
proof -
  let ?es = "[AcceptSession ModeProxy, CtxDone (Sentinel Canceled), AcceptEnds, ShutdownStarts, AcceptJoined]"
  obtain s where s: "run_events service_step NewService ?es = Some s" "spc s = WaitWorkers"
      "length (workers s) = 1" "wphase (workers s ! 0) \<noteq> Finished"
    by (simp add: NewService_def NewRegistry_def closeAll_def)
  then have "\<exists>i < length (workers s). wphase (workers s ! i) \<noteq> Finished" by auto
  then show ?thesis
    using service_shutdown_terminates [OF run_events_reaches [OF s(1)] s(2)] s(1) by (simp only: if_True) blast
qed

text \<open>
  Nothing outlives \<open>Run\<close>: when it has returned, every worker has ended, no role is registered,
  no session is recorded and no new session can be accepted.
\<close>

theorem service_returns_clean:
  assumes "reaches service_step NewService s" and "spc s = Returned e"
  shows "list_all (\<lambda>w. wphase w = Finished) (workers s) \<and> Current (reg s) k = None \<and> sessions s = {}
    \<and> service_step s (AcceptSession role) = None"
proof -
  have inv: "service_inv s" using service_ok.reaches_inv [OF assms(1)] .
  then have fin: "list_all (\<lambda>w. wphase w = Finished) (workers s)" "\<not> accepting s"
    using assms(2) by (auto simp: service_inv_def inv_shutdown_def)
  then have "sessions s = {}" using inv by (auto simp: service_inv_def inv_sessions_def list_all_length)
  moreover have "Current (reg s) k = None"
    using inv fin(1) by (cases "Current (reg s) k") (fastforce simp: service_inv_def inv_reg_def list_all_length)+
  ultimately show ?thesis using fin by simp
qed

theorem service_returns_clean_witness:
  "\<exists>s. run_events service_step NewService [AcceptSession ModeProxy, WorkerRegisters 0, AcceptEnds, ShutdownStarts,
      AcceptJoined, ServeReturns 0, WorkerCloses 0, WorkerVacates 0, WorkerEnds 0, WorkersJoined] = Some s
     \<and> Current (reg s) ModeProxy = None \<and> sessions s = {}"
proof -
  let ?es = "[AcceptSession ModeProxy, WorkerRegisters 0, AcceptEnds, ShutdownStarts,
      AcceptJoined, ServeReturns 0, WorkerCloses 0, WorkerVacates 0, WorkerEnds 0, WorkersJoined]"
  obtain s where s: "run_events service_step NewService ?es = Some s" "spc s = Returned None"
    by (simp add: NewService_def NewRegistry_def Register_def closeAll_def close_session_def set_phase_def started_def)
  then show ?thesis using service_returns_clean [OF run_events_reaches [OF s(1)] s(2)] by blast
qed

text \<open>
  Registration follows the order in which the worker goroutines run, not the order in which the
  sessions were accepted: an older session can displace, and close, the newer one of its role.
\<close>

theorem older_session_may_win:
  "\<exists>s. run_events service_step NewService
      [AcceptSession ModeExit, AcceptSession ModeExit, WorkerRegisters 1, WorkerRegisters 0, WorkerClosesPrev 0] = Some s
     \<and> Current (reg s) ModeExit = Some (0, 2) \<and> wclosed (workers s ! 1) \<and> \<not> wclosed (workers s ! 0)"
  by (simp add: NewService_def NewRegistry_def Register_def Current_def close_session_def set_phase_def started_def)

text \<open>
  Between \<open>Register\<close> and \<open>prev.Close()\<close> more than one replaced session of a role can be open: the
  middle one of three is preempted before it closes the first, which goes on being served next to the
  third.
\<close>

theorem replaced_sessions_may_overlap:
  "\<exists>s. run_events service_step NewService
      [AcceptSession ModeExit, WorkerRegisters 0, AcceptSession ModeExit, WorkerRegisters 1,
       AcceptSession ModeExit, WorkerRegisters 2, WorkerClosesPrev 2] = Some s
     \<and> wphase (workers s ! 0) = Serving 1 \<and> \<not> wclosed (workers s ! 0)
     \<and> wphase (workers s ! 2) = Serving 3 \<and> \<not> wclosed (workers s ! 2)"
  by (simp add: NewService_def NewRegistry_def Register_def close_session_def set_phase_def started_def)

end
