(* ===== verification/Listener.thy ===== *)
theory Listener
  imports Framing Streams
begin

text \<open>
  \<open>src/internal/proxy/listener.go\<close>: admission of browser connections, the SOCKS5 authentication
  methods offered, and the hand-over of a request to the exit over a relay stream. A relay stream is a
  reader (what the exit sends) and a writer (what reaches the exit).
\<close>

section \<open>State and admission\<close>

definition MaxPending :: nat where "MaxPending = 256"

record listener =
  sem :: nat
  username :: string
  password :: string

text \<open>\<open>New\<close> takes its credentials as a variadic argument; fewer than two disable authentication.\<close>

definition NewListener :: "string list \<Rightarrow> listener" where
  "NewListener credentials = (case credentials of
      u # p # _ \<Rightarrow> \<lparr>sem = 0, username = u, password = p\<rparr>
    | _ \<Rightarrow> \<lparr>sem = 0, username = [], password = []\<rparr>)"

text \<open>Both semaphore operations never block: \<open>release\<close> of an empty channel does nothing.\<close>

definition acquire :: "listener \<Rightarrow> listener option" where
  "acquire l = (if sem l < MaxPending then Some (l\<lparr>sem := sem l + 1\<rparr>) else None)"

definition release :: "listener \<Rightarrow> listener" where
  "release l = (if 0 < sem l then l\<lparr>sem := sem l - 1\<rparr> else l)"

datatype auth_method = NoAuth | UserPass "(string \<times> string) list"

definition authMethods :: "listener \<Rightarrow> auth_method list" where
  "authMethods l = (if username l = [] \<and> password l = [] then [NoAuth] else [UserPass [(username l, password l)]])"

section \<open>Handing a request to the exit\<close>

function writeFull :: "writer \<Rightarrow> bytes \<Rightarrow> gerr option \<times> writer" where
  "writeFull w d =
     (if d = [] then (None, w)
      else case conn_write w d of
        ((n, Some err), w') \<Rightarrow> (Some err, w')
      | ((n, None), w') \<Rightarrow>
          if n = 0 then (Some (Sentinel IoErrShortWrite), w') else writeFull w' (drop n d))"
  by pat_completeness auto
termination
  by (relation "measure (\<lambda>(w, d). length d)") auto

declare writeFull.simps [simp del]

definition forwardRequest :: "reader \<Rightarrow> writer \<Rightarrow> bytes \<Rightarrow> gerr option \<times> reader \<times> writer" where
  "forwardRequest r w request = (case writeFull w [0x05, 0x01, 0x00] of
      (Some err, w1) \<Rightarrow> (Some (Errorf ''proxy: start exit SOCKS5 negotiation: %w'' [err]), r, w1)
    | (None, w1) \<Rightarrow>
        (case read_full 2 r of
           (Inl err, r1) \<Rightarrow> (Some (Errorf ''proxy: read exit SOCKS5 method selection: %w'' [err]), r1, w1)
         | (Inr methodReply, r1) \<Rightarrow>
             if methodReply \<noteq> [0x05, 0x00] then
               (Some (Errorf ''proxy: exit rejected SOCKS5 no-auth negotiation: %x'' []), r1, w1)
             else case writeFull w1 request of
               (Some err, w2) \<Rightarrow> (Some (Errorf ''proxy: forward request: %w'' [err]), r1, w2)
             | (None, w2) \<Rightarrow> (None, r1, w2)))"

text \<open>\<open>Session.OpenStream\<close> of \<open>session.go\<close> around yamux's.\<close>

definition Session_OpenStream :: "'s result \<Rightarrow> 's result" where
  "Session_OpenStream mux_open = (case mux_open of
      Inl err \<Rightarrow> Inl (Errorf ''transport: open stream: %w'' [err]) | Inr s \<Rightarrow> Inr s)"

text \<open>
  One CONNECT: the current link, if any; the yamux stream it opens; the result of the duplex copy.
  The effects are the use made of the relay stream.
\<close>

datatype peff = OpensStream | Copies nconn nconn | ClosesStream

record bridge_env =
  bLink :: "nat option"
  bOpen :: "nat \<Rightarrow> (reader \<times> writer) result"
  bCopy :: "gerr option"

definition proxy_bridge :: "bridge_env \<Rightarrow> bytes \<Rightarrow> gerr option \<times> peff list \<times> writer option" where
  "proxy_bridge env request = (case bLink env of
      None \<Rightarrow> (Some (Errorf ''proxy: no relay session'' []), [], None)
    | Some link \<Rightarrow>
        (case Session_OpenStream (bOpen env link) of
           Inl err \<Rightarrow> (Some (Errorf ''proxy: open relay stream: %w'' [err]), [], None)
         | Inr (r, w) \<Rightarrow>
             (case forwardRequest r w request of
                (Some err, r1, w1) \<Rightarrow> (Some err, [OpensStream, ClosesStream], Some w1)
              | (None, r1, w1) \<Rightarrow>
                  (bCopy env, [OpensStream, Copies (RequestConn TCPConn) YamuxStream, ClosesStream], Some w1))))"

section \<open>The accept loop and its connections\<close>

text \<open>
  A connection is refused (and closed) at the limit, or served by its own goroutine until that
  ends (and closes it). \<open>Run\<close> stops when \<open>Accept\<close> fails.
\<close>

datatype pconn = PServing | PRefused | PEnded

record proxy =
  lst :: listener
  pconns :: "pconn list"
  pctx :: "gerr option"
  presult :: "gerr option"

datatype proxy_event = PAccept | PEnds nat | PAcceptFails gerr | PCancel gerr

definition proxy_start :: "string list \<Rightarrow> proxy" where
  "proxy_start credentials = \<lparr>lst = NewListener credentials, pconns = [], pctx = None, presult = None\<rparr>"

fun proxy_step :: "proxy \<Rightarrow> proxy_event \<Rightarrow> proxy option" where
  "proxy_step p PAccept =
     (if presult p \<noteq> None then None
      else Some (case acquire (lst p) of
          None \<Rightarrow> p\<lparr>pconns := pconns p @ [PRefused]\<rparr>
        | Some l \<Rightarrow> p\<lparr>lst := l, pconns := pconns p @ [PServing]\<rparr>))"
| "proxy_step p (PEnds i) =
     (if i < length (pconns p) \<and> pconns p ! i = PServing
      then Some (p\<lparr>lst := release (lst p), pconns := (pconns p)[i := PEnded]\<rparr>) else None)"
| "proxy_step p (PAcceptFails err) =
     (if presult p \<noteq> None then None
      else Some (p\<lparr>presult := Some (case pctx p of Some e \<Rightarrow> e | None \<Rightarrow> err)\<rparr>))"
| "proxy_step p (PCancel err) = (if pctx p = None then Some (p\<lparr>pctx := Some err\<rparr>) else None)"

definition serving :: "proxy \<Rightarrow> nat" where
  "serving p = length (filter (\<lambda>c. c = PServing) (pconns p))"

definition proxy_inv :: "proxy \<Rightarrow> bool" where
  "proxy_inv p \<longleftrightarrow> sem (lst p) = serving p \<and> serving p \<le> MaxPending"

interpretation proxy_slots: bounded_slots "\<lambda>l. sem l \<le> MaxPending" sem MaxPending acquire release
  by unfold_locales (auto simp: acquire_def release_def split: if_splits)

interpretation proxy_ok: machine_invariant "proxy_start credentials" proxy_step proxy_inv for credentials
proof unfold_locales
  show "proxy_inv (proxy_start credentials)"
    by (simp add: proxy_inv_def proxy_start_def serving_def NewListener_def split: list.splits)
next
  fix p ev q assume inv: "proxy_inv p" and step: "proxy_step p ev = Some q"
  show "proxy_inv q"
  proof (cases ev)
    case PAccept
    then show ?thesis using inv step
      by (auto simp: proxy_inv_def serving_def acquire_def split: if_splits)
  next
    case (PEnds i)
    then have s: "i < length (pconns p)" "pconns p ! i = PServing"
        "q = p\<lparr>lst := release (lst p), pconns := (pconns p)[i := PEnded]\<rparr>"
      using step by (auto split: if_splits)
    have "0 < serving p" using s(1,2) by (auto simp: serving_def filter_empty_conv) (metis nth_mem)
    then show ?thesis using inv s filter_update [OF s(1), of "\<lambda>c. c = PServing" PEnded] proxy_slots.release_used [of "lst p"]
      by (auto simp: proxy_inv_def serving_def)
  qed (use inv step in \<open>auto simp: proxy_inv_def serving_def split: if_splits\<close>)
qed

section \<open>Lemmas\<close>

lemma writeFull_spec:
  "writeFull w d = (e, w') \<Longrightarrow> \<exists>n \<le> length d. sent w' = sent w @ take n d \<and> (e = None \<longrightarrow> n = length d)"
proof (induction w d arbitrary: e w' rule: writeFull.induct)
  case (1 w d)
  show ?case
  proof (cases "d = []")
    case False
    obtain n x w1 where c: "conn_write w d = ((n, x), w1)" by (metis surj_pair)
    note cs = conn_write_sent [OF c]
    show ?thesis
    proof (cases "x = None \<and> n \<noteq> 0")
      case True
      then have rest: "writeFull w1 (drop n d) = (e, w')" using 1(2) False c by (simp add: writeFull.simps [of w d])
      then obtain m where m: "m \<le> length (drop n d)" "sent w' = sent w1 @ take m (drop n d)"
          "e = None \<longrightarrow> m = length (drop n d)"
        using 1(1) [OF False c [symmetric] refl] True by blast
      then show ?thesis using cs by (intro exI [of _ "n + m"]) (auto simp: take_add)
    next
      case False2: False
      then show ?thesis using 1(2) False c cs
        by (intro exI [of _ n]) (auto simp: writeFull.simps [of w d] split: option.splits if_splits)
    qed
  qed (use 1(2) in \<open>simp add: writeFull.simps\<close>)
qed

lemma writeFull_all: "wscript w = [] \<Longrightarrow> writeFull w d = (None, w\<lparr>sent := sent w @ d\<rparr>)"
  by (simp add: writeFull.simps [of w d] conn_simps writeFull.simps [of _ "[]"])

lemma forwardRequest_ok:
  assumes "forwardRequest r w request = (None, r', w')"
  shows "sent w' = sent w @ [0x05, 0x01, 0x00] @ request \<and> read_full 2 r = (Inr [0x05, 0x00], r')"
  using assms
  by (auto simp: forwardRequest_def split: prod.splits option.splits sum.splits if_splits dest!: writeFull_spec)

lemma proxy_bridge_ends:
  "proxy_bridge env request = (e, effs, w) \<Longrightarrow>
   (case w of None \<Rightarrow> effs = [] \<and> e \<noteq> None | Some _ \<Rightarrow> hd effs = OpensStream \<and> last effs = ClosesStream)"
  by (auto simp: proxy_bridge_def split: option.splits sum.splits prod.splits)

section \<open>Properties\<close>

text \<open>
  At most 256 browser connections are served at a time, whatever the interleaving: the semaphore
  counts exactly the connections being served, so no slot is lost, and at the limit a new connection is
  refused at once instead of waiting.
\<close>

theorem proxy_admission_bound:
  assumes "reaches proxy_step (proxy_start credentials) p"
  shows "serving p \<le> 256 \<and> sem (lst p) = serving p
    \<and> (presult p = None \<and> serving p = 256 \<longrightarrow> proxy_step p PAccept = Some (p\<lparr>pconns := pconns p @ [PRefused]\<rparr>))"
  using proxy_ok.reaches_inv [OF assms] by (auto simp: proxy_inv_def MaxPending_def acquire_def)

theorem proxy_admission_bound_witness:
  "\<exists>p. run_events proxy_step (proxy_start []) [PAccept, PAccept, PEnds 0] = Some p \<and> serving p \<le> 256 \<and> sem (lst p) = 1"
proof -
  obtain p where p: "run_events proxy_step (proxy_start []) [PAccept, PAccept, PEnds 0] = Some p" "sem (lst p) = 1"
    by (simp add: proxy_start_def NewListener_def acquire_def MaxPending_def release_def)
  then show ?thesis using proxy_admission_bound [OF run_events_reaches [OF p(1)]] by simp
qed

text \<open>
  C24. The request reaches the exit intact and in protocol order. What is written is always a prefix of
  the greeting followed by the browser's request; a byte of the request is written only after the
  exit selected no authentication; and on success all of it was written and exactly the two bytes of
  the selection were read, so the exit's reply is left to the copy loop.
\<close>

theorem forwardRequest_protocol:
  assumes "forwardRequest r w request = (e, r', w')"
  shows "\<exists>n. sent w' = sent w @ take n ([0x05, 0x01, 0x00] @ request)
    \<and> (length (sent w) + 3 < length (sent w') \<longrightarrow> fst (read_full 2 r) = Inr [0x05, 0x00])
    \<and> (e = None \<longrightarrow> sent w' = sent w @ [0x05, 0x01, 0x00] @ request
        \<and> concat (pending r) = [0x05, 0x00] @ concat (pending r'))"
proof -
  obtain e1 w1 where g: "writeFull w [0x05, 0x01, 0x00] = (e1, w1)" by fastforce
  then obtain n1 where n1: "n1 \<le> 3" "sent w1 = sent w @ take n1 [0x05, 0x01, 0x00]" "e1 = None \<longrightarrow> n1 = 3"
    using writeFull_spec [OF g] by (auto simp: numeral_3_eq_3)
  consider "w' = w1" "e \<noteq> None"
    | e2 where "e1 = None" "fst (read_full 2 r) = Inr [0x05, 0x00]" "writeFull w1 request = (e2, w')"
    using assms g by (auto simp: forwardRequest_def split: prod.splits option.splits sum.splits if_splits)
  then show ?thesis
  proof cases
    case 1
    moreover have "take n1 ([0x05, 0x01, 0x00] @ request) = take n1 [0x05, 0x01, 0x00]" using n1(1) by (simp only: take_append) simp
    ultimately show ?thesis using n1 by (intro exI [of _ n1]) auto
  next
    case 2
    then obtain n2 where "sent w' = sent w1 @ take n2 request" using writeFull_spec by blast
    moreover have "concat (pending r) = [0x05, 0x00] @ concat (pending r')" if "e = None"
    proof -
      have "read_full 2 r = (Inr [0x05, 0x00], r')" using forwardRequest_ok [of r w request r' w'] assms that by simp
      from read_full_cases [OF this] show ?thesis
        by (auto simp: take_full_def split: if_splits) (metis append_Cons append_Nil append_take_drop_id)
    qed
    ultimately show ?thesis using n1 2 forwardRequest_ok [of r w request r' w'] assms
      by (intro exI [of _ "3 + n2"]) (auto simp: take_add)
  qed
qed

theorem forwardRequest_protocol_witness:
  "\<exists>r' w'. forwardRequest \<lparr>pending = [[5], [0, 9]], fate = Sentinel EOF\<rparr> \<lparr>sent = [], wscript = [(1, None)]\<rparr> [5, 1, 0, 1] = (None, r', w')
     \<and> sent w' = [5, 1, 0, 5, 1, 0, 1] \<and> concat (pending r') = [9]"
proof -
  let ?r = "\<lparr>pending = [[5], [0, 9]], fate = Sentinel EOF\<rparr>" and ?w = "\<lparr>sent = [], wscript = [(1, None)]\<rparr>"
  obtain r' w' where f: "forwardRequest ?r ?w [5, 1, 0, 1] = (None, r', w')"
    by (simp add: forwardRequest_def writeFull.simps conn_write_def read_full_def read_full_loop.simps conn_read_def)
  from forwardRequest_protocol [OF f] show ?thesis using f by auto
qed

end
