(* ===== verification/Broker.thy ===== *)
theory Broker
  imports Prelude "HOL-Library.Multiset"
begin

text \<open>
  \<open>src/internal/exit/broker.go\<close>: the exit's driver. It polls the connector for the newest link and
  serves each link's streams through an acceptor goroutine of its own. Links and streams are numbered;
  the snapshot the connector returns is an input of the step that takes it.
\<close>

section \<open>State\<close>

text \<open>
  \<open>streamAcceptor\<close>: about to test its stop channel, inside \<open>AcceptStream\<close>, offering an accepted
  stream, or ended.
\<close>

datatype astate = ATop | AAccepting | AOffering nat | AEnded

record acceptor =
  alink :: nat
  astate :: astate
  astop :: bool

text \<open>
  \<open>Run\<close> at the top of its loop, past the test of its context and about to take a snapshot, asleep,
  inside \<open>serveSession\<close> with the given acceptor, or returned.
\<close>

datatype bpc = BTop | BPolls | BSleeping | BServing nat | BReturned gerr

text \<open>\<open>accepted\<close>, \<open>served\<close> and \<open>dropped\<close> list streams, each with the link whose session it was accepted on.\<close>

record broker =
  bpc :: bpc
  lastLink :: "nat option"
  accs :: "acceptor list"
  bctx :: "gerr option"
  ended :: "nat set"
  accepted :: "(nat \<times> nat) list"
  served :: "(nat \<times> nat) list"
  dropped :: "(nat \<times> nat) list"

definition NewBroker :: broker where
  "NewBroker = \<lparr>bpc = BTop, lastLink = None, accs = [], bctx = None, ended = {}, accepted = [], served = [], dropped = []\<rparr>"

section \<open>Steps\<close>

datatype broker_event =
    BCheckCtx
  | BSnapshot "nat option"
  | BWakes
  | BSleepCancelled
  | BSeesCtx
  | BSeesSessionEnd
  | BTakesStream
  | AStops nat
  | ACallsAccept nat
  | AAccepts nat nat
  | AAcceptFails nat
  | ADrops nat
  | LinkEnds nat
  | CtxCancelled gerr

definition set_acc :: "nat \<Rightarrow> astate \<Rightarrow> broker \<Rightarrow> broker" where
  "set_acc i a b = b\<lparr>accs := (accs b)[i := (accs b ! i)\<lparr>astate := a\<rparr>]\<rparr>"

text \<open>Leaving \<open>serveSession\<close>: the session is closed and the deferred \<open>close(stop)\<close> runs.\<close>

definition leave_session :: "nat \<Rightarrow> broker \<Rightarrow> broker" where
  "leave_session i b = b\<lparr>bpc := BTop, ended := insert (alink (accs b ! i)) (ended b),
     accs := (accs b)[i := (accs b ! i)\<lparr>astop := True\<rparr>]\<rparr>"

fun broker_step :: "broker \<Rightarrow> broker_event \<Rightarrow> broker option" where
  "broker_step b BCheckCtx =
     (if bpc b = BTop then
        (case bctx b of None \<Rightarrow> Some (b\<lparr>bpc := BPolls\<rparr>) | Some err \<Rightarrow> Some (b\<lparr>bpc := BReturned err\<rparr>))
      else None)"
| "broker_step b (BSnapshot link) =
     (if bpc b = BPolls then
        (if link = None \<or> link = lastLink b then Some (b\<lparr>bpc := BSleeping\<rparr>)
         else Some (b\<lparr>lastLink := link, bpc := BServing (length (accs b)),
           accs := accs b @ [\<lparr>alink = the link, astate = ATop, astop = False\<rparr>]\<rparr>))
      else None)"
| "broker_step b BWakes = (if bpc b = BSleeping then Some (b\<lparr>bpc := BTop\<rparr>) else None)"
| "broker_step b BSleepCancelled =
     (case (bpc b, bctx b) of (BSleeping, Some err) \<Rightarrow> Some (b\<lparr>bpc := BReturned err\<rparr>) | _ \<Rightarrow> None)"
| "broker_step b BSeesCtx =
     (case bpc b of BServing i \<Rightarrow> if bctx b \<noteq> None then Some (leave_session i b) else None | _ \<Rightarrow> None)"
| "broker_step b BSeesSessionEnd =
     (case bpc b of BServing i \<Rightarrow> if alink (accs b ! i) \<in> ended b then Some (leave_session i b) else None | _ \<Rightarrow> None)"
| "broker_step b BTakesStream =
     (case bpc b of
        BServing i \<Rightarrow>
          (case astate (accs b ! i) of
             AOffering c \<Rightarrow> Some ((set_acc i ATop b)\<lparr>served := served b @ [(alink (accs b ! i), c)]\<rparr>)
           | _ \<Rightarrow> None)
      | _ \<Rightarrow> None)"
| "broker_step b (AStops i) =
     (if i < length (accs b) \<and> astate (accs b ! i) = ATop \<and> astop (accs b ! i) then Some (set_acc i AEnded b) else None)"
| "broker_step b (ACallsAccept i) =
     (if i < length (accs b) \<and> astate (accs b ! i) = ATop \<and> \<not> astop (accs b ! i) then Some (set_acc i AAccepting b) else None)"
| "broker_step b (AAccepts i c) =
     (if i < length (accs b) \<and> astate (accs b ! i) = AAccepting
      then Some ((set_acc i (AOffering c) b)\<lparr>accepted := accepted b @ [(alink (accs b ! i), c)]\<rparr>) else None)"
| "broker_step b (AAcceptFails i) =
     (if i < length (accs b) \<and> astate (accs b ! i) = AAccepting then Some (set_acc i AEnded b) else None)"
| "broker_step b (ADrops i) =
     (if i < length (accs b) \<and> astop (accs b ! i) then
        (case astate (accs b ! i) of
           AOffering c \<Rightarrow> Some ((set_acc i ATop b)\<lparr>dropped := dropped b @ [(alink (accs b ! i), c)]\<rparr>)
         | _ \<Rightarrow> None)
      else None)"
| "broker_step b (LinkEnds l) = Some (b\<lparr>ended := insert l (ended b)\<rparr>)"
| "broker_step b (CtxCancelled err) = (if bctx b = None then Some (b\<lparr>bctx := Some err\<rparr>) else None)"

text \<open>\<open>Session.AcceptStream\<close> of \<open>session.go\<close> around yamux's, and what its result does to the acceptor.\<close>

definition Session_AcceptStream :: "'s result \<Rightarrow> 's result" where
  "Session_AcceptStream mux_accept = (case mux_accept of
      Inl err \<Rightarrow> Inl (Errorf ''transport: accept stream: %w'' [err]) | Inr s \<Rightarrow> Inr s)"

definition accept_event :: "nat \<Rightarrow> nat result \<Rightarrow> broker_event" where
  "accept_event i mux_accept = (case Session_AcceptStream mux_accept of Inl err \<Rightarrow> AAcceptFails i | Inr c \<Rightarrow> AAccepts i c)"

section \<open>Invariant\<close>

definition offered :: "acceptor \<Rightarrow> (nat \<times> nat) multiset" where
  "offered a = (case astate a of AOffering c \<Rightarrow> {#(alink a, c)#} | _ \<Rightarrow> {#})"

definition inv_streams :: "broker \<Rightarrow> bool" where
  "inv_streams b \<longleftrightarrow> mset (accepted b) = mset (served b) + mset (dropped b) + (\<Sum>a \<leftarrow> accs b. offered a)"

definition inv_stop :: "broker \<Rightarrow> bool" where
  "inv_stop b \<longleftrightarrow> (\<forall>j < length (accs b). bpc b \<noteq> BServing j \<longrightarrow> astop (accs b ! j))
     \<and> (\<forall>j < length (accs b). astop (accs b ! j) \<longrightarrow> alink (accs b ! j) \<in> ended b)
     \<and> (\<forall>i. bpc b = BServing i \<longrightarrow> i < length (accs b) \<and> \<not> astop (accs b ! i))
     \<and> (\<forall>err. bpc b = BReturned err \<longrightarrow> bctx b = Some err)"

definition inv_links :: "nat option \<Rightarrow> nat list \<Rightarrow> bool" where
  "inv_links l ls \<longleftrightarrow> l = (if ls = [] then None else Some (last ls)) \<and> (\<forall>j. Suc j < length ls \<longrightarrow> ls ! j \<noteq> ls ! Suc j)"

definition broker_inv :: "broker \<Rightarrow> bool" where
  "broker_inv b \<longleftrightarrow> inv_streams b \<and> inv_stop b \<and> inv_links (lastLink b) (map alink (accs b))"

lemma offered_stop [simp]: "offered (a\<lparr>astop := s\<rparr>) = offered a"
  by (simp add: offered_def split: astate.split)

lemma sum_offered_update:
  "i < length as \<Longrightarrow> (\<Sum>a \<leftarrow> as[i := x]. offered a) + offered (as ! i) = (\<Sum>a \<leftarrow> as. offered a) + offered x"
proof (induction as arbitrary: i)
  case (Cons a as)
  then show ?case by (cases i) (auto simp: ac_simps)
qed simp

lemma set_acc_sel [simp]:
  "bpc (set_acc i a b) = bpc b" "bctx (set_acc i a b) = bctx b" "ended (set_acc i a b) = ended b"
  "lastLink (set_acc i a b) = lastLink b" "accepted (set_acc i a b) = accepted b" "served (set_acc i a b) = served b"
  "dropped (set_acc i a b) = dropped b" "accs (set_acc i a b) = (accs b)[i := (accs b ! i)\<lparr>astate := a\<rparr>]"
  by (simp_all add: set_acc_def)

lemma nth_update: "xs[i := x] ! j = (if i = j \<and> i < length xs then x else xs ! j)"
  by (cases "i < length xs") (simp_all add: not_less list_update_beyond)

lemma acc_update:
  "astop (as[i := (as ! i)\<lparr>astate := a\<rparr>] ! j) = astop (as ! j)"
  "alink (as[i := (as ! i)\<lparr>astate := a\<rparr>] ! j) = alink (as ! j)"
  "alink (as[i := (as ! i)\<lparr>astop := c\<rparr>] ! j) = alink (as ! j)"
  by (auto simp: nth_update)

lemma acc_update_links:
  "map alink (as[i := (as ! i)\<lparr>astate := a\<rparr>]) = map alink as"
  "map alink (as[i := (as ! i)\<lparr>astop := c\<rparr>]) = map alink as"
  by (auto intro: nth_equalityI simp: acc_update)

lemma inv_stop_set_acc: "inv_stop b \<Longrightarrow> inv_stop (set_acc i a b)"
  by (simp only: inv_stop_def set_acc_sel acc_update length_list_update)

lemma inv_stop_leave: "inv_stop b \<Longrightarrow> bpc b = BServing i \<Longrightarrow> inv_stop (leave_session i b)"
  by (auto simp: inv_stop_def leave_session_def nth_update acc_update)

lemma inv_streams_set_acc:
  assumes "inv_streams b" and "i < length (accs b)" and "offered ((accs b ! i)\<lparr>astate := a\<rparr>) = offered (accs b ! i)"
  shows "inv_streams (set_acc i a b)"
  using assms sum_offered_update [of i "accs b" "(accs b ! i)\<lparr>astate := a\<rparr>"] by (simp add: inv_streams_def)

lemma inv_streams_leave:
  assumes "inv_streams b" and "i < length (accs b)"
  shows "inv_streams (leave_session i b)"
  using assms sum_offered_update [of i "accs b" "(accs b ! i)\<lparr>astop := True\<rparr>"]
  by (simp add: inv_streams_def leave_session_def)

text \<open>An offered stream moves to the served or to the dropped ones.\<close>

lemma inv_streams_moves:
  assumes "inv_streams b" and "i < length (accs b)" and "astate (accs b ! i) = AOffering c"
  shows "inv_streams ((set_acc i ATop b)\<lparr>served := served b @ [(alink (accs b ! i), c)]\<rparr>)"
    and "inv_streams ((set_acc i ATop b)\<lparr>dropped := dropped b @ [(alink (accs b ! i), c)]\<rparr>)"
  using assms sum_offered_update [OF assms(2), of "(accs b ! i)\<lparr>astate := ATop\<rparr>"]
  by (simp_all add: inv_streams_def offered_def)

lemma inv_streams_accepts:
  assumes "inv_streams b" and "i < length (accs b)" and "astate (accs b ! i) = AAccepting"
  shows "inv_streams ((set_acc i (AOffering c) b)\<lparr>accepted := accepted b @ [(alink (accs b ! i), c)]\<rparr>)"
  using assms sum_offered_update [OF assms(2), of "(accs b ! i)\<lparr>astate := AOffering c\<rparr>"]
  by (simp add: inv_streams_def offered_def)

lemma inv_streams_step:
  assumes inv: "inv_streams b" "inv_stop b" and step: "broker_step b ev = Some b'"
  shows "inv_streams b'"
proof -
  have bnd: "bpc b = BServing i \<Longrightarrow> i < length (accs b)" for i using inv(2) by (simp add: inv_stop_def)
  show ?thesis
  proof (cases ev)
    case BTakesStream
    then show ?thesis using step inv_streams_moves(1) [OF inv(1)] bnd by (auto split: bpc.splits astate.splits)
  next
    case (ADrops i)
    then show ?thesis using step inv_streams_moves(2) [OF inv(1)] by (auto split: if_splits astate.splits)
  next
    case (AAccepts i c)
    then show ?thesis using step inv_streams_accepts [OF inv(1)] by (auto split: if_splits)
  next
    case BSeesCtx
    then show ?thesis using step inv_streams_leave [OF inv(1)] bnd by (auto split: bpc.splits if_splits)
  next
    case BSeesSessionEnd
    then show ?thesis using step inv_streams_leave [OF inv(1)] bnd by (auto split: bpc.splits if_splits)
  next
    case (BSnapshot link)
    then show ?thesis using step inv(1) by (auto simp: inv_streams_def offered_def split: if_splits)
  qed (use step inv(1) in \<open>auto intro!: inv_streams_set_acc simp: offered_def split: if_splits bpc.splits option.splits,
      auto simp: inv_streams_def\<close>)
qed

lemma inv_stop_opens:
  "inv_stop b \<Longrightarrow> bpc b = BPolls \<Longrightarrow> inv_stop (b\<lparr>lastLink := l, bpc := BServing (length (accs b)),
     accs := accs b @ [\<lparr>alink = k, astate = ATop, astop = False\<rparr>]\<rparr>)"
  by (simp add: inv_stop_def nth_append)

lemma inv_stop_step:
  assumes inv: "inv_stop b" and step: "broker_step b ev = Some b'"
  shows "inv_stop b'"
proof -
  have keep: "inv_stop ((set_acc i a b)\<lparr>served := x\<rparr>)" "inv_stop ((set_acc i a b)\<lparr>dropped := x\<rparr>)"
      "inv_stop ((set_acc i a b)\<lparr>accepted := x\<rparr>)" for i a x
    using inv_stop_set_acc [OF inv, of i a] by (simp_all add: inv_stop_def)
  show ?thesis
  proof (cases ev)
    case (BSnapshot link)
    moreover have "inv_stop (b\<lparr>bpc := BSleeping\<rparr>)" if "bpc b = BPolls" using inv that by (simp add: inv_stop_def)
    ultimately show ?thesis using step inv_stop_opens [OF inv] by (auto split: if_splits)
  next
    case BTakesStream
    then show ?thesis using step keep by (auto split: bpc.splits astate.splits)
  next
    case (ADrops i)
    then show ?thesis using step keep by (auto split: if_splits astate.splits)
  next
    case (AAccepts i c)
    then show ?thesis using step keep by (auto split: if_splits)
  next
    case BSeesCtx
    then show ?thesis using step inv_stop_leave [OF inv] by (auto split: bpc.splits if_splits)
  next
    case BSeesSessionEnd
    then show ?thesis using step inv_stop_leave [OF inv] by (auto split: bpc.splits if_splits)
  next
    case (AStops i)
    then show ?thesis using step inv_stop_set_acc [OF inv] by (auto split: if_splits)
  next
    case (ACallsAccept i)
    then show ?thesis using step inv_stop_set_acc [OF inv] by (auto split: if_splits)
  next
    case (AAcceptFails i)
    then show ?thesis using step inv_stop_set_acc [OF inv] by (auto split: if_splits)
  next
    case BCheckCtx
    then have "bpc b = BTop" "b' = b\<lparr>bpc := BPolls\<rparr> \<or> (\<exists>err. bctx b = Some err \<and> b' = b\<lparr>bpc := BReturned err\<rparr>)"
      using step by (auto split: if_splits option.splits)
    then show ?thesis using inv by (auto simp: inv_stop_def)
  next
    case BSleepCancelled
    then obtain err where "bpc b = BSleeping" "bctx b = Some err" "b' = b\<lparr>bpc := BReturned err\<rparr>"
      using step by (auto split: bpc.splits option.splits)
    then show ?thesis using inv by (simp add: inv_stop_def)
  next
    case BWakes
    then have "bpc b = BSleeping" "b' = b\<lparr>bpc := BTop\<rparr>" using step by (auto split: if_splits)
    then show ?thesis using inv by (simp add: inv_stop_def)
  next
    case (LinkEnds l)
    then have "b' = b\<lparr>ended := insert l (ended b)\<rparr>" using step by simp
    then show ?thesis using inv by (simp add: inv_stop_def)
  next
    case (CtxCancelled err)
    then have "bctx b = None" "b' = b\<lparr>bctx := Some err\<rparr>" using step by (auto split: if_splits)
    then show ?thesis using inv by (simp add: inv_stop_def)
  qed
qed

lemma inv_links_step:
  assumes inv: "inv_links (lastLink b) (map alink (accs b))" and step: "broker_step b ev = Some b'"
  shows "inv_links (lastLink b') (map alink (accs b'))"
proof (cases ev)
  case (BSnapshot link)
  have "Suc j = length (accs b) \<Longrightarrow> j = length (accs b) - Suc 0" for j by simp
  then show ?thesis using BSnapshot inv step
    by (auto simp: inv_links_def nth_append last_conv_nth less_Suc_eq split: if_splits)
qed (use inv step in \<open>auto simp: leave_session_def acc_update_links split: if_splits bpc.splits option.splits astate.splits\<close>)

interpretation broker_ok: machine_invariant NewBroker broker_step broker_inv
proof unfold_locales
  show "broker_inv NewBroker"
    by (simp add: broker_inv_def NewBroker_def inv_streams_def inv_stop_def inv_links_def)
next
  fix b ev b' assume "broker_inv b" "broker_step b ev = Some b'"
  then show "broker_inv b'"
    unfolding broker_inv_def using inv_streams_step inv_stop_step inv_links_step by blast
qed

text \<open>A stopped acceptor is at most two of its own steps from its end.\<close>

lemma stopped_acceptor_ends:
  assumes "i < length (accs b)" and "astop (accs b ! i)"
  shows "\<exists>es b'. length es \<le> 2 \<and> set es \<subseteq> {ADrops i, AStops i, AAcceptFails i} \<and> run_events broker_step b es = Some b'
    \<and> astate (accs b' ! i) = AEnded"
proof (cases "astate (accs b ! i)")
  case (AOffering c)
  then show ?thesis using assms by (intro exI [of _ "[ADrops i, AStops i]"]) (simp add: nth_update)
next
  case ATop
  then show ?thesis using assms by (intro exI [of _ "[AStops i]"]) (simp add: nth_update)
next
  case AAccepting
  then show ?thesis using assms by (intro exI [of _ "[AAcceptFails i]"]) (simp add: nth_update)
next
  case AEnded
  then show ?thesis by (intro exI [of _ "[]"]) simp
qed

section \<open>Properties\<close>

text \<open>
  C22. No accepted stream is lost. In every reachable state each stream accepted from the relay, with
  the link it was accepted on, was either handed to a SOCKS worker of that link exactly once, or closed,
  or is still offered by that link's acceptor; and
  a link is never served twice in a row, so an ended session is not picked up again.
\<close>

theorem broker_streams_accounted:
  assumes "reaches broker_step NewBroker b"
  shows "mset (accepted b) = mset (served b) + mset (dropped b) + (\<Sum>a \<leftarrow> accs b. offered a)
    \<and> (\<forall>j. Suc j < length (accs b) \<longrightarrow> alink (accs b ! j) \<noteq> alink (accs b ! Suc j))"
  using broker_ok.reaches_inv [OF assms] by (auto simp: broker_inv_def inv_streams_def inv_links_def)

theorem broker_streams_accounted_witness:
  "\<exists>b. run_events broker_step NewBroker [BCheckCtx, BSnapshot (Some 4), ACallsAccept 0, AAccepts 0 7, BTakesStream,
      ACallsAccept 0, AAccepts 0 9, LinkEnds 4, BSeesSessionEnd] = Some b
     \<and> accepted b = [(4, 7), (4, 9)] \<and> mset (accepted b) = mset (served b) + mset (dropped b) + (\<Sum>a \<leftarrow> accs b. offered a)"
proof -
  let ?es = "[BCheckCtx, BSnapshot (Some 4), ACallsAccept 0, AAccepts 0 7, BTakesStream,
      ACallsAccept 0, AAccepts 0 9, LinkEnds 4, BSeesSessionEnd]"
  obtain b where b: "run_events broker_step NewBroker ?es = Some b" "accepted b = [(4, 7), (4, 9)]"
    by (simp add: NewBroker_def set_acc_def leave_session_def)
  then show ?thesis using broker_streams_accounted [OF run_events_reaches [OF b(1)]] by blast
qed

text \<open>
  \<open>Run\<close> returns only with the context's error, and then every acceptor goroutine has been told to
  stop, its session is closed, and at most two of its own steps lead to its end.
\<close>

theorem broker_returns_only_on_cancel:
  assumes "reaches broker_step NewBroker b" and "bpc b = BReturned err"
  shows "bctx b = Some err \<and> (\<forall>i < length (accs b). astop (accs b ! i) \<and> alink (accs b ! i) \<in> ended b
    \<and> (\<exists>es b'. length es \<le> 2 \<and> set es \<subseteq> {ADrops i, AStops i, AAcceptFails i}
        \<and> run_events broker_step b es = Some b' \<and> astate (accs b' ! i) = AEnded))"
  using broker_ok.reaches_inv [OF assms(1)] assms(2) stopped_acceptor_ends
  by (auto simp: broker_inv_def inv_stop_def simp del: run_events.simps broker_step.simps)

theorem broker_returns_only_on_cancel_witness:
  "\<exists>b. run_events broker_step NewBroker [BCheckCtx, BSnapshot (Some 4), ACallsAccept 0, CtxCancelled (Sentinel Canceled), BSeesCtx, BCheckCtx] = Some b
     \<and> bctx b = Some (Sentinel Canceled) \<and> 4 \<in> ended b"
proof -
  let ?es = "[BCheckCtx, BSnapshot (Some 4), ACallsAccept 0, CtxCancelled (Sentinel Canceled), BSeesCtx, BCheckCtx]"
  obtain b where b: "run_events broker_step NewBroker ?es = Some b" "bpc b = BReturned (Sentinel Canceled)"
      "length (accs b) = 1" "alink (accs b ! 0) = 4"
    by (simp add: NewBroker_def set_acc_def leave_session_def)
  then show ?thesis using broker_returns_only_on_cancel [OF run_events_reaches [OF b(1)] b(2)] by auto
qed

end
