(* ===== verification/Logging.thy ===== *)
theory Logging
  imports Json
begin

text \<open>
  \<open>src/internal/logging\<close>: the redacting \<open>slog\<close> handler of \<open>redacting.go\<close> and the debug-file set-up
  of \<open>logging.go\<close>. \<open>strings.ToLower\<close> is an argument \<open>lower\<close>; on ASCII keys it is \<open>ascii_lower\<close>. The
  wrapped handler is modelled by what it was given: attributes, open groups and records.
\<close>

section \<open>Attributes\<close>

text \<open>\<open>slog.Value\<close>: a plain value, a group of attributes, or a \<open>LogValuer\<close> with the value it yields.\<close>

datatype sval = SVal string | SGroup "(string \<times> sval) list" | SLazy sval

type_synonym attr = "string \<times> sval"

text \<open>\<open>Value.Resolve\<close> calls \<open>LogValue\<close> at most 100 times and then yields an error value.\<close>

fun resolve_steps :: "nat \<Rightarrow> sval \<Rightarrow> sval" where
  "resolve_steps n (SLazy v) = (case n of 0 \<Rightarrow> SVal ''LogValue called too many times'' | Suc m \<Rightarrow> resolve_steps m v)"
| "resolve_steps n v = v"

definition Resolve :: "sval \<Rightarrow> sval" where "Resolve v = resolve_steps 100 v"

definition redacted :: sval where "redacted = SVal ''[redacted]''"

lemma resolve_steps_size: "size (resolve_steps n v) \<le> size v"
proof (induction n v rule: resolve_steps.induct)
  case (1 n v)
  then show ?case by (cases n) auto
qed auto

lemma size_group_member: "z \<in> set attrs \<Longrightarrow> size (snd z) < size (SGroup attrs)"
  by (induction attrs) auto

section \<open>The redacting handler\<close>

record sink =
  preset :: "attr list"
  groups :: "string list"

record redactingHandler =
  next_handler :: sink
  sensitive :: "string list"

definition newRedactingHandler :: "sink \<Rightarrow> redactingHandler" where
  "newRedactingHandler n = \<lparr>next_handler = n, sensitive = []\<rparr>"

definition RegisterSensitive :: "(string \<Rightarrow> string) \<Rightarrow> string list \<Rightarrow> redactingHandler \<Rightarrow> redactingHandler" where
  "RegisterSensitive lower keys h = h\<lparr>sensitive := sensitive h @ map lower keys\<rparr>"

definition isSensitive :: "(string \<Rightarrow> string) \<Rightarrow> redactingHandler \<Rightarrow> string \<Rightarrow> bool" where
  "isSensitive lower h k \<longleftrightarrow> lower k \<in> set (sensitive h)"

function redact :: "(string \<Rightarrow> bool) \<Rightarrow> attr \<Rightarrow> attr" where
  "redact sens (k, v) =
     (if sens k then (k, redacted)
      else case Resolve v of
          SGroup attrs \<Rightarrow> (k, SGroup (map (redact sens) attrs))
        | v' \<Rightarrow> (k, v'))"
  by pat_completeness auto
termination
proof (relation "measure (\<lambda>(sens, k, v). size v)")
  fix sens :: "string \<Rightarrow> bool" and k :: string and v :: sval and attrs :: "attr list" and z :: attr
  assume g: "Resolve v = SGroup attrs" and z: "z \<in> set attrs"
  have "size (snd z) < size (SGroup attrs)" using z by (rule size_group_member)
  then show "((sens, z), sens, k, v) \<in> measure (\<lambda>(sens, k, v). size v)"
    using g resolve_steps_size [of 100 v] by (cases z) (simp add: Resolve_def)
qed simp

declare redact.simps [simp del]

definition WithAttrs :: "(string \<Rightarrow> string) \<Rightarrow> attr list \<Rightarrow> redactingHandler \<Rightarrow> redactingHandler" where
  "WithAttrs lower attrs h =
     (let n = next_handler h;
          child = newRedactingHandler (n\<lparr>preset := preset n @ map (redact (isSensitive lower h)) attrs\<rparr>)
      in child\<lparr>sensitive := sensitive h\<rparr>)"

definition WithGroup :: "string \<Rightarrow> redactingHandler \<Rightarrow> redactingHandler" where
  "WithGroup name h =
     (let n = next_handler h; child = newRedactingHandler (n\<lparr>groups := groups n @ [name]\<rparr>)
      in child\<lparr>sensitive := sensitive h\<rparr>)"

text \<open>What reaches the wrapped handler for one record: its preset attributes and the record's own.\<close>

definition Handle :: "(string \<Rightarrow> string) \<Rightarrow> redactingHandler \<Rightarrow> attr list \<Rightarrow> attr list" where
  "Handle lower h attrs = preset (next_handler h) @ map (redact (isSensitive lower h)) attrs"

text \<open>The derivations a logger goes through (\<open>Logger.With\<close>, \<open>Logger.WithGroup\<close>).\<close>

datatype derivation = DAttrs "attr list" | DGroup string

fun derive :: "(string \<Rightarrow> string) \<Rightarrow> redactingHandler \<Rightarrow> derivation list \<Rightarrow> redactingHandler" where
  "derive lower h [] = h"
| "derive lower h (DAttrs as # ds) = derive lower (WithAttrs lower as h) ds"
| "derive lower h (DGroup g # ds) = derive lower (WithGroup g h) ds"

section \<open>Debug file\<close>

definition maxDebugCollisionAttempts :: nat where "maxDebugCollisionAttempts = 64"

definition debug_base :: "string \<Rightarrow> nat \<Rightarrow> string" where
  "debug_base mode unix = ''mhp-debug-'' @ mode @ ''-'' @ show_nat unix @ ''.txt''"

text \<open>The name tried in a given attempt.\<close>

definition debug_name :: "string \<Rightarrow> nat \<Rightarrow> string" where
  "debug_name base n = (if n = 0 then base else base @ ''.'' @ show_nat n)"

text \<open>
  The exclusive create is an argument: the error it returns for a name, if any. The loop counts the
  attempts left.
\<close>

fun open_loop :: "(string \<Rightarrow> gerr option) \<Rightarrow> string \<Rightarrow> nat \<Rightarrow> string \<Rightarrow> gerr \<Rightarrow> nat \<Rightarrow> string result" where
  "open_loop openFile base attempt name lastErr 0 = Inl (Errorf ''reserve debug filename: %w'' [lastErr])"
| "open_loop openFile base attempt name lastErr (Suc left) = (case openFile name of
      None \<Rightarrow> Inr name
    | Some err \<Rightarrow>
        if \<not> errors_is err OsErrExist then Inl (Errorf ''open debug file %q: %w'' [err])
        else open_loop openFile base (attempt + 1) (base @ ''.'' @ show_nat (attempt + 1)) err left)"

definition openDebugFile :: "(string \<Rightarrow> gerr option) \<Rightarrow> string \<Rightarrow> nat \<Rightarrow> string result" where
  "openDebugFile openFile mode unix =
     (let base = debug_base mode unix
      in open_loop openFile base 0 base (Sentinel (Env ''no unique debug filename could be reserved''))
           maxDebugCollisionAttempts)"

datatype level = LevelDebug | LevelInfo

record Logger =
  lgHandler :: redactingHandler
  lgLevel :: level
  lgFile :: "string option"

definition NewSetup :: "(string \<Rightarrow> string) \<Rightarrow> (string \<Rightarrow> gerr option) \<Rightarrow> string \<Rightarrow> bool \<Rightarrow> nat \<Rightarrow> Logger result" where
  "NewSetup lower openFile mode debug unix =
     (let handler = RegisterSensitive lower [''token'', ''exit_token'', ''proxy_token'', ''tls_key'', ''payload'']
            (newRedactingHandler \<lparr>preset = [], groups = []\<rparr>)
      in if debug then
           (case openDebugFile openFile mode unix of
              Inl err \<Rightarrow> Inl err
            | Inr name \<Rightarrow> Inr \<lparr>lgHandler = handler, lgLevel = LevelDebug, lgFile = Some name\<rparr>)
         else Inr \<lparr>lgHandler = handler, lgLevel = LevelInfo, lgFile = None\<rparr>)"

text \<open>The closer releases the debug file; without one it does nothing.\<close>

definition Closer_Close :: "Logger \<Rightarrow> string list \<Rightarrow> string list" where
  "Closer_Close l open_files = (case lgFile l of None \<Rightarrow> open_files | Some name \<Rightarrow> removeAll name open_files)"

section \<open>Specification\<close>

definition registered_keys :: "string list" where
  "registered_keys = [''token'', ''exit_token'', ''proxy_token'', ''tls_key'', ''payload'']"

definition ascii_lower :: "string \<Rightarrow> string" where
  "ascii_lower s = map (\<lambda>c. if 65 \<le> code c \<and> code c \<le> 90 then char_of (code c + 32) else c) s"

text \<open>Every attribute with a sensitive key, at any depth of groups, carries the mask only.\<close>

function masked :: "(string \<Rightarrow> bool) \<Rightarrow> attr \<Rightarrow> bool" where
  "masked sens (k, v) \<longleftrightarrow> (sens k \<longrightarrow> v = redacted) \<and>
     (case v of SGroup attrs \<Rightarrow> (\<forall>a \<in> set attrs. masked sens a) | SLazy _ \<Rightarrow> False | SVal _ \<Rightarrow> True)"
  by pat_completeness auto
termination
proof (relation "measure (\<lambda>(sens, k, v). size v)")
  fix sens :: "string \<Rightarrow> bool" and k :: string and v :: sval and attrs :: "attr list" and z :: attr
  assume g: "v = SGroup attrs" and z: "z \<in> set attrs"
  have "size (snd z) < size (SGroup attrs)" using z by (rule size_group_member)
  then show "((sens, z), sens, k, v) \<in> measure (\<lambda>(sens, k, v). size v)"
    using g by (cases z) simp
qed simp

declare masked.simps [simp del]

section \<open>Lemmas\<close>

lemma resolve_steps_not_lazy: "resolve_steps n v \<noteq> SLazy w"
proof (induction n v rule: resolve_steps.induct)
  case (1 n v)
  then show ?case by (cases n) auto
qed auto

lemma redact_masked: "masked sens (redact sens a)"
proof (induction sens a rule: redact.induct)
  case (1 sens k v)
  show ?case
  proof (cases "sens k")
    case True
    then show ?thesis by (simp add: redact.simps masked.simps redacted_def)
  next
    case False
    then show ?thesis
    proof (cases "Resolve v")
      case (SGroup attrs)
      then show ?thesis using 1 [OF False SGroup] False by (simp add: redact.simps masked.simps)
    next
      case (SLazy w)
      then show ?thesis using resolve_steps_not_lazy by (simp add: Resolve_def)
    qed (use False in \<open>simp add: redact.simps masked.simps\<close>)
  qed
qed

text \<open>Deriving a logger keeps the sensitive keys and masks what it adds.\<close>

lemma derive_sensitive: "sensitive (derive lower h ds) = sensitive h"
proof (induction lower h ds rule: derive.induct)
qed (simp_all add: WithAttrs_def WithGroup_def newRedactingHandler_def Let_def)

lemma derive_masked:
  "list_all (masked (isSensitive lower h)) (preset (next_handler h)) \<Longrightarrow>
   list_all (masked (isSensitive lower h)) (preset (next_handler (derive lower h ds)))"
proof (induction lower h ds rule: derive.induct)
  case (2 lower h as ds)
  have same: "isSensitive lower (WithAttrs lower as h) = isSensitive lower h"
    by (simp add: isSensitive_def WithAttrs_def newRedactingHandler_def Let_def fun_eq_iff)
  show ?case
  proof -
    have "list_all (masked (isSensitive lower h)) (preset (next_handler (WithAttrs lower as h)))"
      using 2(2) by (simp add: WithAttrs_def newRedactingHandler_def Let_def redact_masked list_all_iff) (auto simp: redact_masked)
    then show ?thesis using 2(1) unfolding same by simp
  qed
next
  case (3 lower h g ds)
  have same: "isSensitive lower (WithGroup g h) = isSensitive lower h"
    by (simp add: isSensitive_def WithGroup_def newRedactingHandler_def Let_def fun_eq_iff)
  show ?case using 3 unfolding same by (simp add: WithGroup_def newRedactingHandler_def Let_def)
qed simp

lemma open_loop_spec:
  assumes "name = debug_name base a"
  shows "open_loop openFile base a name e left = Inr nm \<Longrightarrow>
      \<exists>n < left. nm = debug_name base (a + n) \<and> openFile nm = None
        \<and> (\<forall>m < n. \<exists>err. openFile (debug_name base (a + m)) = Some err \<and> errors_is err OsErrExist)"
    and "open_loop openFile base a name e left = Inl er \<Longrightarrow>
      (\<exists>n < left. (\<exists>err. openFile (debug_name base (a + n)) = Some err \<and> \<not> errors_is err OsErrExist
          \<and> er = Errorf ''open debug file %q: %w'' [err])
        \<and> (\<forall>m < n. \<exists>err. openFile (debug_name base (a + m)) = Some err \<and> errors_is err OsErrExist))
      \<or> (\<forall>m < left. \<exists>err. openFile (debug_name base (a + m)) = Some err \<and> errors_is err OsErrExist)"
  using assms
proof (induction left arbitrary: a name e)
  case (Suc left)
  have next_name: "base @ ''.'' @ show_nat (a + 1) = debug_name base (a + 1)" for a by (simp add: debug_name_def)
  have shift: "(\<exists>err. openFile (debug_name base a) = Some err \<and> errors_is err OsErrExist) \<Longrightarrow>
      (\<forall>m < k. \<exists>err. openFile (debug_name base (a + 1 + m)) = Some err \<and> errors_is err OsErrExist) \<Longrightarrow>
      (\<forall>m < Suc k. \<exists>err. openFile (debug_name base (a + m)) = Some err \<and> errors_is err OsErrExist)" for a k
    by (auto simp: less_Suc_eq_0_disj)
  {
    case 1
    then show ?case
    proof (cases "openFile name")
      case None
      then show ?thesis using 1 by (intro exI [of _ 0]) auto
    next
      case (Some err)
      then have ex: "errors_is err OsErrExist"
        and rest: "open_loop openFile base (a + 1) (base @ ''.'' @ show_nat (a + 1)) err left = Inr nm"
        using 1 by (auto split: if_splits)
      from Suc.IH(1) [OF rest next_name] obtain n where "n < left" "nm = debug_name base (a + 1 + n)" "openFile nm = None"
        "\<forall>m < n. \<exists>err. openFile (debug_name base (a + 1 + m)) = Some err \<and> errors_is err OsErrExist" by blast
      then show ?thesis using shift [of a n] ex Some 1(2) by (intro exI [of _ "Suc n"]) auto
    qed
  next
    case 2
    then obtain err where err: "openFile (debug_name base a) = Some err" by (cases "openFile name") auto
    show ?case
    proof (cases "errors_is err OsErrExist")
      case False
      then show ?thesis using 2 err by (intro disjI1 exI [of _ 0]) auto
    next
      case True
      then have rest: "open_loop openFile base (a + 1) (base @ ''.'' @ show_nat (a + 1)) err left = Inl er"
        using 2 err by auto
      from Suc.IH(2) [OF rest next_name] show ?thesis
      proof (elim disjE exE conjE)
        fix n er' assume "n < left" "openFile (debug_name base (a + 1 + n)) = Some er'" "\<not> errors_is er' OsErrExist"
          "er = Errorf ''open debug file %q: %w'' [er']"
          "\<forall>m < n. \<exists>err. openFile (debug_name base (a + 1 + m)) = Some err \<and> errors_is err OsErrExist"
        then show ?thesis using shift [of a n] True err by (intro disjI1 exI [of _ "Suc n"]) auto
      next
        assume "\<forall>m < left. \<exists>err. openFile (debug_name base (a + 1 + m)) = Some err \<and> errors_is err OsErrExist"
        then show ?thesis using shift [of a left] True err by blast
      qed
    qed
  }
qed simp_all

lemma debug_name_inj: "debug_name base m = debug_name base n \<Longrightarrow> m = n"
proof -
  have "show_nat m = show_nat n \<Longrightarrow> m = n" by (metis parse_uint_show_nat)
  then show "debug_name base m = debug_name base n \<Longrightarrow> m = n" by (simp add: debug_name_def split: if_splits)
qed

lemma ascii_lower_registered: "map ascii_lower registered_keys = registered_keys"
  by (simp add: registered_keys_def ascii_lower_def)

lemma NewSetup_handler:
  assumes "NewSetup lower openFile mode debug unix = Inr lg"
    and "\<And>k. list_all (\<lambda>c. code c < 128) k \<Longrightarrow> lower k = ascii_lower k"
  shows "preset (next_handler (lgHandler lg)) = [] \<and> isSensitive lower (lgHandler lg) = (\<lambda>k. lower k \<in> set registered_keys)"
proof -
  have "map lower registered_keys = map ascii_lower registered_keys"
    using assms(2) by (simp add: registered_keys_def)
  then have "map lower registered_keys = registered_keys" by (simp only: ascii_lower_registered)
  then show ?thesis using assms(1)
    by (auto simp: NewSetup_def Let_def RegisterSensitive_def newRedactingHandler_def isSensitive_def fun_eq_iff
      registered_keys_def split: if_splits sum.splits)
qed

section \<open>Properties\<close>

text \<open>
  C29. Sensitive attributes never reach the console or the debug file. For the logger that \<open>NewSetup\<close>
  returns, after any sequence of \<open>With\<close> and \<open>WithGroup\<close> derivations and for any record, every attribute
  whose lower-cased key is one of the five registered keys carries the mask only, at any depth of
  nested groups and behind any \<open>LogValuer\<close>. (\<open>lower\<close> is \<open>strings.ToLower\<close>, which on ASCII text is
  the ASCII mapping.)
\<close>

theorem redaction_complete:
  assumes "NewSetup lower openFile mode debug unix = Inr lg"
    and "\<And>k. list_all (\<lambda>c. code c < 128) k \<Longrightarrow> lower k = ascii_lower k"
  shows "list_all (masked (\<lambda>k. lower k \<in> {''token'', ''exit_token'', ''proxy_token'', ''tls_key'', ''payload''}))
    (Handle lower (derive lower (lgHandler lg) ds) attrs)"
proof -
  let ?h = "lgHandler lg"
  note h = NewSetup_handler [OF assms]
  have same: "isSensitive lower (derive lower ?h ds) = isSensitive lower ?h"
    by (simp add: isSensitive_def derive_sensitive fun_eq_iff)
  have "list_all (masked (isSensitive lower ?h)) (preset (next_handler (derive lower ?h ds)))"
    by (rule derive_masked) (simp add: h)
  then have "list_all (masked (isSensitive lower ?h)) (Handle lower (derive lower ?h ds) attrs)"
    unfolding Handle_def same by (auto simp: list_all_iff redact_masked)
  then show ?thesis using h by (simp add: registered_keys_def)
qed

theorem redaction_complete_witness:
  "\<exists>lg. NewSetup ascii_lower (\<lambda>_. None) ''relay'' True 1700000000 = Inr lg
     \<and> list_all (masked (\<lambda>k. ascii_lower k \<in> {''token'', ''exit_token'', ''proxy_token'', ''tls_key'', ''payload''}))
        (Handle ascii_lower (derive ascii_lower (lgHandler lg) [DAttrs [(''Token'', SVal ''s3cret'')], DGroup ''g''])
          [(''peer'', SLazy (SGroup [(''TLS_KEY'', SVal ''pem'')]))])"
proof -
  obtain lg where lg: "NewSetup ascii_lower (\<lambda>_. None) ''relay'' True 1700000000 = Inr lg"
  proof -
    have "openDebugFile (\<lambda>_. None) ''relay'' 1700000000 = Inr (debug_base ''relay'' 1700000000)"
      using open_loop.simps(2) [where left = 63] by (simp add: openDebugFile_def Let_def maxDebugCollisionAttempts_def)
    then show ?thesis using that by (simp add: NewSetup_def Let_def)
  qed
  then show ?thesis using redaction_complete [OF lg, of "[DAttrs [(''Token'', SVal ''s3cret'')], DGroup ''g'']"] by blast
qed

text \<open>
  Redaction looks at keys only: a value under a key that is not registered, for example the text
  of an error, passes unchanged, and so do attributes inside a \<open>WithGroup\<close> group that has a registered name.
\<close>

theorem redaction_by_key_only:
  "Handle ascii_lower (WithGroup ''token'' (RegisterSensitive ascii_lower [''token''] (newRedactingHandler \<lparr>preset = [], groups = []\<rparr>)))
     [(''error'', SVal secret), (''value'', SVal secret)] = [(''error'', SVal secret), (''value'', SVal secret)]"
  by (simp add: Handle_def WithGroup_def RegisterSensitive_def newRedactingHandler_def redact.simps isSensitive_def
    Let_def Resolve_def ascii_lower_def)

text \<open>
  The debug file never overwrites an existing one and the search for a name ends. The name returned
  is the first of 64 pairwise distinct candidates that does not exist, created exclusively; any other
  failure, or the existence of all 64, is an error.
\<close>

theorem openDebugFile_exclusive:
  "(case openDebugFile openFile mode unix of
      Inr name \<Rightarrow> \<exists>n < 64. name = debug_name (debug_base mode unix) n \<and> openFile name = None
        \<and> (\<forall>m < n. \<exists>err. openFile (debug_name (debug_base mode unix) m) = Some err \<and> errors_is err OsErrExist)
    | Inl e \<Rightarrow> (\<exists>n < 64. \<exists>err. openFile (debug_name (debug_base mode unix) n) = Some err \<and> \<not> errors_is err OsErrExist)
        \<or> (\<forall>m < 64. \<exists>err. openFile (debug_name (debug_base mode unix) m) = Some err \<and> errors_is err OsErrExist))
   \<and> inj (debug_name (debug_base mode unix))"
proof -
  let ?base = "debug_base mode unix"
  have b: "?base = debug_name ?base 0" by (simp add: debug_name_def)
  have "inj (debug_name ?base)" by (rule injI) (rule debug_name_inj)
  moreover obtain e where o: "openDebugFile openFile mode unix = open_loop openFile ?base 0 ?base e 64"
    by (simp add: openDebugFile_def Let_def maxDebugCollisionAttempts_def)
  ultimately show ?thesis
    using open_loop_spec(1) [OF b, of openFile e 64] open_loop_spec(2) [OF b, of openFile e 64]
    unfolding o by (cases "open_loop openFile ?base 0 ?base e 64") (simp_all, blast)
qed

end
