(* ===== verification/Nodes.thy ===== *)
theory Nodes
  imports Handshake Connector Broker Listener
begin

text \<open>
  The two client processes of \<open>src/cmd/mhp/main.go\<close> (\<open>runExit\<close>, \<open>runProxy\<close>) as compositions:
  the connector runs in the background, each of its attempts being one \<open>authenticate\<close>; the
  broker or the listener runs in the foreground; both watch one context, and the runner returns when
  both have ended (\<open>wg.Wait\<close>).
\<close>

section \<open>One attempt of the connector\<close>

text \<open>\<open>connect\<close> in terms of \<open>authenticate\<close>: its outcome is the connector's event.\<close>

definition connect_event :: "Authenticator \<Rightarrow> dial_env \<Rightarrow> cevent" where
  "connect_event a env = (case fst (authenticate a env) of Inl err \<Rightarrow> AuthFails err | Inr s \<Rightarrow> AuthOk)"

text \<open>Events of the connector's own goroutines, its peers and the clock.\<close>

fun conn_local :: "cevent \<Rightarrow> bool" where
  "conn_local (AuthFails e) = False"
| "conn_local AuthOk = False"
| "conn_local (ParentCancel e) = False"
| "conn_local ev = True"

section \<open>The exit node\<close>

record exit_node =
  xconn :: connector
  xbroker :: broker

datatype exit_event = XAttempt dial_env | XConn cevent | XPoll | XBroker broker_event | XCancel gerr

definition exit_node_start :: "Authenticator \<Rightarrow> exit_node" where
  "exit_node_start a = \<lparr>xconn = connector_start (aTiming a), xbroker = NewBroker\<rparr>"

text \<open>The links whose session's \<open>Done\<close> channel is closed: this is what the broker observes.\<close>

definition closing_links :: "connector \<Rightarrow> nat set" where
  "closing_links c = set (filter (\<lambda>i. Session_Done (links c ! i)) [0..<length (links c)])"

definition with_conn :: "exit_node \<Rightarrow> connector \<Rightarrow> exit_node" where
  "with_conn x c = \<lparr>xconn = c, xbroker = (xbroker x)\<lparr>ended := closing_links c\<rparr>\<rparr>"

fun broker_local :: "broker_event \<Rightarrow> bool" where
  "broker_local (BSnapshot l) = False"
| "broker_local (LinkEnds l) = False"
| "broker_local (CtxCancelled e) = False"
| "broker_local ev = True"

text \<open>\<open>serveSession\<close> closes the session it leaves.\<close>

definition broker_closes :: "broker \<Rightarrow> broker_event \<Rightarrow> connector \<Rightarrow> connector" where
  "broker_closes b ev c = (case bpc b of
      BServing i \<Rightarrow> if ev \<in> {BSeesCtx, BSeesSessionEnd} then upd_link (alink (accs b ! i)) Session_Close c else c
    | _ \<Rightarrow> c)"

fun exit_node_step :: "Authenticator \<Rightarrow> exit_node \<Rightarrow> exit_event \<Rightarrow> exit_node option" where
  "exit_node_step a x (XAttempt env) =
     map_option (with_conn x) (connector_step (aTiming a) (xconn x) (connect_event a env))"
| "exit_node_step a x (XConn ev) =
     (if conn_local ev then map_option (with_conn x) (connector_step (aTiming a) (xconn x) ev) else None)"
| "exit_node_step a x XPoll =
     map_option (\<lambda>b. x\<lparr>xbroker := b\<rparr>) (broker_step (xbroker x) (BSnapshot (Snapshot (xconn x))))"
| "exit_node_step a x (XBroker ev) =
     (if broker_local ev
      then map_option (\<lambda>b. \<lparr>xconn = broker_closes (xbroker x) ev (xconn x), xbroker = b\<rparr>) (broker_step (xbroker x) ev)
      else None)"
| "exit_node_step a x (XCancel err) =
     (case (connector_step (aTiming a) (xconn x) (ParentCancel err), broker_step (xbroker x) (CtxCancelled err)) of
        (Some c, Some b) \<Rightarrow> Some \<lparr>xconn = c, xbroker = b\<rparr>
      | _ \<Rightarrow> None)"

text \<open>What \<open>runExit\<close> returns, once it has joined both.\<close>

definition exit_result :: "exit_node \<Rightarrow> gerr option" where
  "exit_result x = (case (bpc (xbroker x), pc (xconn x)) of (BReturned err, Stopped _) \<Rightarrow> Some err | _ \<Rightarrow> None)"

section \<open>The proxy node\<close>

record proxy_node =
  pxconn :: connector
  pxlst :: proxy

datatype proxy_node_event = NAttempt dial_env | NConn cevent | NListener proxy_event | NCancel gerr

definition proxy_node_start :: "Authenticator \<Rightarrow> string list \<Rightarrow> proxy_node" where
  "proxy_node_start a credentials = \<lparr>pxconn = connector_start (aTiming a), pxlst = proxy_start credentials\<rparr>"

fun proxy_node_step :: "Authenticator \<Rightarrow> proxy_node \<Rightarrow> proxy_node_event \<Rightarrow> proxy_node option" where
  "proxy_node_step a x (NAttempt env) =
     map_option (\<lambda>c. x\<lparr>pxconn := c\<rparr>) (connector_step (aTiming a) (pxconn x) (connect_event a env))"
| "proxy_node_step a x (NConn ev) =
     (if conn_local ev then map_option (\<lambda>c. x\<lparr>pxconn := c\<rparr>) (connector_step (aTiming a) (pxconn x) ev) else None)"
| "proxy_node_step a x (NListener ev) =
     (case ev of PCancel e \<Rightarrow> None | _ \<Rightarrow> map_option (\<lambda>p. x\<lparr>pxlst := p\<rparr>) (proxy_step (pxlst x) ev))"
| "proxy_node_step a x (NCancel err) =
     (case (connector_step (aTiming a) (pxconn x) (ParentCancel err), proxy_step (pxlst x) (PCancel err)) of
        (Some c, Some p) \<Rightarrow> Some \<lparr>pxconn = c, pxlst = p\<rparr>
      | _ \<Rightarrow> None)"

definition proxy_result :: "proxy_node \<Rightarrow> gerr option" where
  "proxy_result x = (case pc (pxconn x) of Stopped _ \<Rightarrow> presult (pxlst x) | _ \<Rightarrow> None)"

section \<open>Specification\<close>

text \<open>
  An error of \<open>SetDeadline\<close> is a network error, never \<open>context.Canceled\<close>: this is what
  \<open>net.Conn\<close> documents.
\<close>

definition deadline_documented :: "dial_env \<Rightarrow> bool" where
  "deadline_documented env \<longleftrightarrow> (case dSetup env of None \<Rightarrow> True | Some e \<Rightarrow> \<not> errors_is e Canceled)"

fun proxy_attempt_ok :: "proxy_node_event \<Rightarrow> bool" where
  "proxy_attempt_ok (NAttempt env) = deadline_documented env"
| "proxy_attempt_ok ev = True"

text \<open>The invariant that ties broker and connector together.\<close>

definition exit_inv :: "Authenticator \<Rightarrow> exit_node \<Rightarrow> bool" where
  "exit_inv a x \<longleftrightarrow> connector_inv (aTiming a) (xconn x) \<and> broker_inv (xbroker x)
     \<and> bctx (xbroker x) = parent (xconn x) \<and> ended (xbroker x) = closing_links (xconn x)
     \<and> sorted_wrt (<) (map alink (accs (xbroker x)))
     \<and> (\<forall>l \<in> set (accs (xbroker x)). alink l < length (links (xconn x))
          \<and> (astop l \<longrightarrow> close_called (links (xconn x) ! alink l)))"

text \<open>The work left to a node whose context has ended.\<close>

definition conn_work :: "connector \<Rightarrow> nat" where
  "conn_work c = (case pc c of
      Stopped _ \<Rightarrow> 0 | Waiting t \<Rightarrow> (if now c < t then 1 else 3) | Connecting \<Rightarrow> 2 | Serving _ \<Rightarrow> 3)"

definition broker_work :: "broker \<Rightarrow> nat" where
  "broker_work b = (case bpc b of BReturned _ \<Rightarrow> 0 | BTop \<Rightarrow> 1 | BSleeping \<Rightarrow> 2 | BServing _ \<Rightarrow> 2 | BPolls \<Rightarrow> 3)"

definition exit_work :: "exit_node \<Rightarrow> nat" where
  "exit_work x = conn_work (xconn x) + broker_work (xbroker x)"

text \<open>The steps of the connector's loop and of the broker's loop.\<close>

fun exit_drives :: "Authenticator \<Rightarrow> exit_event \<Rightarrow> bool" where
  "exit_drives a (XAttempt env) = isl (fst (authenticate a env))"
| "exit_drives a (XConn ev) = (ev \<in> {BackoffElapsed, BackoffCancelled, LinkDone, ParentDone})"
| "exit_drives a (XBroker ev) = (ev \<in> {BCheckCtx, BWakes, BSleepCancelled, BSeesCtx, BSeesSessionEnd})"
| "exit_drives a XPoll = True"
| "exit_drives a ev = False"

text \<open>What could prolong the shutdown: another successful attempt, or time passing.\<close>

fun exit_prolongs :: "Authenticator \<Rightarrow> exit_event \<Rightarrow> bool" where
  "exit_prolongs a (XAttempt env) = (\<not> isl (fst (authenticate a env)))"
| "exit_prolongs a (XConn (Tick n)) = True"
| "exit_prolongs a ev = False"

text \<open>The connector stops only after a cancellation, unless an attempt reported one.\<close>

definition stops_cancelled :: "connector \<Rightarrow> bool" where
  "stops_cancelled c \<longleftrightarrow> (\<forall>r. pc c = Stopped r \<longrightarrow> parent c \<noteq> None)"

text \<open>Sessions are only ever added, and never reopened.\<close>

definition conn_extends :: "connector \<Rightarrow> connector \<Rightarrow> bool" where
  "conn_extends c d \<longleftrightarrow> length (links c) \<le> length (links d)
     \<and> (\<forall>i < length (links c). (closing (links c ! i) \<longrightarrow> closing (links d ! i))
          \<and> (close_called (links c ! i) \<longrightarrow> close_called (links d ! i)))"

text \<open>An attempt whose dial is refused.\<close>

definition refusedDial :: dial_env where
  "refusedDial = (sampleDial (sampleConn []))\<lparr>dDial := Inl (Sentinel (Env ''connection refused''))\<rparr>"

section \<open>Attempts never report a cancellation\<close>

lemma not_canceled_dial: "auth_dial a env = Inl (err, c) \<Longrightarrow> \<not> errors_is err Canceled"
  by (auto simp: auth_dial_def dialTLS_def SetDeadline_def split: sum.splits prod.splits option.splits)

lemma not_canceled_response: "validateResponse r = Some err \<Longrightarrow> \<not> errors_is err Canceled"
  by (auto simp: validateResponse_def split: if_splits)

lemma not_canceled_exchange:
  "deadline_documented env \<Longrightarrow> exchange a env k = (Inl err, c) \<Longrightarrow> \<not> errors_is err Canceled"
  by (auto simp: exchange_def deadline_documented_def SetDeadline_def not_canceled_response
      split: sum.splits prod.splits option.splits if_splits)

lemma authenticate_not_canceled:
  "deadline_documented env \<Longrightarrow> fst (authenticate a env) = Inl err \<Longrightarrow> \<not> errors_is err Canceled"
  by (auto simp: authenticate_def dest: not_canceled_dial not_canceled_exchange
      split: sum.splits prod.splits option.splits)

lemma connect_event_cases:
  "connect_event a env = (if isl (fst (authenticate a env)) then AuthFails (projl (fst (authenticate a env))) else AuthOk)"
  by (auto simp: connect_event_def split: sum.splits)

lemma stops_cancelled_step:
  assumes "stops_cancelled c" and "connector_step tm c ev = Some d"
    and "\<And>e. ev = AuthFails e \<Longrightarrow> \<not> errors_is e Canceled"
  shows "stops_cancelled d"
  using assms
  by (cases ev)
    (auto simp: stops_cancelled_def clearIf_def upd_link_def dest: sym split: if_splits cpc.splits option.splits)

section \<open>Composition of connector and broker\<close>

lemma closing_links_iff [simp]: "i \<in> closing_links c \<longleftrightarrow> i < length (links c) \<and> closing (links c ! i)"
  by (auto simp: closing_links_def)

lemma connector_step_extends: "connector_step tm c ev = Some d \<Longrightarrow> conn_extends c d"
  by (cases ev)
    (auto simp: conn_extends_def clearIf_def upd_link_def mux_watcher_def link_watcher_def Session_Close_def nth_update nth_append
      split: if_splits cpc.splits)

lemma connector_step_ctx:
  "connector_step tm c ev = Some d \<Longrightarrow> i < length (links c) \<Longrightarrow> ctx_done (links c ! i) \<Longrightarrow> ctx_done (links d ! i)"
  by (cases ev)
    (auto simp: clearIf_def upd_link_def mux_watcher_def link_watcher_def Session_Close_def nth_update nth_append
      split: if_splits cpc.splits)

lemma broker_inv_ended: "broker_inv b \<Longrightarrow> ended b \<subseteq> E \<Longrightarrow> broker_inv (b\<lparr>ended := E\<rparr>)"
  by (auto simp: broker_inv_def inv_streams_def inv_stop_def)

lemma conn_extends_closing: "conn_extends c d \<Longrightarrow> closing_links c \<subseteq> closing_links d"
  by (auto simp: conn_extends_def)

lemma exit_inv_conn:
  assumes "exit_inv a x" and "connector_inv (aTiming a) c" and "conn_extends (xconn x) c" and "parent c = parent (xconn x)"
  shows "exit_inv a (with_conn x c)"
  using assms conn_extends_closing [OF assms(3)]
  by (fastforce simp: exit_inv_def with_conn_def conn_extends_def intro!: broker_inv_ended)

lemma acc_update_stop: "map astop (as[i := (as ! i)\<lparr>astate := st\<rparr>]) = map astop as"
  by (auto intro: nth_equalityI simp: acc_update)

lemma broker_local_step:
  assumes "broker_local ev" and "broker_step b ev = Some b'"
  obtains (leaves) i where "ev \<in> {BSeesCtx, BSeesSessionEnd}" "bpc b = BServing i" "b' = leave_session i b"
  | (stays) "ev \<notin> {BSeesCtx, BSeesSessionEnd}" "ended b' = ended b" "bctx b' = bctx b"
      "map alink (accs b') = map alink (accs b)" "map astop (accs b') = map astop (accs b)"
  using assms stays leaves
  by (cases ev) (auto simp: acc_update_links acc_update_stop split: if_splits bpc.splits option.splits astate.splits)

text \<open>A snapshot is the newest session, so the broker only moves forward.\<close>

lemma snapshot_newest: "connector_inv tm c \<Longrightarrow> Snapshot c = Some i \<Longrightarrow> Suc i = length (links c)"
  by (auto simp: connector_inv_def pc_ok_def Snapshot_def split: cpc.splits option.splits)

lemma last_alink: "broker_inv b \<Longrightarrow> accs b \<noteq> [] \<Longrightarrow> lastLink b = Some (alink (last (accs b)))"
  by (simp add: broker_inv_def inv_links_def last_map)

lemma sorted_extends:
  assumes "sorted_wrt (<) (map f xs)" and "xs \<noteq> [] \<Longrightarrow> f (last xs) < (n :: nat)"
  shows "sorted_wrt (<) (map f xs @ [n])"
proof -
  have "f x \<le> f (last xs)" if "x \<in> set xs" for x
    using assms(1) that by (cases xs rule: rev_cases) (auto simp: sorted_wrt_append intro: less_imp_le)
  then show ?thesis using assms by (cases "xs = []") (auto simp: sorted_wrt_append intro: le_less_trans)
qed

lemma exit_inv_poll:
  assumes inv: "exit_inv a x" and step: "exit_node_step a x XPoll = Some y"
  shows "exit_inv a y"
proof -
  obtain b where b: "broker_step (xbroker x) (BSnapshot (Snapshot (xconn x))) = Some b" "y = x\<lparr>xbroker := b\<rparr>"
    using step by auto
  have binv: "broker_inv b" using inv broker_ok.event_inv [OF _ b(1)] by (simp add: exit_inv_def)
  show ?thesis
  proof (cases "accs b = accs (xbroker x)")
    case True
    then show ?thesis using inv binv b by (auto simp: exit_inv_def split: if_splits)
  next
    case False
    then obtain i where i: "Snapshot (xconn x) = Some i" "lastLink (xbroker x) \<noteq> Some i"
        "accs b = accs (xbroker x) @ [\<lparr>alink = i, astate = ATop, astop = False\<rparr>]" "ended b = ended (xbroker x)"
        "bctx b = bctx (xbroker x)"
      using b(1) by (cases "Snapshot (xconn x)") (auto split: if_splits)
    have n: "Suc i = length (links (xconn x))" using inv i(1) by (auto simp: exit_inv_def intro: snapshot_newest)
    have "alink (last (accs (xbroker x))) < i" if "accs (xbroker x) \<noteq> []"
    proof -
      have "alink (last (accs (xbroker x))) < Suc i" using inv last_in_set [OF that] n by (simp add: exit_inv_def)
      moreover have "alink (last (accs (xbroker x))) \<noteq> i" using inv last_alink [of "xbroker x"] that i(2) by (simp add: exit_inv_def)
      ultimately show ?thesis by simp
    qed
    then have "sorted_wrt (<) (map alink (accs (xbroker x)) @ [i])" using inv by (intro sorted_extends) (auto simp: exit_inv_def)
    then show ?thesis using inv binv b(2) i n by (auto simp: exit_inv_def)
  qed
qed

lemma Session_Close_grows: "link_ok p l \<Longrightarrow> link_grows p l (Session_Close l)"
  by (simp add: link_grows_def link_ok_def Session_Close_def)

lemma exit_inv_leave:
  assumes inv: "exit_inv a x" and i: "bpc (xbroker x) = BServing i" and binv: "broker_inv (leave_session i (xbroker x))"
  shows "exit_inv a \<lparr>xconn = upd_link (alink (accs (xbroker x) ! i)) Session_Close (xconn x), xbroker = leave_session i (xbroker x)\<rparr>"
proof -
  let ?b = "xbroker x" and ?c = "xconn x" and ?l = "alink (accs (xbroker x) ! i)"
  have n: "i < length (accs ?b)" using inv i by (auto simp: exit_inv_def broker_inv_def inv_stop_def)
  then have l: "?l < length (links ?c)" using inv by (simp add: exit_inv_def)
  have c: "connector_inv (aTiming a) (upd_link ?l Session_Close ?c)"
    using inv l by (intro inv_upd_link Session_Close_grows link_ok_nth) (auto simp: exit_inv_def)
  have cl: "closing_links (upd_link ?l Session_Close ?c) = insert ?l (closing_links ?c)"
    using l by (auto simp: upd_link_def nth_update Session_Close_def split: if_splits)
  have acc: "alink acc < length (links ?c) \<and> (astop acc \<longrightarrow> close_called (links (upd_link ?l Session_Close ?c) ! alink acc))"
    if "acc \<in> set (accs (leave_session i ?b))" for acc
  proof -
    from that have "acc = (accs ?b ! i)\<lparr>astop := True\<rparr> \<or> acc \<in> set (accs ?b)"
      using set_update_subset_insert by (fastforce simp: leave_session_def)
    then show ?thesis using inv l by (auto simp: exit_inv_def upd_link_def nth_update Session_Close_def)
  qed
  show ?thesis using inv c cl acc binv
    by (auto simp: exit_inv_def leave_session_def acc_update_links upd_link_def)
qed

lemma exit_inv_broker:
  assumes inv: "exit_inv a x" and step: "exit_node_step a x (XBroker ev) = Some y"
  shows "exit_inv a y"
proof -
  obtain b where b: "broker_local ev" "broker_step (xbroker x) ev = Some b"
      "y = \<lparr>xconn = broker_closes (xbroker x) ev (xconn x), xbroker = b\<rparr>"
    using step by (auto split: if_splits)
  have binv: "broker_inv b" using inv broker_ok.event_inv [OF _ b(2)] by (simp add: exit_inv_def)
  from b(1,2) show ?thesis
  proof (cases rule: broker_local_step)
    case (leaves i)
    then show ?thesis using exit_inv_leave [OF inv, of i] binv b(3) by (simp add: broker_closes_def)
  next
    case stays
    have len: "length (accs b) = length (accs (xbroker x))" using stays(4) by (metis length_map)
    have "alink (accs b ! j) = alink (accs (xbroker x) ! j)" "astop (accs b ! j) = astop (accs (xbroker x) ! j)"
      if "j < length (accs b)" for j
      using stays(4,5) that len by (metis nth_map)+
    then have "\<forall>l \<in> set (accs b). alink l < length (links (xconn x)) \<and> (astop l \<longrightarrow> close_called (links (xconn x) ! alink l))"
      using inv len by (auto simp: exit_inv_def set_conv_nth)
    moreover have "xconn y = xconn x" using stays(1) b(3) by (auto simp: broker_closes_def split: bpc.splits)
    ultimately show ?thesis using inv binv b(3) stays by (simp add: exit_inv_def)
  qed
qed

lemma parent_local:
  "connector_step tm c ev = Some d \<Longrightarrow> (\<And>e. ev \<noteq> ParentCancel e) \<Longrightarrow> parent d = parent c"
  by (cases ev) (auto simp: clearIf_def upd_link_def split: if_splits cpc.splits)

lemma exit_inv_cancel:
  assumes "timing_ok (aTiming a)" and "MaxBackoff (aTiming a) < 2 ^ 62"
    and inv: "exit_inv a x" and step: "exit_node_step a x (XCancel err) = Some y"
  shows "exit_inv a y"
proof -
  obtain c b where cb: "connector_step (aTiming a) (xconn x) (ParentCancel err) = Some c"
      "broker_step (xbroker x) (CtxCancelled err) = Some b" "y = \<lparr>xconn = c, xbroker = b\<rparr>"
    using step by (auto simp del: connector_step.simps broker_step.simps split: option.splits)
  have "connector_inv (aTiming a) c" "broker_inv b"
    using inv connector_inv_step [OF assms(1,2) _ cb(1)] broker_ok.event_inv [OF _ cb(2)] by (simp_all add: exit_inv_def)
  then show ?thesis using inv cb by (auto simp: exit_inv_def split: if_splits)
qed

lemma exit_inv_step:
  assumes tm: "timing_ok (aTiming a)" "MaxBackoff (aTiming a) < 2 ^ 62"
    and inv: "exit_inv a x" and step: "exit_node_step a x ev = Some y"
  shows "exit_inv a y"
proof -
  have conn: "exit_inv a (with_conn x c)"
    if "connector_step (aTiming a) (xconn x) e = Some c" "\<And>err. e \<noteq> ParentCancel err" for e c
    using inv that connector_inv_step [OF tm _ that(1)] connector_step_extends [OF that(1)] parent_local [OF that]
    by (intro exit_inv_conn) (auto simp: exit_inv_def)
  show ?thesis
  proof (cases ev)
    case (XAttempt env)
    then show ?thesis using step conn [of "connect_event a env"]
      by (auto simp: connect_event_cases simp del: connector_step.simps split: if_splits)
  next
    case (XConn e)
    then show ?thesis using step conn [of e] by (cases e) (auto simp del: connector_step.simps)
  next
    case XPoll
    then show ?thesis using step exit_inv_poll [OF inv] by simp
  next
    case (XBroker e)
    then show ?thesis using step exit_inv_broker [OF inv] by simp
  next
    case (XCancel err)
    then show ?thesis using step exit_inv_cancel [OF tm inv] by simp
  qed
qed

lemma exit_machine:
  assumes "timing_ok (aTiming a)" and "MaxBackoff (aTiming a) < 2 ^ 62"
  shows "machine_invariant (exit_node_start a) (exit_node_step a) (exit_inv a)"
proof
  have "connector_inv (aTiming a) (connector_start (aTiming a))"
    by (rule machine_invariant.start_inv [OF connector_machine [OF assms]])
  then show "exit_inv a (exit_node_start a)"
    using broker_ok.start_inv by (auto simp: exit_inv_def exit_node_start_def NewBroker_def connector_start_def closing_links_def)
qed (rule exit_inv_step [OF assms])

interpretation sample_exit: machine_invariant
  "exit_node_start sampleAuth" "exit_node_step sampleAuth" "exit_inv sampleAuth"
  by (rule exit_machine) (simp_all add: sampleAuth_def DefaultTiming_ok, simp add: DefaultTiming_def Second_def)

section \<open>Shutdown\<close>

lemma exit_work_zero: "exit_work x = 0 \<longleftrightarrow> exit_result x \<noteq> None"
  by (auto simp: exit_work_def conn_work_def broker_work_def exit_result_def split: cpc.splits bpc.splits)

lemma conn_work_upd [simp]: "conn_work (upd_link i f c) = conn_work c"
  by (simp add: conn_work_def upd_link_def split: cpc.split)

lemma conn_work_same: "conn_work (c\<lparr>parent := p, links := ls\<rparr>) = conn_work c"
  by (simp add: conn_work_def split: cpc.split)

lemma conn_work_clearIf: "pc c = Serving i \<Longrightarrow> conn_work ((clearIf j c)\<lparr>pc := Connecting, backoffd := n\<rparr>) < conn_work c"
  by (simp add: conn_work_def clearIf_def)

lemma conn_work_step:
  assumes "connector_inv tm c" and "timing_ok tm" and "connector_step tm c ev = Some d"
  shows "ev \<in> {BackoffElapsed, BackoffCancelled, LinkDone, ParentDone} \<or> (\<exists>e. ev = AuthFails e) \<Longrightarrow> conn_work d < conn_work c"
    and "ev \<notin> {BackoffElapsed, BackoffCancelled, LinkDone, ParentDone, AuthOk} \<Longrightarrow> (\<And>e. ev \<noteq> AuthFails e)
      \<Longrightarrow> (\<And>n. ev \<noteq> Tick n) \<Longrightarrow> conn_work d = conn_work c"
proof -
  have "0 < backoffd c" using assms(1) timing_okD(1) [OF assms(2)] by (auto simp: connector_inv_def)
  then show "ev \<in> {BackoffElapsed, BackoffCancelled, LinkDone, ParentDone} \<or> (\<exists>e. ev = AuthFails e) \<Longrightarrow> conn_work d < conn_work c"
    using assms(3)
    by (auto simp: conn_work_clearIf split: if_splits cpc.splits) (auto simp: conn_work_def)
  show "ev \<notin> {BackoffElapsed, BackoffCancelled, LinkDone, ParentDone, AuthOk} \<Longrightarrow> (\<And>e. ev \<noteq> AuthFails e)
      \<Longrightarrow> (\<And>n. ev \<noteq> Tick n) \<Longrightarrow> conn_work d = conn_work c"
    using assms(3) by (cases ev) (auto simp: conn_work_same split: if_splits)
qed

lemma broker_work_step:
  assumes "broker_step b ev = Some b'" and "broker_local ev" and "bctx b \<noteq> None"
  shows "if ev \<in> {BCheckCtx, BWakes, BSleepCancelled, BSeesCtx, BSeesSessionEnd}
    then broker_work b' < broker_work b else broker_work b' = broker_work b"
  using assms
  by (cases ev) (auto simp: broker_work_def leave_session_def split: if_splits bpc.splits option.splits astate.splits)

lemma exit_work_step:
  assumes inv: "exit_inv a x" and tm: "timing_ok (aTiming a)" and ctx: "parent (xconn x) \<noteq> None"
    and step: "exit_node_step a x ev = Some y"
  shows "exit_drives a ev \<Longrightarrow> exit_work y < exit_work x"
    and "\<not> exit_drives a ev \<Longrightarrow> \<not> exit_prolongs a ev \<Longrightarrow> exit_work y = exit_work x"
proof -
  have c: "connector_inv (aTiming a) (xconn x)" using inv by (simp add: exit_inv_def)
  have w: "xconn (with_conn x d) = d" "broker_work (xbroker (with_conn x d)) = broker_work (xbroker x)" for d
    by (simp_all add: with_conn_def broker_work_def)
  have bx: "bctx (xbroker x) \<noteq> None" using inv ctx by (simp add: exit_inv_def)
  have bc: "conn_work (broker_closes b e (xconn x)) = conn_work (xconn x)" for b e
    by (simp add: broker_closes_def split: bpc.split)
  show "exit_drives a ev \<Longrightarrow> exit_work y < exit_work x"
  proof (cases ev)
    case XPoll
    then show ?thesis using step by (auto simp: exit_work_def broker_work_def split: if_splits)
  next
    case (XBroker e)
    then show "exit_drives a ev \<Longrightarrow> ?thesis" using step broker_work_step [of "xbroker x" e] bx
      by (auto simp: exit_work_def bc simp del: broker_step.simps split: if_splits)
  qed (use step in \<open>auto simp: w exit_work_def connect_event_cases simp del: connector_step.simps
      dest!: conn_work_step(1) [OF c tm] split: if_splits\<close>)
  show "\<not> exit_drives a ev \<Longrightarrow> \<not> exit_prolongs a ev \<Longrightarrow> exit_work y = exit_work x"
  proof (cases ev)
    case (XConn e)
    then show "\<not> exit_drives a ev \<Longrightarrow> \<not> exit_prolongs a ev \<Longrightarrow> ?thesis" using step
      by (cases e) (auto simp: w exit_work_def simp del: connector_step.simps intro!: conn_work_step(2) [OF c tm] split: if_splits)
  next
    case (XBroker e)
    then show "\<not> exit_drives a ev \<Longrightarrow> \<not> exit_prolongs a ev \<Longrightarrow> ?thesis" using step broker_work_step [of "xbroker x" e] bx
      by (auto simp: exit_work_def bc simp del: broker_step.simps split: if_splits)
  next
    case (XCancel e)
    then show ?thesis using step ctx by auto
  qed (use step in \<open>auto\<close>)
qed

lemma refusedDial_fails: "isl (fst (authenticate a refusedDial))"
  by (simp add: authenticate_def auth_dial_def dialTLS_def refusedDial_def sampleDial_def)

lemma exit_progress:
  assumes inv: "exit_inv a x" and ctx: "parent (xconn x) \<noteq> None" and "exit_work x \<noteq> 0"
  shows "\<exists>ev. exit_drives a ev \<and> exit_node_step a x ev \<noteq> None"
proof (cases "broker_work (xbroker x) = 0")
  case True
  then have "conn_work (xconn x) \<noteq> 0" using assms(3) by (simp add: exit_work_def)
  then consider "pc (xconn x) = Connecting" | t where "pc (xconn x) = Waiting t"
    | i where "pc (xconn x) = Serving i" "i < length (links (xconn x))"
    using inv by (cases "pc (xconn x)") (auto simp: conn_work_def exit_inv_def connector_inv_def pc_ok_def)
  then show ?thesis
  proof cases
    case 1
    then show ?thesis using refusedDial_fails [of a]
      by (intro exI [of _ "XAttempt refusedDial"]) (simp add: connect_event_cases)
  next
    case 2
    then show ?thesis using ctx by (intro exI [of _ "XConn BackoffCancelled"]) simp
  next
    case 3
    then show ?thesis using ctx by (intro exI [of _ "XConn ParentDone"]) simp
  qed
next
  case False
  then consider "bpc (xbroker x) = BTop" | "bpc (xbroker x) = BPolls" | "bpc (xbroker x) = BSleeping" | i where "bpc (xbroker x) = BServing i"
    by (cases "bpc (xbroker x)") (auto simp: broker_work_def)
  moreover obtain e where e: "bctx (xbroker x) = Some e" using inv ctx by (auto simp: exit_inv_def)
  ultimately show ?thesis
  proof cases
    case 1
    then show ?thesis using e by (intro exI [of _ "XBroker BCheckCtx"]) simp
  next
    case 2
    then show ?thesis by (intro exI [of _ XPoll]) simp
  next
    case 3
    then show ?thesis using e by (intro exI [of _ "XBroker BSleepCancelled"]) simp
  next
    case 4
    then show ?thesis using e by (intro exI [of _ "XBroker BSeesCtx"]) simp
  qed
qed

lemma exit_reaches_inv:
  "timing_ok (aTiming a) \<Longrightarrow> MaxBackoff (aTiming a) < 2 ^ 62 \<Longrightarrow>
   reaches (exit_node_step a) (exit_node_start a) x \<Longrightarrow> exit_inv a x"
  using machine_invariant.reaches_inv [OF exit_machine] by blast

lemma sample_timing: "timing_ok (aTiming sampleAuth)" "MaxBackoff (aTiming sampleAuth) < 2 ^ 62"
  by (simp_all add: sampleAuth_def DefaultTiming_ok, simp add: DefaultTiming_def Second_def)

lemma sample_connects: "\<exists>env. connect_event sampleAuth env = AuthOk"
proof -
  obtain reply s c where "authenticate sampleAuth (sampleDial (sampleConn reply)) = (Inr s, c)" using sample_authenticates by blast
  then have "connect_event sampleAuth (sampleDial (sampleConn reply)) = AuthOk" by (simp add: connect_event_def)
  then show ?thesis by blast
qed

lemma refused_event:
  "connect_event a refusedDial
     = AuthFails (Errorf ''transport: %w'' [Errorf ''transport: dial: %w'' [Errorf ''%w: %s: %v'' [Sentinel ErrDial]]])"
  by (simp add: connect_event_def authenticate_def auth_dial_def dialTLS_def refusedDial_def sampleDial_def)

text \<open>A run of the exit node: cancelled while connecting.\<close>

lemma sample_exit_run:
  "\<exists>x. run_events (exit_node_step sampleAuth) (exit_node_start sampleAuth)
     [XBroker BCheckCtx, XPoll, XCancel (Sentinel Canceled), XAttempt refusedDial, XConn BackoffCancelled, XBroker BSleepCancelled] = Some x
     \<and> exit_result x = Some (Sentinel Canceled)"
  by (simp add: exit_node_start_def connector_start_def NewBroker_def Snapshot_def with_conn_def broker_closes_def
      exit_result_def refused_event)

section \<open>Runners return only after a cancellation\<close>

lemma stops_cancelled_attempt:
  "stops_cancelled c \<Longrightarrow> deadline_documented env \<Longrightarrow> connector_step tm c (connect_event a env) = Some d \<Longrightarrow> stops_cancelled d"
  by (rule stops_cancelled_step)
    (auto simp: connect_event_def dest: authenticate_not_canceled split: sum.splits)

lemma stops_cancelled_local:
  "stops_cancelled c \<Longrightarrow> conn_local ev \<or> (\<exists>e. ev = ParentCancel e) \<Longrightarrow> connector_step tm c ev = Some d \<Longrightarrow> stops_cancelled d"
  by (erule stops_cancelled_step) auto

lemma proxy_stops_cancelled:
  "run_events (proxy_node_step a) x evs = Some y \<Longrightarrow> list_all proxy_attempt_ok evs \<Longrightarrow> stops_cancelled (pxconn x)
   \<Longrightarrow> stops_cancelled (pxconn y)"
proof (induction evs arbitrary: x)
  case (Cons ev evs)
  then obtain z where z: "proxy_node_step a x ev = Some z" "run_events (proxy_node_step a) z evs = Some y"
    by (auto split: option.splits)
  have "stops_cancelled (pxconn z)"
  proof (cases ev)
    case (NAttempt env)
    then show ?thesis using z(1) Cons.prems(2,3) stops_cancelled_attempt [of "pxconn x" env] by (auto simp del: connector_step.simps)
  next
    case (NConn e)
    then show ?thesis using z(1) Cons.prems(3) stops_cancelled_local [of "pxconn x" e]
      by (auto simp del: connector_step.simps split: if_splits)
  next
    case (NListener e)
    then show ?thesis using z(1) Cons.prems(3) by (auto simp del: proxy_step.simps split: proxy_event.splits)
  next
    case (NCancel e)
    then show ?thesis using z(1) Cons.prems(3) stops_cancelled_local [of "pxconn x" "ParentCancel e"]
      by (auto simp del: connector_step.simps proxy_step.simps split: option.splits)
  qed
  then show ?case using Cons.IH [OF z(2)] Cons.prems(2) by simp
qed simp

text \<open>Connector and listener of a proxy node share their context.\<close>

lemma proxy_same_ctx:
  "run_events (proxy_node_step a) x evs = Some y \<Longrightarrow> pctx (pxlst x) = parent (pxconn x) \<Longrightarrow> pctx (pxlst y) = parent (pxconn y)"
proof (induction evs arbitrary: x)
  case (Cons ev evs)
  then obtain z where z: "proxy_node_step a x ev = Some z" "run_events (proxy_node_step a) z evs = Some y"
    by (auto split: option.splits)
  have "pctx (pxlst z) = parent (pxconn z)"
  proof (cases ev)
    case (NAttempt env)
    then show ?thesis using z(1) Cons.prems(2) parent_local [of "aTiming a" "pxconn x" "connect_event a env"]
      by (auto simp: connect_event_cases simp del: connector_step.simps split: if_splits)
  next
    case (NConn e)
    then show ?thesis using z(1) Cons.prems(2) parent_local [of "aTiming a" "pxconn x" e]
      by (cases e) (auto simp del: connector_step.simps)
  qed (use z(1) Cons.prems(2) in \<open>auto split: if_splits proxy_event.splits option.splits\<close>)
  then show ?case using Cons.IH [OF z(2)] by simp
qed simp

section \<open>Properties\<close>

text \<open>
  C10. The exit process as a whole, in every reachable state: the broker serves the connector's
  sessions in the order of their establishment, each at most once, and never returns to an older one;
  and once \<open>runExit\<close> has returned, it returned the context's error, and every session the broker
  ever served has been closed and its acceptor told to stop.
\<close>

theorem exit_node_sessions:
  assumes "timing_ok (aTiming a)" and "MaxBackoff (aTiming a) < 2 ^ 62"
    and "reaches (exit_node_step a) (exit_node_start a) x"
  shows "sorted_wrt (<) (map alink (accs (xbroker x)))
    \<and> (\<forall>err. exit_result x = Some err \<longrightarrow> parent (xconn x) = Some err
        \<and> (\<forall>acc \<in> set (accs (xbroker x)). astop acc \<and> close_called (links (xconn x) ! alink acc)
            \<and> mux_closed (links (xconn x) ! alink acc)))"
proof -
  have inv: "exit_inv a x" using assms by (rule exit_reaches_inv)
  then have closed: "mux_closed (links (xconn x) ! alink acc)"
    if "acc \<in> set (accs (xbroker x))" "close_called (links (xconn x) ! alink acc)" for acc
    using that link_ok_nth [of "aTiming a" "xconn x" "alink acc"] by (auto simp: exit_inv_def link_ok_def)
  have "astop acc" if "exit_result x = Some err" "acc \<in> set (accs (xbroker x))" for acc err
    using inv that by (auto simp: exit_inv_def broker_inv_def inv_stop_def exit_result_def in_set_conv_nth split: bpc.splits cpc.splits)
  moreover have "parent (xconn x) = Some err" if "exit_result x = Some err" for err
    using inv that by (auto simp: exit_inv_def broker_inv_def inv_stop_def exit_result_def split: bpc.splits cpc.splits)
  ultimately show ?thesis using inv closed by (auto simp: exit_inv_def)
qed

theorem exit_node_sessions_witness:
  "\<exists>x. reaches (exit_node_step sampleAuth) (exit_node_start sampleAuth) x
     \<and> exit_result x = Some (Sentinel Canceled) \<and> parent (xconn x) = Some (Sentinel Canceled)"
proof -
  obtain x where x: "run_events (exit_node_step sampleAuth) (exit_node_start sampleAuth)
     [XBroker BCheckCtx, XPoll, XCancel (Sentinel Canceled), XAttempt refusedDial, XConn BackoffCancelled, XBroker BSleepCancelled] = Some x"
     "exit_result x = Some (Sentinel Canceled)"
    using sample_exit_run by blast
  then show ?thesis using exit_node_sessions [OF sample_timing run_events_reaches [OF x(1)]] run_events_reaches [OF x(1)] by blast
qed

text \<open>
  C21. Shutdown of the exit process. Once the context has ended, every step of the connector's or
  the broker's loop brings the return nearer, no other step moves it away except a further
  successful authentication and the passing of time, and as long as \<open>runExit\<close> has not returned such a
  step is possible.
\<close>

theorem exit_node_shutdown:
  assumes "timing_ok (aTiming a)" and "MaxBackoff (aTiming a) < 2 ^ 62"
    and "reaches (exit_node_step a) (exit_node_start a) x" and "parent (xconn x) \<noteq> None"
  shows "(\<forall>ev y. exit_node_step a x ev = Some y \<longrightarrow>
        (exit_drives a ev \<longrightarrow> exit_work y < exit_work x)
        \<and> (\<not> exit_drives a ev \<and> \<not> exit_prolongs a ev \<longrightarrow> exit_work y = exit_work x))
    \<and> (exit_result x = None \<longrightarrow> (\<exists>ev. exit_drives a ev \<and> exit_node_step a x ev \<noteq> None))
    \<and> exit_work x \<le> 6"
proof -
  have inv: "exit_inv a x" using assms(1-3) by (rule exit_reaches_inv)
  have "exit_work x \<le> 6"
    by (simp add: exit_work_def conn_work_def broker_work_def split: cpc.split bpc.split)
  then show ?thesis
    using exit_work_step [OF inv assms(1,4)] exit_progress [OF inv assms(4)] exit_work_zero [of x] by blast
qed

theorem exit_node_shutdown_witness:
  "\<exists>x. run_events (exit_node_step sampleAuth) (exit_node_start sampleAuth) [XBroker BCheckCtx, XPoll, XCancel (Sentinel Canceled)] = Some x
     \<and> (\<exists>ev. exit_drives sampleAuth ev \<and> exit_node_step sampleAuth x ev \<noteq> None)"
proof -
  obtain x where x: "run_events (exit_node_step sampleAuth) (exit_node_start sampleAuth) [XBroker BCheckCtx, XPoll, XCancel (Sentinel Canceled)] = Some x"
     "exit_result x = None" "parent (xconn x) \<noteq> None"
    by (simp add: exit_node_start_def connector_start_def NewBroker_def Snapshot_def broker_closes_def exit_result_def)
  show ?thesis using exit_node_shutdown [OF sample_timing run_events_reaches [OF x(1)] x(3)] x(1,2) by blast
qed

text \<open>
  C34. A listener that fails on its own does not end the proxy: whatever happens, \<open>runProxy\<close>
  returns only after the context has ended, since its connector never stops before that. A proxy
  whose \<open>Accept\<close> has failed therefore stays alive without serving anyone, and reports nothing. The
  hypothesis on the attempts is that an error of \<open>SetDeadline\<close> is not \<open>context.Canceled\<close>.
\<close>

theorem proxy_returns_only_on_cancel:
  assumes "run_events (proxy_node_step a) (proxy_node_start a credentials) evs = Some y"
    and "list_all proxy_attempt_ok evs" and "parent (pxconn y) = None"
  shows "proxy_result y = None \<and> pctx (pxlst y) = None"
proof -
  have "stops_cancelled (pxconn y)"
    using proxy_stops_cancelled [OF assms(1,2)]
    by (simp add: proxy_node_start_def connector_start_def stops_cancelled_def)
  moreover have "pctx (pxlst y) = parent (pxconn y)"
    using assms(1) by (rule proxy_same_ctx) (simp add: proxy_node_start_def proxy_start_def connector_start_def)
  ultimately show ?thesis using assms(3) by (auto simp: stops_cancelled_def proxy_result_def split: cpc.splits)
qed

theorem proxy_returns_only_on_cancel_witness:
  "\<exists>y. run_events (proxy_node_step sampleAuth) (proxy_node_start sampleAuth [])
       [NListener (PAcceptFails (Sentinel NetErrClosed)), NAttempt refusedDial, NConn (Tick 1)] = Some y
     \<and> presult (pxlst y) = Some (Sentinel NetErrClosed) \<and> proxy_result y = None"
proof -
  obtain y where y: "run_events (proxy_node_step sampleAuth) (proxy_node_start sampleAuth [])
      [NListener (PAcceptFails (Sentinel NetErrClosed)), NAttempt refusedDial, NConn (Tick 1)] = Some y"
    "presult (pxlst y) = Some (Sentinel NetErrClosed)" "parent (pxconn y) = None"
    by (simp add: proxy_node_start_def connector_start_def proxy_start_def NewListener_def refused_event)
  moreover have "list_all proxy_attempt_ok [NListener (PAcceptFails (Sentinel NetErrClosed)), NAttempt refusedDial, NConn (Tick 1)]"
    by (simp add: deadline_documented_def refusedDial_def sampleDial_def)
  ultimately show ?thesis using proxy_returns_only_on_cancel [OF y(1) _ y(3)] by blast
qed

end
