(* ===== verification/Relay.thy ===== *)
theory Relay
  imports Service Bridge "HOL-Library.Multiset"
begin

text \<open>
  The relay process: the session workers of \<open>src/internal/relay/service.go\<close>, the serve loops and
  pairs of \<open>bridge.go\<close> and the registry they share, as one machine. A serve loop is followed
  statement by statement, so that a session may be replaced, closed or cancelled between the lookup of
  the exit, the opening of its stream and the launch of the pair.
\<close>

section \<open>State\<close>

text \<open>Where a worker's \<open>ServeProxy\<close> is: in \<open>AcceptStream\<close>, or handling an accepted stream.\<close>

datatype loop_pc = Accepting | Looking stream_id | Opening stream_id nat | Launching stream_id nat

text \<open>A launched pair: its two goroutines, the workers of its two sessions, and its key in \<open>active\<close>.\<close>

record rpair =
  pstate :: pair
  proxyW :: nat
  exitW :: nat
  rpid :: stream_id

text \<open>
  \<open>outcomes\<close> records what became of the streams that proxies opened, \<open>rejected\<close> the streams that
  exits opened and \<open>ServeExit\<close> closed.
\<close>

record relay =
  svc :: service
  brg :: bridge
  loops :: "nat \<Rightarrow> loop_pc"
  pairs :: "rpair list"
  outcomes :: "(nat \<times> stream_id \<times> disposition) list"
  rejected :: "(nat \<times> stream_id) list"

definition relay_start :: relay where
  "relay_start = \<lparr>svc = NewService, brg = NewBridge, loops = (\<lambda>_. Accepting), pairs = [], outcomes = [], rejected = []\<rparr>"

section \<open>Steps\<close>

datatype relay_event =
    Svc svc_event
  | StreamAccepted nat stream_id
  | ExitLookedUp nat
  | StreamOpened nat "stream_id result"
  | Launched nat
  | PairRuns nat pair_event

text \<open>The service context is done when the parent is, or when \<open>Run\<close> cancelled it.\<close>

definition svc_done :: "service \<Rightarrow> bool" where
  "svc_done s \<longleftrightarrow> svcCancelled s \<or> ctx s \<noteq> None"

text \<open>What a pair learns of its sessions' and its parent context's end.\<close>

definition tell :: "bool \<Rightarrow> pair_event \<Rightarrow> pair \<Rightarrow> pair" where
  "tell c ev p = (if c then (case pair_step p ev of None \<Rightarrow> p | Some q \<Rightarrow> q) else p)"

definition sync :: "service \<Rightarrow> rpair \<Rightarrow> rpair" where
  "sync s q = q\<lparr>pstate := tell (svc_done s) ParentCancelled
     (tell (wclosed (workers s ! exitW q)) ExitSessionCloses
     (tell (wclosed (workers s ! proxyW q)) ProxySessionCloses (pstate q)))\<rparr>"

definition new_pair :: "nat \<Rightarrow> nat \<Rightarrow> stream_id \<Rightarrow> rpair" where
  "new_pair i e sid = \<lparr>pstate = pair_start, proxyW = i, exitW = e, rpid = sid\<rparr>"

text \<open>A worker in the serve loop of a role.\<close>

definition serves :: "service \<Rightarrow> nat \<Rightarrow> Mode \<Rightarrow> bool" where
  "serves s i role \<longleftrightarrow> i < length (workers s) \<and> wrole (workers s ! i) = role
     \<and> (case wphase (workers s ! i) of Serving g \<Rightarrow> True | _ \<Rightarrow> False)"

text \<open>A serve loop returns from \<open>AcceptStream\<close> or from the check before it only.\<close>

fun serve_ready :: "relay \<Rightarrow> svc_event \<Rightarrow> bool" where
  "serve_ready r (ServeReturns i) = (loops r i = Accepting)"
| "serve_ready r ev = True"

definition dispose :: "nat \<Rightarrow> stream_id \<Rightarrow> disposition \<Rightarrow> relay \<Rightarrow> relay" where
  "dispose i sid d r = r\<lparr>loops := (loops r)(i := Accepting), outcomes := outcomes r @ [(i, sid, d)]\<rparr>"

fun relay_step :: "relay \<Rightarrow> relay_event \<Rightarrow> relay option" where
  "relay_step r (Svc ev) =
     (if serve_ready r ev then
        (case service_step (svc r) ev of
           None \<Rightarrow> None
         | Some s \<Rightarrow> Some (r\<lparr>svc := s, pairs := map (sync s) (pairs r)\<rparr>))
      else None)"
| "relay_step r (StreamAccepted i sid) =
     (if loops r i = Accepting \<and> serves (svc r) i ModeProxy then Some (r\<lparr>loops := (loops r)(i := Looking sid)\<rparr>)
      else if serves (svc r) i ModeExit then Some (r\<lparr>rejected := rejected r @ [(i, sid)]\<rparr>)
      else None)"
| "relay_step r (ExitLookedUp i) =
     (case loops r i of
        Looking sid \<Rightarrow>
          (case Current (reg (svc r)) ModeExit of
             None \<Rightarrow> Some (dispose i sid ClosedNoExit r)
           | Some (exit, _) \<Rightarrow> Some (r\<lparr>loops := (loops r)(i := Opening sid exit)\<rparr>))
      | _ \<Rightarrow> None)"
| "relay_step r (StreamOpened i res) =
     (case loops r i of
        Opening sid exit \<Rightarrow>
          (case res of
             Inl err \<Rightarrow> Some (dispose i sid ClosedOpenFailed r)
           | Inr exitStream \<Rightarrow> Some (r\<lparr>loops := (loops r)(i := Launching sid exit)\<rparr>))
      | _ \<Rightarrow> None)"
| "relay_step r (Launched i) =
     (case loops r i of
        Launching sid exit \<Rightarrow>
          (case launch (brg r) sid of
             None \<Rightarrow> Some (dispose i sid ClosedAtLimit r)
           | Some b \<Rightarrow> Some (dispose i sid Bridged (r\<lparr>brg := b, pairs := pairs r @ [sync (svc r) (new_pair i exit sid)]\<rparr>)))
      | _ \<Rightarrow> None)"
| "relay_step r (PairRuns k ev) =
     (if k < length (pairs r) \<and> ev \<in> {WatcherFires, CopyEnds, CopyCancelled, RunnerJoins} then
        (case pair_step (pstate (pairs r ! k)) ev of
           None \<Rightarrow> None
         | Some p \<Rightarrow> Some (r\<lparr>pairs := (pairs r)[k := (pairs r ! k)\<lparr>pstate := p\<rparr>],
             brg := (if ev = RunnerJoins then track (brg r) (rpid (pairs r ! k)) else brg r)\<rparr>))
      else None)"

section \<open>Invariant\<close>

definition running :: "relay \<Rightarrow> rpair list" where
  "running r = filter (\<lambda>q. runner (pstate q) \<noteq> Ended) (pairs r)"

text \<open>A worker past its serve loop has closed its session.\<close>

fun departed :: "wphase \<Rightarrow> bool" where
  "departed (Leaving g) = True"
| "departed Vacated = True"
| "departed Finished = True"
| "departed _ = False"

definition left_closed :: "worker list \<Rightarrow> bool" where
  "left_closed ws \<longleftrightarrow> (\<forall>i < length ws. wrole (ws ! i) \<in> {ModeProxy, ModeExit} \<and> departed (wphase (ws ! i)) \<longrightarrow> wclosed (ws ! i))"

text \<open>A worker of a role that has registered.\<close>

definition registered :: "worker list \<Rightarrow> nat \<Rightarrow> Mode \<Rightarrow> bool" where
  "registered ws i role \<longleftrightarrow> i < length ws \<and> wrole (ws ! i) = role \<and> wphase (ws ! i) \<noteq> Spawned"

definition loops_ok :: "service \<Rightarrow> (nat \<Rightarrow> loop_pc) \<Rightarrow> bool" where
  "loops_ok s l \<longleftrightarrow> (\<forall>i. l i \<noteq> Accepting \<longrightarrow> serves s i ModeProxy)
     \<and> (\<forall>i sid e. l i \<in> {Opening sid e, Launching sid e} \<longrightarrow> registered (workers s) e ModeExit)"

definition pair_ok :: "service \<Rightarrow> rpair \<Rightarrow> bool" where
  "pair_ok s q \<longleftrightarrow> registered (workers s) (proxyW q) ModeProxy \<and> registered (workers s) (exitW q) ModeExit
     \<and> pair_inv (pstate q)
     \<and> (wclosed (workers s ! proxyW q) \<longrightarrow> proxy_closed (pstate q))
     \<and> (wclosed (workers s ! exitW q) \<longrightarrow> exit_closed (pstate q))
     \<and> (svc_done s \<longrightarrow> child_done (pstate q))"

definition streams_ok :: "relay \<Rightarrow> bool" where
  "streams_ok r \<longleftrightarrow> (\<forall>(i, sid, d) \<in> set (outcomes r). registered (workers (svc r)) i ModeProxy)
     \<and> (\<forall>(i, sid) \<in> set (rejected r). registered (workers (svc r)) i ModeExit)
     \<and> map (\<lambda>q. (proxyW q, rpid q)) (pairs r)
         = map (\<lambda>(i, sid, d). (i, sid)) (filter (\<lambda>(i, sid, d). d = Bridged) (outcomes r))"

definition slots_ok :: "relay \<Rightarrow> bool" where
  "slots_ok r \<longleftrightarrow> conns (brg r) = int (length (running r)) \<and> length (running r) \<le> 256"

definition relay_inv :: "relay \<Rightarrow> bool" where
  "relay_inv r \<longleftrightarrow> service_inv (svc r) \<and> left_closed (workers (svc r)) \<and> loops_ok (svc r) (loops r)
     \<and> (\<forall>q \<in> set (pairs r). pair_ok (svc r) q) \<and> streams_ok r \<and> slots_ok r"

section \<open>Session workers\<close>

text \<open>
  What any step of the service does to its workers: they keep their role, a closed session stays
  closed, a registered worker stays registered, and only \<open>ServeReturns\<close> ends a serve loop.
\<close>

lemma worker_step_mono:
  assumes "service_step s ev = Some t" and "i < length (workers s)"
  shows "i < length (workers t)" and "wrole (workers t ! i) = wrole (workers s ! i)"
    and "wclosed (workers s ! i) \<Longrightarrow> wclosed (workers t ! i)"
    and "wphase (workers s ! i) \<noteq> Spawned \<Longrightarrow> wphase (workers t ! i) \<noteq> Spawned"
    and "wphase (workers s ! i) = Serving g \<Longrightarrow> ev \<noteq> ServeReturns i \<Longrightarrow> wphase (workers t ! i) = Serving g"
proof -
  have "i < length (workers t) \<and> wrole (workers t ! i) = wrole (workers s ! i)
    \<and> (wclosed (workers s ! i) \<longrightarrow> wclosed (workers t ! i))
    \<and> (wphase (workers s ! i) \<noteq> Spawned \<longrightarrow> wphase (workers t ! i) \<noteq> Spawned)
    \<and> (wphase (workers s ! i) = Serving g \<and> ev \<noteq> ServeReturns i \<longrightarrow> wphase (workers t ! i) = Serving g)"
  proof (cases ev)
    case (WorkerRegisters j)
    from assms(1) [unfolded this] show ?thesis
      by (rule WorkerRegisters_cases) (use assms(2) in \<open>auto simp: closes_some_def\<close>)
  qed (use assms in \<open>auto simp: nth_append split: if_splits wphase.splits\<close>)
  then show "i < length (workers t)" "wrole (workers t ! i) = wrole (workers s ! i)"
    "wclosed (workers s ! i) \<Longrightarrow> wclosed (workers t ! i)"
    "wphase (workers s ! i) \<noteq> Spawned \<Longrightarrow> wphase (workers t ! i) \<noteq> Spawned"
    "wphase (workers s ! i) = Serving g \<Longrightarrow> ev \<noteq> ServeReturns i \<Longrightarrow> wphase (workers t ! i) = Serving g" by auto
qed

lemma svc_done_mono: "service_step s ev = Some t \<Longrightarrow> svc_done s \<Longrightarrow> svc_done t"
  by (cases ev) (auto simp: svc_done_def closeAll_def Let_def split: if_splits wphase.splits prod.splits)

lemma registered_phase: "registered ws i role \<Longrightarrow> \<not> departed (wphase (ws ! i)) \<Longrightarrow> unretired (wphase (ws ! i))"
  unfolding registered_def by (cases "wphase (ws ! i)") simp_all

lemma registered_mono:
  "service_step s ev = Some t \<Longrightarrow> registered (workers s) i role \<Longrightarrow> registered (workers t) i role"
  using worker_step_mono(1,2,4) [of s ev t i] by (auto simp: registered_def)

lemma left_closed_closes: "closes_some ws ws' \<Longrightarrow> left_closed ws \<Longrightarrow> left_closed ws'"
  by (auto simp: closes_some_def left_closed_def)

lemma left_closed_phase:
  assumes "left_closed ws" and "wrole (ws ! i) \<in> {ModeProxy, ModeExit} \<and> departed p \<longrightarrow> wclosed (ws ! i)"
  shows "left_closed (set_phase i p ws)"
  using assms by (auto simp: left_closed_def)

lemma left_closed_step:
  assumes "left_closed (workers s)" and "service_step s ev = Some t"
  shows "left_closed (workers t)"
proof (cases ev)
  case (WorkerRegisters j)
  from assms(2) [unfolded this] show ?thesis
    by (rule WorkerRegisters_cases)
      (use left_closed_phase [OF assms(1), of j] in \<open>auto simp: started_def split: option.splits if_splits\<close>)
next
  case (AcceptSession k)
  then show ?thesis using assms by (auto simp: left_closed_def nth_append less_Suc_eq split: if_splits)
next
  case (WorkerClosesPrev j)
  from assms(2) [unfolded this] show ?thesis
    by (rule WorkerClosesPrev_cases)
      (use left_closed_phase [OF left_closed_closes [OF closes_close assms(1)]] in \<open>simp add: started_def\<close>)
next
  case (ServeReturns j)
  from assms(2) [unfolded this] show ?thesis
    by (rule ServeReturns_cases) (use left_closed_phase [OF assms(1), of j] in auto)
next
  case (WorkerCloses j)
  from assms(2) [unfolded this] show ?thesis
    by (rule WorkerCloses_cases) (use left_closed_phase [OF left_closed_closes [OF closes_close assms(1)], of j] in auto)
next
  case (WorkerVacates j)
  from assms(2) [unfolded this] show ?thesis
    by (rule WorkerVacates_cases) (use assms(1) left_closed_phase [OF assms(1), of j Vacated] in \<open>auto simp: left_closed_def\<close>)
next
  case (WorkerEnds j)
  then have w: "j < length (workers s)" "wphase (workers s ! j) = Vacated" "workers t = set_phase j Finished (workers s)"
    using assms(2) by (auto split: if_splits)
  then have "wrole (workers s ! j) \<in> {ModeProxy, ModeExit} \<longrightarrow> wclosed (workers s ! j)" using assms(1) by (simp add: left_closed_def)
  then show ?thesis unfolding w(3) by (intro left_closed_phase [OF assms(1)]) simp
next
  case (PeerCloses j)
  then show ?thesis using assms left_closed_closes [OF closes_close assms(1)] by (auto split: if_splits)
next
  case AcceptJoined
  then show ?thesis using assms left_closed_closes [OF closes_all assms(1)] by (auto split: if_splits)
qed (use assms in \<open>auto split: if_splits\<close>)

lemma serves_registered: "serves s i role \<Longrightarrow> registered (workers s) i role"
  by (auto simp: serves_def registered_def)

lemma current_registered:
  "service_inv s \<Longrightarrow> Current (reg s) role = Some (e, g) \<Longrightarrow> registered (workers s) e role"
  by (fastforce simp: service_inv_def inv_reg_def registered_def)

section \<open>Pairs\<close>

lemma tell_pair_inv: "pair_inv p \<Longrightarrow> pair_inv (tell c ev p)"
  using pair_ok.event_inv by (auto simp: tell_def split: option.splits)

lemma sync_sel [simp]:
  "proxyW (sync s q) = proxyW q" "exitW (sync s q) = exitW q" "rpid (sync s q) = rpid q"
  "runner (pstate (sync s q)) = runner (pstate q)"
  by (simp_all add: sync_def tell_def)

lemma sync_flags:
  "wclosed (workers s ! proxyW q) \<Longrightarrow> proxy_closed (pstate (sync s q))"
  "wclosed (workers s ! exitW q) \<Longrightarrow> exit_closed (pstate (sync s q))"
  "svc_done s \<Longrightarrow> child_done (pstate (sync s q))"
  by (simp_all add: sync_def tell_def)

lemma sync_ok:
  assumes "registered (workers s) (proxyW q) ModeProxy" and "registered (workers s) (exitW q) ModeExit" and "pair_inv (pstate q)"
  shows "pair_ok s (sync s q)"
  using assms sync_flags [of s q] by (simp add: pair_ok_def) (simp add: sync_def tell_pair_inv)

lemma new_pair_sel [simp]: "proxyW (new_pair i e sid) = i" "exitW (new_pair i e sid) = e" "rpid (new_pair i e sid) = sid"
  "pstate (new_pair i e sid) = pair_start"
  by (simp_all add: new_pair_def)

lemma pair_own_step:
  assumes "pair_step p ev = Some p'" and "ev \<in> {WatcherFires, CopyEnds, CopyCancelled, RunnerJoins}"
  shows "proxy_closed p' = proxy_closed p" and "exit_closed p' = exit_closed p" and "child_done p \<Longrightarrow> child_done p'"
    and "runner p' = Ended \<longleftrightarrow> ev = RunnerJoins \<or> runner p = Ended" and "ev = RunnerJoins \<Longrightarrow> runner p \<noteq> Ended"
  using assms by (auto split: if_splits)

lemma pair_ok_own:
  assumes "pair_ok s q" and "pair_step (pstate q) ev = Some p" and "ev \<in> {WatcherFires, CopyEnds, CopyCancelled, RunnerJoins}"
  shows "pair_ok s (q\<lparr>pstate := p\<rparr>)"
  using assms(1) pair_ok.event_inv [OF _ assms(2)] pair_own_step [OF assms(2,3)] by (simp add: pair_ok_def)

lemma running_sync: "length (filter (\<lambda>q. runner (pstate q) \<noteq> Ended) (map (sync s) qs)) = length (filter (\<lambda>q. runner (pstate q) \<noteq> Ended) qs)"
  by (simp add: filter_map o_def)

section \<open>Every step keeps the invariant\<close>

text \<open>The four ways in which a step of the relay changes its state.\<close>

lemma inv_Svc:
  assumes inv: "relay_inv r" and ready: "serve_ready r ev" and s: "service_step (svc r) ev = Some s"
  shows "relay_inv (r\<lparr>svc := s, pairs := map (sync s) (pairs r)\<rparr>)"
proof -
  have "loops_ok s (loops r)"
    unfolding loops_ok_def
  proof (intro conjI allI impI)
    fix i assume i: "loops r i \<noteq> Accepting"
    then have sv: "serves (svc r) i ModeProxy" using inv by (simp add: relay_inv_def loops_ok_def)
    moreover have "ev \<noteq> ServeReturns i" using ready i by auto
    ultimately show "serves s i ModeProxy"
      using worker_step_mono(1,2,5) [OF s, of i] by (auto simp: serves_def split: wphase.splits)
  next
    fix i sid e assume "loops r i \<in> {Opening sid e, Launching sid e}"
    then show "registered (workers s) e ModeExit" using inv registered_mono [OF s] unfolding relay_inv_def loops_ok_def by blast
  qed
  moreover have "\<forall>q \<in> set (pairs r). pair_ok s (sync s q)"
  proof
    fix q assume "q \<in> set (pairs r)"
    then have "pair_ok (svc r) q" using inv by (simp add: relay_inv_def)
    then show "pair_ok s (sync s q)" using registered_mono [OF s] by (intro sync_ok) (simp_all add: pair_ok_def)
  qed
  moreover have "streams_ok (r\<lparr>svc := s, pairs := map (sync s) (pairs r)\<rparr>)"
    using inv registered_mono [OF s] by (auto simp: relay_inv_def streams_ok_def o_def)
  ultimately show ?thesis
    using inv service_ok.event_inv [OF _ s] left_closed_step [OF _ s] running_sync [of s "pairs r"]
    by (simp add: relay_inv_def slots_ok_def running_def)
qed

lemma inv_loop:
  assumes "relay_inv r" and "serves (svc r) i ModeProxy"
    and "\<forall>sid e. pc \<in> {Opening sid e, Launching sid e} \<longrightarrow> registered (workers (svc r)) e ModeExit"
  shows "relay_inv (r\<lparr>loops := (loops r)(i := pc)\<rparr>)"
  using assms by (auto simp: relay_inv_def loops_ok_def streams_ok_def slots_ok_def running_def)

lemma inv_dispose:
  assumes "relay_inv r" and "serves (svc r) i ModeProxy" and "d \<noteq> Bridged"
  shows "relay_inv (dispose i sid d r)"
  using inv_loop [OF assms(1,2), of Accepting] assms serves_registered [OF assms(2)]
  by (auto simp: relay_inv_def dispose_def streams_ok_def slots_ok_def running_def)

lemma inv_Bridged:
  assumes inv: "relay_inv r" and i: "serves (svc r) i ModeProxy" "registered (workers (svc r)) e ModeExit"
    and b: "launch (brg r) sid = Some b"
  shows "relay_inv (dispose i sid Bridged (r\<lparr>brg := b, pairs := pairs r @ [sync (svc r) (new_pair i e sid)]\<rparr>))"
proof -
  have n: "conns (brg r) = int (length (running r))" "length (running r) \<le> 256" using inv by (simp_all add: relay_inv_def slots_ok_def)
  then have "length (running r) \<noteq> 256" using launch_cases [OF n] b by auto
  moreover have "pair_ok (svc r) (sync (svc r) (new_pair i e sid))"
    using i serves_registered [OF i(1)] pair_ok.start_inv by (intro sync_ok) simp_all
  moreover have "runner pair_start \<noteq> Ended" by (simp add: pair_start_def)
  ultimately show ?thesis
    using inv_loop [OF inv i(1), of Accepting] inv n b serves_registered [OF i(1)]
    by (auto simp: relay_inv_def dispose_def streams_ok_def slots_ok_def running_def launch_def split: if_splits)
qed

lemma inv_PairRuns:
  assumes inv: "relay_inv r" and k: "k < length (pairs r)" "ev \<in> {WatcherFires, CopyEnds, CopyCancelled, RunnerJoins}"
    and p: "pair_step (pstate (pairs r ! k)) ev = Some p"
  shows "relay_inv (r\<lparr>pairs := (pairs r)[k := (pairs r ! k)\<lparr>pstate := p\<rparr>],
    brg := (if ev = RunnerJoins then track (brg r) (rpid (pairs r ! k)) else brg r)\<rparr>)"
proof -
  note own = pair_own_step [OF p k(2)]
  let ?q = "(pairs r ! k)\<lparr>pstate := p\<rparr>"
  have "pair_ok (svc r) ?q" using inv k by (intro pair_ok_own [OF _ p]) (auto simp: relay_inv_def)
  then have ok: "\<forall>q \<in> set ((pairs r)[k := ?q]). pair_ok (svc r) q"
    using inv set_update_subset_insert [of "pairs r" k ?q] by (auto simp: relay_inv_def)
  have "map (\<lambda>q. (proxyW q, rpid q)) ((pairs r)[k := ?q]) = map (\<lambda>q. (proxyW q, rpid q)) (pairs r)"
    using k(1) by (simp add: map_update list_update_same_conv)
  moreover have "length (filter (\<lambda>q. runner (pstate q) \<noteq> Ended) ((pairs r)[k := ?q])) + (if ev = RunnerJoins then 1 else 0)
      = length (filter (\<lambda>q. runner (pstate q) \<noteq> Ended) (pairs r))"
    using filter_update [OF k(1), of "\<lambda>q. runner (pstate q) \<noteq> Ended" ?q] own(4,5) by (auto split: if_splits)
  ultimately show ?thesis using inv ok
    by (auto simp: relay_inv_def streams_ok_def slots_ok_def running_def track_def split: if_splits)
qed

lemma inv_rejected:
  assumes "relay_inv r" and "serves (svc r) i ModeExit"
  shows "relay_inv (r\<lparr>rejected := rejected r @ [(i, sid)]\<rparr>)"
  using assms serves_registered [OF assms(2)] by (auto simp: relay_inv_def streams_ok_def slots_ok_def running_def)

lemma relay_inv_step:
  assumes inv: "relay_inv r" and step: "relay_step r ev = Some r'"
  shows "relay_inv r'"
proof -
  have busy: "serves (svc r) i ModeProxy" if "loops r i \<noteq> Accepting" for i
    using inv that by (simp add: relay_inv_def loops_ok_def)
  have ex: "registered (workers (svc r)) e ModeExit" if "loops r i \<in> {Opening sid e, Launching sid e}" for i sid e
    using inv that unfolding relay_inv_def loops_ok_def by blast
  have cur: "registered (workers (svc r)) e ModeExit" if "Current (reg (svc r)) ModeExit = Some (e, g)" for e g
    using inv that current_registered by (simp add: relay_inv_def)
  show ?thesis
  proof (cases ev)
    case (Svc e)
    then show ?thesis using step inv_Svc [OF inv] by (auto split: if_splits option.splits)
  next
    case (StreamAccepted i sid)
    then show ?thesis using step inv_loop [OF inv] inv_rejected [OF inv] by (auto split: if_splits)
  next
    case (ExitLookedUp i)
    then obtain sid where l: "loops r i = Looking sid" using step by (auto split: loop_pc.splits)
    then show ?thesis using step ExitLookedUp busy [of i] cur inv_dispose [OF inv] inv_loop [OF inv, of i] by (auto split: option.splits)
  next
    case (StreamOpened i res)
    then obtain sid e where l: "loops r i = Opening sid e" using step by (auto split: loop_pc.splits)
    then show ?thesis using step StreamOpened busy [of i] ex [of i] inv_dispose [OF inv] inv_loop [OF inv, of i] by (auto split: sum.splits)
  next
    case (Launched i)
    then obtain sid e where l: "loops r i = Launching sid e" using step by (auto split: loop_pc.splits)
    then show ?thesis using step Launched busy [of i] ex [of i] inv_dispose [OF inv] inv_Bridged [OF inv] by (auto split: option.splits)
  next
    case (PairRuns k e)
    then obtain p where "k < length (pairs r)" "e \<in> {WatcherFires, CopyEnds, CopyCancelled, RunnerJoins}" "pair_step (pstate (pairs r ! k)) e = Some p"
      using step by (auto split: if_splits option.splits simp del: pair_step.simps)
    then show ?thesis using step PairRuns inv_PairRuns [OF inv, of k e p] by (simp del: pair_step.simps)
  qed
qed

interpretation relay_ok: machine_invariant relay_start relay_step relay_inv
proof unfold_locales
  show "relay_inv relay_start"
    using service_ok.start_inv
    by (simp add: relay_inv_def relay_start_def left_closed_def loops_ok_def streams_ok_def slots_ok_def running_def NewBridge_def)
      (simp add: NewService_def)
qed (rule relay_inv_step)

section \<open>Specification: a switchboard\<close>

text \<open>
  What the relay is for: each role has at most one holder; a proxy's stream is offered to the exit
  that holds its role, an offer is dropped or becomes a call, there are at most 256 calls, and calls
  end.
\<close>

record board =
  holder :: "Mode \<Rightarrow> nat option"
  offers :: "nat \<Rightarrow> nat option"
  calls :: "(nat \<times> nat) multiset"

inductive board_step :: "board \<Rightarrow> board \<Rightarrow> bool" where
  take_role: "board_step b (b\<lparr>holder := (holder b)(role \<mapsto> i)\<rparr>)"
| drop_role: "holder b role = Some i \<Longrightarrow> board_step b (b\<lparr>holder := (holder b)(role := None)\<rparr>)"
| offer: "holder b ModeExit = Some e \<Longrightarrow> offers b i = None \<Longrightarrow> board_step b (b\<lparr>offers := (offers b)(i \<mapsto> e)\<rparr>)"
| refuse: "offers b i = Some e \<Longrightarrow> board_step b (b\<lparr>offers := (offers b)(i := None)\<rparr>)"
| connect_call: "offers b i = Some e \<Longrightarrow> size (calls b) < 256 \<Longrightarrow>
    board_step b (b\<lparr>offers := (offers b)(i := None), calls := add_mset (i, e) (calls b)\<rparr>)"
| end_call: "c \<in># calls b \<Longrightarrow> board_step b (b\<lparr>calls := calls b - {#c#}\<rparr>)"

definition empty_board :: board where
  "empty_board = \<lparr>holder = (\<lambda>_. None), offers = (\<lambda>_. None), calls = {#}\<rparr>"

fun offered :: "loop_pc \<Rightarrow> nat option" where
  "offered (Opening sid e) = Some e"
| "offered (Launching sid e) = Some e"
| "offered _ = None"

definition board_of :: "relay \<Rightarrow> board" where
  "board_of r = \<lparr>holder = (\<lambda>role. map_option fst (Current (reg (svc r)) role)), offers = (\<lambda>i. offered (loops r i)),
     calls = mset (map (\<lambda>q. (proxyW q, exitW q)) (running r))\<rparr>"

lemma mset_filter_update:
  "k < length xs \<Longrightarrow> mset (map f (filter P (xs[k := x]))) + (if P (xs ! k) then {#f (xs ! k)#} else {#})
     = mset (map f (filter P xs)) + (if P x then {#f x#} else {#})"
proof (induction xs arbitrary: k)
  case (Cons y ys)
  show ?case
  proof (cases k)
    case (Suc n)
    then show ?thesis using Cons.IH [of n] Cons.prems by auto
  qed simp
qed simp

lemma holder_step:
  assumes "service_step s ev = Some t"
  shows "Current (reg t) = Current (reg s) \<or> (\<exists>role x. Current (reg t) = (Current (reg s))(role \<mapsto> x))
    \<or> (\<exists>role x. Current (reg s) role = Some x \<and> Current (reg t) = (Current (reg s))(role := None))"
proof (cases ev)
  case (WorkerRegisters i)
  from assms [unfolded this] show ?thesis
    by (rule WorkerRegisters_cases) (use register_facts(1) [of "reg s"] in \<open>simp, metis\<close>)
next
  case (WorkerVacates i)
  then obtain g where "reg t = Vacate (reg s) (wrole (workers s ! i)) g" using assms by (auto split: if_splits wphase.splits)
  then show ?thesis using relay_slots.vacate_holder [of "reg s" "wrole (workers s ! i)" g] by (simp split: if_splits) metis
qed (use assms in \<open>auto split: if_splits wphase.splits\<close>)

lemma board_Svc:
  assumes s: "service_step (svc r) ev = Some s"
  defines "r' \<equiv> r\<lparr>svc := s, pairs := map (sync s) (pairs r)\<rparr>"
  shows "board_of r' = board_of r \<or> board_step (board_of r) (board_of r')"
proof -
  have c: "calls (board_of r') = calls (board_of r)" "offers (board_of r') = offers (board_of r)"
    by (simp_all add: board_of_def r'_def running_def filter_map o_def)
  have h: "holder (board_of r') = (\<lambda>role. map_option fst (Current (reg s) role))" by (simp add: board_of_def r'_def)
  have h0: "holder (board_of r) = (\<lambda>role. map_option fst (Current (reg (svc r)) role))" by (simp add: board_of_def)
  have eq: "board_of r' = (board_of r)\<lparr>holder := holder (board_of r')\<rparr>" using c by simp
  consider "Current (reg s) = Current (reg (svc r))" | role x where "Current (reg s) = (Current (reg (svc r)))(role \<mapsto> x)"
    | role x where "Current (reg (svc r)) role = Some x" "Current (reg s) = (Current (reg (svc r)))(role := None)"
    using holder_step [OF s] by blast
  then show ?thesis
  proof cases
    case 1
    then show ?thesis using eq h h0 by simp
  next
    case 2
    then have "holder (board_of r') = (holder (board_of r))(role \<mapsto> fst x)" using h h0 by (auto simp: fun_eq_iff)
    then show ?thesis using eq board_step.take_role by metis
  next
    case 3
    then have "holder (board_of r') = (holder (board_of r))(role := None)" "holder (board_of r) role = Some (fst x)"
      using h h0 by (auto simp: fun_eq_iff)
    then show ?thesis using eq board_step.drop_role by metis
  qed
qed

lemma board_loop:
  "board_of (r\<lparr>loops := (loops r)(i := pc)\<rparr>) = (board_of r)\<lparr>offers := (offers (board_of r))(i := offered pc)\<rparr>"
  by (simp add: board_of_def running_def fun_eq_iff)

lemma board_dispose: "board_of (dispose i sid d r) = (board_of r)\<lparr>offers := (offers (board_of r))(i := None)\<rparr>"
  by (simp add: board_of_def running_def dispose_def fun_eq_iff)

lemma board_step_refines:
  assumes inv: "relay_inv r" and step: "relay_step r ev = Some r'"
  shows "board_of r' = board_of r \<or> board_step (board_of r) (board_of r')"
proof (cases ev)
  case (Svc e)
  then show ?thesis using step board_Svc [of r e] by (auto split: if_splits option.splits)
next
  case (StreamAccepted i sid)
  then show ?thesis using step by (auto simp: board_of_def running_def fun_eq_iff split: if_splits)
next
  case (ExitLookedUp i)
  then obtain sid where l: "loops r i = Looking sid" using step by (auto split: loop_pc.splits)
  then have o: "offers (board_of r) i = None" by (simp add: board_of_def)
  show ?thesis
  proof (cases "Current (reg (svc r)) ModeExit")
    case None
    then have "r' = dispose i sid ClosedNoExit r" using step ExitLookedUp l by simp
    then show ?thesis using o by (simp add: board_dispose fun_upd_idem)
  next
    case (Some x)
    obtain e g where x: "x = (e, g)" by (cases x)
    then have r': "r' = r\<lparr>loops := (loops r)(i := Opening sid e)\<rparr>" using step ExitLookedUp l Some by simp
    have "holder (board_of r) ModeExit = Some e" using Some x by (simp add: board_of_def)
    then show ?thesis unfolding r' board_loop using board_step.offer [OF _ o] by simp
  qed
next
  case (StreamOpened i res)
  then obtain sid e where l: "loops r i = Opening sid e" using step by (auto split: loop_pc.splits)
  then have o: "offers (board_of r) i = Some e" by (simp add: board_of_def)
  show ?thesis
  proof (cases res)
    case (Inl err)
    then have "r' = dispose i sid ClosedOpenFailed r" using step StreamOpened l by simp
    then show ?thesis using board_step.refuse [OF o] by (simp add: board_dispose)
  next
    case (Inr st)
    then have "r' = r\<lparr>loops := (loops r)(i := Launching sid e)\<rparr>" using step StreamOpened l by simp
    then show ?thesis using o by (simp add: board_loop fun_upd_idem)
  qed
next
  case (Launched i)
  then obtain sid e where l: "loops r i = Launching sid e" using step by (auto split: loop_pc.splits)
  then have o: "offers (board_of r) i = Some e" by (simp add: board_of_def)
  show ?thesis
  proof (cases "launch (brg r) sid")
    case None
    then have "r' = dispose i sid ClosedAtLimit r" using step Launched l by simp
    then show ?thesis using board_step.refuse [OF o] by (simp add: board_dispose)
  next
    case (Some b)
    let ?u = "r\<lparr>brg := b, pairs := pairs r @ [sync (svc r) (new_pair i e sid)]\<rparr>"
    have n: "conns (brg r) = int (length (running r))" "length (running r) \<le> 256" using inv by (simp_all add: relay_inv_def slots_ok_def)
    have "length (running r) < 256" using launch_cases [OF n] Some n(2) by (metis le_neq_implies_less option.distinct(1))
    then have small: "size (calls (board_of r)) < 256" by (simp add: board_of_def)
    have "board_of ?u = (board_of r)\<lparr>calls := add_mset (i, e) (calls (board_of r))\<rparr>"
      by (simp add: board_of_def running_def pair_start_def)
    moreover have "r' = dispose i sid Bridged ?u" using step Launched l Some by simp
    ultimately have "board_of r' = (board_of r)\<lparr>offers := (offers (board_of r))(i := None), calls := add_mset (i, e) (calls (board_of r))\<rparr>"
      by (simp add: board_dispose)
    then show ?thesis using board_step.connect_call [OF o small] by simp
  qed
next
  case (PairRuns k e)
  then obtain p where p: "k < length (pairs r)" "e \<in> {WatcherFires, CopyEnds, CopyCancelled, RunnerJoins}" "pair_step (pstate (pairs r ! k)) e = Some p"
      "r' = r\<lparr>pairs := (pairs r)[k := (pairs r ! k)\<lparr>pstate := p\<rparr>], brg := (if e = RunnerJoins then track (brg r) (rpid (pairs r ! k)) else brg r)\<rparr>"
    using step by (auto split: if_splits option.splits simp del: pair_step.simps)

  let ?c = "\<lambda>q. (proxyW q, exitW q)" and ?q = "(pairs r ! k)\<lparr>pstate := p\<rparr>"
  note own = pair_own_step [OF p(3,2)]
  have "holder (board_of r') = holder (board_of r)" "offers (board_of r') = offers (board_of r)"
    by (simp_all add: board_of_def p(4))
  then have eq: "board_of r' = (board_of r)\<lparr>calls := calls (board_of r')\<rparr>" by simp
  have cs: "calls (board_of r') + (if runner (pstate (pairs r ! k)) \<noteq> Ended then {#?c (pairs r ! k)#} else {#})
      = calls (board_of r) + (if runner p \<noteq> Ended then {#?c (pairs r ! k)#} else {#})"
    using mset_filter_update [OF p(1), of ?c "\<lambda>q. runner (pstate q) \<noteq> Ended" ?q] by (simp add: board_of_def running_def p(4))
  show ?thesis
  proof (cases "e = RunnerJoins")
    case True
    then have "add_mset (?c (pairs r ! k)) (calls (board_of r')) = calls (board_of r)" using cs own(4,5) by simp
    then have "calls (board_of r') = calls (board_of r) - {#?c (pairs r ! k)#}" "?c (pairs r ! k) \<in># calls (board_of r)"
      by (metis add_mset_remove_trivial, metis union_single_eq_member)
    then show ?thesis using eq board_step.end_call by metis
  next
    case False
    then have "calls (board_of r') = calls (board_of r)" using cs own(4) by (auto split: if_splits)
    then show ?thesis using eq by simp
  qed
qed

interpretation relay_board: machine_refinement relay_start relay_step relay_inv board_of board_step
  by unfold_locales (rule board_step_refines)

text \<open>The promises of the switchboard.\<close>

interpretation board_ok: inductive_invariant "\<lambda>b. b = empty_board" board_step "\<lambda>b. size (calls b) \<le> 256"
proof unfold_locales
  fix b b' assume "size (calls b) \<le> 256" "board_step b b'"
  from this(2,1) show "size (calls b') \<le> 256" by (cases rule: board_step.cases) (auto simp: size_Diff_singleton_if)
qed (simp add: empty_board_def)

lemma board_of_start: "board_of relay_start = empty_board"
  by (simp add: board_of_def relay_start_def empty_board_def running_def NewService_def NewRegistry_def Current_def)

section \<open>Ends of pairs\<close>

text \<open>A pair whose end has been called for, and one whose goroutines have both ended.\<close>

definition doomed :: "service \<Rightarrow> rpair \<Rightarrow> bool" where
  "doomed s q \<longleftrightarrow> wclosed (workers s ! proxyW q) \<or> wclosed (workers s ! exitW q) \<or> svc_done s"

definition unwound :: "rpair \<Rightarrow> bool" where
  "unwound q \<longleftrightarrow> runner (pstate q) = Ended \<and> watcher_done (pstate q)"

lemma tell_work: "ev \<in> {ProxySessionCloses, ExitSessionCloses, ParentCancelled} \<Longrightarrow> pair_work (tell c ev p) = pair_work p"
  by (auto simp: tell_def pair_work_def)

lemma sync_work: "pair_work (pstate (sync s q)) = pair_work (pstate q)"
  by (simp add: sync_def tell_work)

lemma own_work: "pair_step p ev = Some p' \<Longrightarrow> ev \<in> {WatcherFires, CopyEnds, CopyCancelled, RunnerJoins} \<Longrightarrow> pair_work p' < pair_work p"
  by (auto simp: pair_work_def split: if_splits)

text \<open>A step of the relay leaves a doomed pair doomed, and no step adds to its work.\<close>

lemma doomed_step:
  assumes inv: "relay_inv r" and step: "relay_step r ev = Some r'" and k: "k < length (pairs r)"
  shows "k < length (pairs r')" and "doomed (svc r) (pairs r ! k) \<Longrightarrow> doomed (svc r') (pairs r' ! k)"
    and "pair_work (pstate (pairs r' ! k)) \<le> pair_work (pstate (pairs r ! k))"
proof -
  have q: "pair_ok (svc r) (pairs r ! k)" using inv k by (simp add: relay_inv_def)
  have "k < length (pairs r') \<and> (doomed (svc r) (pairs r ! k) \<longrightarrow> doomed (svc r') (pairs r' ! k))
    \<and> pair_work (pstate (pairs r' ! k)) \<le> pair_work (pstate (pairs r ! k))"
  proof (cases ev)
    case (Svc e)
    then obtain s where s: "service_step (svc r) e = Some s" "r' = r\<lparr>svc := s, pairs := map (sync s) (pairs r)\<rparr>"
      using step by (auto split: if_splits option.splits)
    have "doomed (svc r) (pairs r ! k) \<longrightarrow> doomed s (pairs r ! k)"
      using q worker_step_mono(3) [OF s(1)] svc_done_mono [OF s(1)] by (auto simp: doomed_def pair_ok_def registered_def)
    then show ?thesis using k by (simp add: s(2) doomed_def sync_work)
  next
    case (PairRuns j e)
    then obtain p where p: "j < length (pairs r)" "e \<in> {WatcherFires, CopyEnds, CopyCancelled, RunnerJoins}" "pair_step (pstate (pairs r ! j)) e = Some p"
        "pairs r' = (pairs r)[j := (pairs r ! j)\<lparr>pstate := p\<rparr>]" "svc r' = svc r"
      using step by (auto split: if_splits option.splits simp del: pair_step.simps)
    then show ?thesis using k own_work [OF p(3,2)] by (cases "j = k") (simp_all add: doomed_def)
  qed (use step k in \<open>auto simp: nth_append dispose_def doomed_def split: if_splits loop_pc.splits option.splits sum.splits\<close>)
  then show "k < length (pairs r')" "doomed (svc r) (pairs r ! k) \<Longrightarrow> doomed (svc r') (pairs r' ! k)"
    "pair_work (pstate (pairs r' ! k)) \<le> pair_work (pstate (pairs r ! k))" by auto
qed

lemma doomed_progress:
  assumes inv: "relay_inv r" and k: "k < length (pairs r)" and d: "doomed (svc r) (pairs r ! k)" and n: "\<not> unwound (pairs r ! k)"
  shows "\<exists>ev \<in> {WatcherFires, CopyCancelled, RunnerJoins}. \<exists>r'. relay_step r (PairRuns k ev) = Some r'
    \<and> pair_work (pstate (pairs r' ! k)) < pair_work (pstate (pairs r ! k))"
proof -
  let ?p = "pstate (pairs r ! k)"
  have q: "pair_ok (svc r) (pairs r ! k)" using inv k by (simp add: relay_inv_def)
  then have "pair_inv ?p" "proxy_closed ?p \<or> exit_closed ?p \<or> child_done ?p" using d by (auto simp: pair_ok_def doomed_def)
  then have "\<exists>ev \<in> {WatcherFires, CopyCancelled, RunnerJoins}. pair_step ?p ev \<noteq> None"
    using n by (cases "runner ?p"; cases "watcher_done ?p") (auto simp: unwound_def pair_inv_def)
  then obtain ev p where ev: "ev \<in> {WatcherFires, CopyCancelled, RunnerJoins}" "pair_step ?p ev = Some p" by blast
  moreover have "pair_work p < pair_work ?p" using own_work [OF ev(2)] ev(1) by blast
  ultimately show ?thesis using k by (intro bexI [OF _ ev(1)]) (auto simp del: pair_step.simps)
qed

section \<open>Properties\<close>

text \<open>A proxy and an exit join, one stream is bridged.\<close>

definition bridged_run :: "relay_event list" where
  "bridged_run = [Svc (AcceptSession ModeExit), Svc (WorkerRegisters 0), Svc (AcceptSession ModeProxy), Svc (WorkerRegisters 1),
     StreamAccepted 1 7, ExitLookedUp 1, StreamOpened 1 (Inr 2), Launched 1]"

text \<open>The relay is then shut down, while the pair is still copying.\<close>

definition shutdown_run :: "relay_event list" where
  "shutdown_run = [Svc (svc_event.CtxDone (Sentinel Canceled)), Svc AcceptEnds, Svc ShutdownStarts, Svc AcceptJoined,
     Svc (ServeReturns 0), Svc (ServeReturns 1), Svc (WorkerCloses 0), Svc (WorkerCloses 1), Svc (WorkerVacates 0), Svc (WorkerVacates 1), Svc (WorkerEnds 0),
     Svc (WorkerEnds 1), Svc WorkersJoined]"

lemmas relay_run_simps = relay_start_def NewService_def NewBridge_def NewRegistry_def Register_def Vacate_def close_session_def
  set_phase_def started_def serves_def dispose_def Current_def launch_def track_def maxStreams_def sync_def tell_def new_pair_def
  pair_start_def svc_done_def closeAll_def

lemma bridged_run_state:
  "\<exists>r. run_events relay_step relay_start bridged_run = Some r \<and> length (workers (svc r)) = 2 \<and> map proxyW (running r) = [1]
     \<and> map exitW (running r) = [0] \<and> \<not> wclosed (workers (svc r) ! 0) \<and> \<not> wclosed (workers (svc r) ! 1)
     \<and> wphase (workers (svc r) ! 0) = Serving 1 \<and> wphase (workers (svc r) ! 1) = Serving 1"
  by (simp add: bridged_run_def relay_run_simps running_def)

text \<open>
  C1. The relay connects the registered proxy with the registered exit and nobody else: in every
  reachable state with fewer than 2^63 sessions so far, every running pair joins a proxy's and an exit's
  session, and either of the two that is not closed is the session that its role's slot holds, or a
  worker of that role has just replaced it and the worker's next step, which is enabled, closes it.
  Sessions may be replaced at any point, also between the lookup of the exit and the launch of the pair,
  and a replaced session is closed in a step of its own, outside the registry's lock.
\<close>

theorem relay_pairs_registered:
  assumes "reaches relay_step relay_start r" and "length (workers (svc r)) < 2 ^ 63" and "q \<in> set (running r)"
  shows "\<forall>(i, role) \<in> {(proxyW q, ModeProxy), (exitW q, ModeExit)}. wrole (workers (svc r) ! i) = role
    \<and> (\<not> wclosed (workers (svc r) ! i) \<longrightarrow>
         (\<exists>g. Current (reg (svc r)) role = Some (i, g))
         \<or> (\<exists>j r'. wrole (workers (svc r) ! j) = role \<and> replaces (wphase (workers (svc r) ! j)) = Some i
              \<and> relay_step r (Svc (WorkerClosesPrev j)) = Some r' \<and> wclosed (workers (svc r') ! i)))"
proof -
  note inv = relay_ok.reaches_inv [OF assms(1)]
  have "op_count (workers (svc r)) < 2 ^ 64" using op_count_bound [of "workers (svc r)"] assms(2) by simp
  then have held: "open_held (reg (svc r)) (workers (svc r))"
    using inv by (simp add: relay_inv_def service_inv_def inv_gen_def)
  have "wrole (workers (svc r) ! i) = role \<and> (\<not> wclosed (workers (svc r) ! i) \<longrightarrow>
         (\<exists>g. Current (reg (svc r)) role = Some (i, g))
         \<or> (\<exists>j r'. wrole (workers (svc r) ! j) = role \<and> replaces (wphase (workers (svc r) ! j)) = Some i
              \<and> relay_step r (Svc (WorkerClosesPrev j)) = Some r' \<and> wclosed (workers (svc r') ! i)))"
    if reg: "registered (workers (svc r)) i role" and "role \<in> {ModeProxy, ModeExit}" for i role
  proof (intro conjI impI)
    show role: "wrole (workers (svc r) ! i) = role" using reg by (simp add: registered_def)
    assume o: "\<not> wclosed (workers (svc r) ! i)"
    then have "\<not> departed (wphase (workers (svc r) ! i))"
      using inv that by (auto simp: relay_inv_def left_closed_def registered_def)
    then have "(\<exists>g. Current (reg (svc r)) role = Some (i, g)) \<or> victim (workers (svc r)) i"
      using registered_phase [OF reg] held reg o by (auto simp: open_held_def registered_def)
    then show "(\<exists>g. Current (reg (svc r)) role = Some (i, g))
         \<or> (\<exists>j r'. wrole (workers (svc r) ! j) = role \<and> replaces (wphase (workers (svc r) ! j)) = Some i
              \<and> relay_step r (Svc (WorkerClosesPrev j)) = Some r' \<and> wclosed (workers (svc r') ! i))"
    proof
      assume "victim (workers (svc r)) i"
      moreover have "i < length (workers (svc r))" using reg by (simp add: registered_def)
      ultimately obtain j t where "wrole (workers (svc r) ! j) = role" "replaces (wphase (workers (svc r) ! j)) = Some i"
          "service_step (svc r) (WorkerClosesPrev j) = Some t" "wclosed (workers t ! i)"
        using victim_closes [of "svc r" i] role by (simp del: service_step.simps) blast
      then show ?thesis
        by (intro disjI2 exI [of _ j] exI [of _ "r\<lparr>svc := t, pairs := map (sync t) (pairs r)\<rparr>"])
          (simp del: service_step.simps)
    qed simp
  qed
  moreover have "registered (workers (svc r)) (proxyW q) ModeProxy" "registered (workers (svc r)) (exitW q) ModeExit"
    using inv assms(3) by (auto simp: relay_inv_def pair_ok_def running_def)
  ultimately show ?thesis by blast
qed

theorem relay_pairs_registered_witness:
  "\<exists>r. run_events relay_step relay_start bridged_run = Some r
     \<and> (\<exists>g h. Current (reg (svc r)) ModeProxy = Some (1, g) \<and> Current (reg (svc r)) ModeExit = Some (0, h))"
proof -
  obtain r where r: "run_events relay_step relay_start bridged_run = Some r" "length (workers (svc r)) = 2"
      "map proxyW (running r) = [1]" "map exitW (running r) = [0]" "\<not> wclosed (workers (svc r) ! 0)" "\<not> wclosed (workers (svc r) ! 1)"
      "wphase (workers (svc r) ! 0) = Serving 1" "wphase (workers (svc r) ! 1) = Serving 1"
    using bridged_run_state by (elim exE conjE)
  obtain q qs where q: "running r = q # qs" "proxyW q = 1" using map_eq_Cons_D [OF r(3)] by blast
  then have m: "q \<in> set (running r)" and e: "exitW q = 0" and small: "length (workers (svc r)) < 2 ^ 63" using r(2,4) by simp_all
  have none: "relay_step r (Svc (WorkerClosesPrev j)) = None" for j
    using r(2,7,8) less_2_cases [of j] by auto
  have "(\<exists>g. Current (reg (svc r)) ModeProxy = Some (1, g)) \<and> (\<exists>h. Current (reg (svc r)) ModeExit = Some (0, h))"
    using relay_pairs_registered [OF run_events_reaches [OF r(1)] small m] r(5,6) none q(2) e
    by (simp del: relay_step.simps)
  then show ?thesis using r(1) by blast
qed

text \<open>
  C7. The relay implements the switchboard: whatever the interleaving of session workers, serve
  loops and pairs, the holders, pending offers and running pairs evolve by steps of the specification,
  so there are never more than 256 running pairs, which is what the bridge counts; and the streams that
  were bridged all came from proxies, while every stream an exit opened was closed.
\<close>

theorem relay_refines_switchboard:
  assumes "reaches relay_step relay_start r"
  shows "reachable (\<lambda>b. b = empty_board) board_step (board_of r)
    \<and> conns (brg r) = int (length (running r)) \<and> length (running r) \<le> 256
    \<and> map (\<lambda>q. (proxyW q, rpid q)) (pairs r)
        = map (\<lambda>(i, sid, d). (i, sid)) (filter (\<lambda>(i, sid, d). d = Bridged) (outcomes r))
    \<and> (\<forall>(i, sid, d) \<in> set (outcomes r). wrole (workers (svc r) ! i) = ModeProxy)
    \<and> (\<forall>(i, sid) \<in> set (rejected r). wrole (workers (svc r) ! i) = ModeExit)"
proof -
  have b: "reachable (\<lambda>b. b = empty_board) board_step (board_of r)"
    using relay_board.reaches_abs [OF assms] by (simp add: board_of_start)
  then have "size (calls (board_of r)) \<le> 256" by (rule board_ok.reachable_inv)
  then have "length (running r) \<le> 256" by (simp add: board_of_def)
  then show ?thesis using b relay_ok.reaches_inv [OF assms]
    by (auto simp: relay_inv_def slots_ok_def streams_ok_def registered_def)
qed

theorem relay_refines_switchboard_witness:
  "\<exists>r. run_events relay_step relay_start bridged_run = Some r
     \<and> reachable (\<lambda>b. b = empty_board) board_step (board_of r) \<and> conns (brg r) = int (length (running r))"
proof -
  obtain r where r: "run_events relay_step relay_start bridged_run = Some r" using bridged_run_state by blast
  then show ?thesis using relay_refines_switchboard [OF run_events_reaches [OF r]] by blast
qed

text \<open>
  C11. A pair does not survive its sessions: once the proxy's or the exit's session is closed
  (because it was replaced, its peer left or the relay shuts down) or the service context has ended,
  this stays so, no step of the relay adds to the pair's remaining work, and until both goroutines of
  the pair have ended one of the steps that follow from it (the watcher's cancel, the copy's return on
  the cancelled context, the join) is enabled and reduces it. The peers need not end their copies.
\<close>

theorem relay_pair_unwinds:
  assumes "reaches relay_step relay_start r" and "k < length (pairs r)" and "doomed (svc r) (pairs r ! k)"
  shows "(\<not> unwound (pairs r ! k) \<longrightarrow> (\<exists>ev \<in> {WatcherFires, CopyCancelled, RunnerJoins}. \<exists>r'. relay_step r (PairRuns k ev) = Some r'
        \<and> pair_work (pstate (pairs r' ! k)) < pair_work (pstate (pairs r ! k))))
    \<and> (\<forall>ev r'. relay_step r ev = Some r' \<longrightarrow> k < length (pairs r') \<and> doomed (svc r') (pairs r' ! k)
        \<and> pair_work (pstate (pairs r' ! k)) \<le> pair_work (pstate (pairs r ! k)))"
  using doomed_progress [OF relay_ok.reaches_inv [OF assms(1)] assms(2,3)]
    doomed_step [OF relay_ok.reaches_inv [OF assms(1)] _ assms(2)] assms(3) by blast

theorem relay_pair_unwinds_witness:
  "\<exists>r ev r'. run_events relay_step relay_start (bridged_run @ [Svc (PeerCloses 0)]) = Some r \<and> relay_step r (PairRuns 0 ev) = Some r'"
proof -
  obtain r where r: "run_events relay_step relay_start (bridged_run @ [Svc (PeerCloses 0)]) = Some r"
      "length (pairs r) = 1" "doomed (svc r) (pairs r ! 0)" "\<not> unwound (pairs r ! 0)"
    by (simp add: bridged_run_def relay_run_simps doomed_def unwound_def)
  have "0 < length (pairs r)" using r(2) by simp
  then show ?thesis using relay_pair_unwinds [OF run_events_reaches [OF r(1)] _ r(3)] r(1,4) by blast
qed

text \<open>
  \<open>Run\<close> waits for its serve loops and not for the pairs they launched: it can return while a
  pair is still copying.
\<close>

theorem relay_returns_before_pairs:
  "\<exists>r. reaches relay_step relay_start r \<and> spc (svc r) = spc.Returned (Some (Sentinel Canceled)) \<and> running r \<noteq> [] \<and> conns (brg r) = 1"
proof -
  obtain r where r: "run_events relay_step relay_start (bridged_run @ shutdown_run) = Some r"
      "spc (svc r) = spc.Returned (Some (Sentinel Canceled))" "running r \<noteq> []" "conns (brg r) = 1"
    by (simp add: bridged_run_def shutdown_run_def relay_run_simps running_def)
  then show ?thesis using run_events_reaches [OF r(1)] by blast
qed

end
