(* ===== verification/ExitStreams.thy ===== *)
theory ExitStreams
  imports Nodes Handler
begin

text \<open>
  The exit process with the goroutines that serve its streams: \<open>Broker.serveConn\<close> (\<open>broker.go\<close>) runs
  \<open>Handler.ServeConn\<close> (\<open>handler.go\<close>) for every stream the broker takes, under the context of the link
  the stream came from. What the handler does on the stream is the subject of Handler; here its
  goroutines are followed from the hand-over to their end.
\<close>

section \<open>State and steps\<close>

text \<open>A goroutine of \<open>serveConn\<close>: before it has set the deadline, in \<open>ServeConn\<close> with its watcher, or returned early.\<close>

datatype sphase = SNew | SRuns watch | SFailed

record xstream =
  xlink :: nat
  xid :: nat
  xphase :: sphase

record exit_proc =
  xnode :: exit_node
  xstreams :: "xstream list"

datatype exit_proc_event = PNode exit_event | PBegins nat | PDeadlineFails nat | PStream nat watch_event

definition exit_proc_start :: "Authenticator \<Rightarrow> exit_proc" where
  "exit_proc_start a = \<lparr>xnode = exit_node_start a, xstreams = []\<rparr>"

definition link_ended :: "exit_node \<Rightarrow> nat \<Rightarrow> bool" where
  "link_ended n i \<longleftrightarrow> ctx_done (links (xconn n) ! i)"

text \<open>A running handler sees the end of its link's context.\<close>

definition tell_session :: "exit_node \<Rightarrow> xstream \<Rightarrow> xstream" where
  "tell_session n s = (case xphase s of
      SRuns w \<Rightarrow> if link_ended n (xlink s) then s\<lparr>xphase := SRuns (w\<lparr>session_done := True\<rparr>)\<rparr> else s
    | _ \<Rightarrow> s)"

text \<open>
  \<open>serveConn\<close> starts one goroutine for the stream that \<open>serveSession\<close> has taken from its feed, under
  the link that \<open>serveSession\<close> was called with.
\<close>

definition serveConn :: "exit_node \<Rightarrow> exit_event \<Rightarrow> exit_node \<Rightarrow> xstream list" where
  "serveConn n ev n' = (case (ev, bpc (xbroker n)) of
      (XBroker BTakesStream, BServing i) \<Rightarrow>
        [\<lparr>xlink = alink (accs (xbroker n) ! i), xid = snd (last (served (xbroker n'))), xphase = SNew\<rparr>]
    | _ \<Rightarrow> [])"

fun exit_proc_step :: "Authenticator \<Rightarrow> exit_proc \<Rightarrow> exit_proc_event \<Rightarrow> exit_proc option" where
  "exit_proc_step a x (PNode ev) =
     map_option (\<lambda>n. \<lparr>xnode = n, xstreams = map (tell_session n) (xstreams x @ serveConn (xnode x) ev n)\<rparr>)
       (exit_node_step a (xnode x) ev)"
| "exit_proc_step a x (PBegins k) =
     (if k < length (xstreams x) \<and> xphase (xstreams x ! k) = SNew
      then Some (x\<lparr>xstreams := (xstreams x)[k := tell_session (xnode x) ((xstreams x ! k)\<lparr>xphase := SRuns watch_start\<rparr>)]\<rparr>)
      else None)"
| "exit_proc_step a x (PDeadlineFails k) =
     (if k < length (xstreams x) \<and> xphase (xstreams x ! k) = SNew
      then Some (x\<lparr>xstreams := (xstreams x)[k := (xstreams x ! k)\<lparr>xphase := SFailed\<rparr>]\<rparr>) else None)"
| "exit_proc_step a x (PStream k ev) =
     (if k < length (xstreams x) \<and> ev \<noteq> SessionEnds then
        (case xphase (xstreams x ! k) of
           SRuns w \<Rightarrow> map_option (\<lambda>w'. x\<lparr>xstreams := (xstreams x)[k := (xstreams x ! k)\<lparr>xphase := SRuns w'\<rparr>]\<rparr>) (watch_step w ev)
         | _ \<Rightarrow> None)
      else None)"

section \<open>Invariant\<close>

definition stream_ok :: "exit_node \<Rightarrow> xstream \<Rightarrow> bool" where
  "stream_ok n s \<longleftrightarrow> xlink s \<in> alink ` set (accs (xbroker n)) \<and> xlink s < length (links (xconn n))
     \<and> (\<forall>w. xphase s = SRuns w \<longrightarrow> watch_inv w \<and> (session_done w \<longleftrightarrow> link_ended n (xlink s)))"

definition exit_proc_inv :: "Authenticator \<Rightarrow> exit_proc \<Rightarrow> bool" where
  "exit_proc_inv a x \<longleftrightarrow> exit_inv a (xnode x) \<and> (\<forall>s \<in> set (xstreams x). stream_ok (xnode x) s)
     \<and> map (\<lambda>s. (xlink s, xid s)) (xstreams x) = served (xbroker (xnode x))"

text \<open>The steps left to a stream's goroutine.\<close>

definition over :: "xstream \<Rightarrow> bool" where
  "over s \<longleftrightarrow> (case xphase s of SNew \<Rightarrow> False | SRuns w \<Rightarrow> returned w | SFailed \<Rightarrow> True)"

definition stream_work :: "xstream \<Rightarrow> nat" where
  "stream_work s = (case xphase s of SNew \<Rightarrow> 4 | SFailed \<Rightarrow> 0
    | SRuns w \<Rightarrow> (if stop w then 0 else 1) + (if watcher_done w then 0 else 1) + (if returned w then 0 else 1))"

section \<open>The node underneath\<close>

text \<open>A step of the node adds links and acceptors, ends links, and takes at most the stream that \<open>serveConn\<close> gets.\<close>

lemma broker_step_accs: "broker_step b ev = Some b' \<Longrightarrow> \<exists>ls. map alink (accs b') = map alink (accs b) @ ls"
  by (cases ev)
    (auto simp: leave_session_def acc_update_links split: if_splits bpc.splits astate.splits option.splits prod.splits)

lemma broker_step_served:
  assumes "broker_step b ev = Some b'"
  shows "served b' = served b \<or> (ev = BTakesStream \<and> (\<exists>i c. bpc b = BServing i \<and> served b' = served b @ [c]))"
  using assms by (cases ev) (auto simp: leave_session_def split: if_splits bpc.splits astate.splits option.splits prod.splits)

lemma node_step:
  assumes "exit_node_step a n ev = Some m"
  shows "length (links (xconn n)) \<le> length (links (xconn m))"
    and "i < length (links (xconn n)) \<Longrightarrow> link_ended n i \<Longrightarrow> link_ended m i"
    and "alink ` set (accs (xbroker n)) \<subseteq> alink ` set (accs (xbroker m))"
proof -
  have "(\<exists>e. connector_step (aTiming a) (xconn n) e = Some (xconn m)) \<or> xconn m = xconn n
      \<or> (\<exists>i. xconn m = upd_link i Session_Close (xconn n))"
    using assms
    by (cases ev)
      (auto simp: with_conn_def broker_closes_def simp del: connector_step.simps broker_step.simps split: if_splits option.splits bpc.splits)
  then have "length (links (xconn n)) \<le> length (links (xconn m))
      \<and> (i < length (links (xconn n)) \<longrightarrow> link_ended n i \<longrightarrow> link_ended m i)"
    using connector_step_extends connector_step_ctx
    by (fastforce simp: link_ended_def conn_extends_def upd_link_def nth_update Session_Close_def)
  then show "length (links (xconn n)) \<le> length (links (xconn m))"
    "i < length (links (xconn n)) \<Longrightarrow> link_ended n i \<Longrightarrow> link_ended m i" by auto
  have "accs (xbroker m) = accs (xbroker n) \<or> (\<exists>e. broker_step (xbroker n) e = Some (xbroker m))"
    using assms by (cases ev) (auto simp: with_conn_def simp del: connector_step.simps broker_step.simps split: if_splits option.splits)
  then obtain ls where "map alink (accs (xbroker m)) = map alink (accs (xbroker n)) @ ls"
    using broker_step_accs by (metis append_Nil2)
  then show "alink ` set (accs (xbroker n)) \<subseteq> alink ` set (accs (xbroker m))" by (metis Un_upper1 set_append set_map)
qed

lemma tell_session_sel [simp]: "xlink (tell_session n s) = xlink s" "xid (tell_session n s) = xid s"
  by (auto simp: tell_session_def split: sphase.splits)

lemma tell_session_work [simp]: "stream_work (tell_session n s) = stream_work s"
  by (auto simp: tell_session_def stream_work_def split: sphase.splits)

lemma tell_session_over [simp]: "over (tell_session n s) = over s"
  by (auto simp: tell_session_def over_def split: sphase.splits)

lemma tell_session_ok:
  assumes "stream_ok n s" and "exit_node_step a n ev = Some m"
  shows "stream_ok m (tell_session m s)"
proof -
  note st = node_step [OF assms(2)]
  have "xlink s \<in> alink ` set (accs (xbroker m)) \<and> xlink s < length (links (xconn m))"
    using assms(1) st(1,3) by (auto simp: stream_ok_def)
  moreover have "watch_inv w \<and> (session_done w \<longleftrightarrow> link_ended m (xlink s))" if "xphase (tell_session m s) = SRuns w" for w
    using that assms(1) st(2) [of "xlink s"]
    by (auto simp: tell_session_def stream_ok_def watch_inv_def split: sphase.splits if_splits)
  ultimately show ?thesis by (simp add: stream_ok_def)
qed

text \<open>What \<open>serveConn\<close> starts belongs to a link the broker serves, and is the stream just served.\<close>

lemma node_step_served:
  assumes "exit_node_step a n ev = Some m" and "ev \<noteq> XBroker BTakesStream"
  shows "served (xbroker m) = served (xbroker n)"
proof -
  have "served (xbroker m) = served (xbroker n) \<or> (\<exists>e. e \<noteq> BTakesStream \<and> broker_step (xbroker n) e = Some (xbroker m))"
    using assms by (cases ev) (auto simp: with_conn_def simp del: connector_step.simps broker_step.simps split: if_splits option.splits)
  then show ?thesis using broker_step_served by blast
qed

lemma node_takes:
  assumes inv: "exit_inv a n" and step: "exit_node_step a n (XBroker BTakesStream) = Some m"
  obtains i c where "bpc (xbroker n) = BServing i" "i < length (accs (xbroker n))"
    "served (xbroker m) = served (xbroker n) @ [(alink (accs (xbroker n) ! i), c)]"
    "xconn m = xconn n" "alink (accs (xbroker n) ! i) < length (links (xconn n))"
proof -
  have b: "broker_step (xbroker n) BTakesStream = Some (xbroker m)" "xconn m = xconn n"
    using step by (auto simp: broker_closes_def simp del: broker_step.simps split: bpc.splits)
  then obtain i c where i: "bpc (xbroker n) = BServing i" "(set_acc i ATop (xbroker n))\<lparr>served := served (xbroker n) @ [(alink (accs (xbroker n) ! i), c)]\<rparr> = xbroker m"
    by (auto split: bpc.splits astate.splits)
  from i(2) [symmetric] have "served (xbroker m) = served (xbroker n) @ [(alink (accs (xbroker n) ! i), c)]" by simp
  moreover have "i < length (accs (xbroker n))" using inv i(1) by (simp add: exit_inv_def broker_inv_def inv_stop_def)
  ultimately show ?thesis using that i(1) b(2) inv by (simp add: exit_inv_def)
qed

lemma serveConn_spec:
  assumes inv: "exit_inv a n" and step: "exit_node_step a n ev = Some m"
  shows "served (xbroker m) = served (xbroker n) @ map (\<lambda>s. (xlink s, xid s)) (serveConn n ev m)"
    and "s \<in> set (serveConn n ev m) \<Longrightarrow> stream_ok m (tell_session m s)"
proof -
  have "served (xbroker m) = served (xbroker n) @ map (\<lambda>s. (xlink s, xid s)) (serveConn n ev m) \<and> (s \<in> set (serveConn n ev m) \<longrightarrow> stream_ok m (tell_session m s))"
  proof (cases "ev = XBroker BTakesStream")
    case True
    then obtain i c where i: "bpc (xbroker n) = BServing i" "i < length (accs (xbroker n))"
        "served (xbroker m) = served (xbroker n) @ [(alink (accs (xbroker n) ! i), c)]"
        "xconn m = xconn n" "alink (accs (xbroker n) ! i) < length (links (xconn n))"
      using node_takes [OF inv] step by metis
    have "alink (accs (xbroker n) ! i) \<in> alink ` set (accs (xbroker m))" using node_step(3) [OF step] i(2) by auto
    then show ?thesis using True i by (auto simp: serveConn_def stream_ok_def tell_session_def)
  next
    case False
    then have "serveConn n ev m = []" by (auto simp: serveConn_def split: exit_event.splits broker_event.splits bpc.splits)
    then show ?thesis using node_step_served [OF step False] by simp
  qed
  then show "served (xbroker m) = served (xbroker n) @ map (\<lambda>s. (xlink s, xid s)) (serveConn n ev m)"
    "s \<in> set (serveConn n ev m) \<Longrightarrow> stream_ok m (tell_session m s)" by auto
qed

section \<open>Every step keeps the invariant\<close>

lemma watch_step_ends: "watch_step w ev = Some w' \<Longrightarrow> ev \<noteq> SessionEnds \<Longrightarrow> session_done w' = session_done w"
  by (cases ev) (auto split: if_splits)

lemma exit_proc_inv_step:
  assumes tm: "timing_ok (aTiming a)" "MaxBackoff (aTiming a) < 2 ^ 62"
    and inv: "exit_proc_inv a x" and step: "exit_proc_step a x ev = Some y"
  shows "exit_proc_inv a y"
proof -
  have upd: "exit_proc_inv a (x\<lparr>xstreams := (xstreams x)[k := s]\<rparr>)"
    if "stream_ok (xnode x) s" "k < length (xstreams x)" "xid s = xid (xstreams x ! k)" "xlink s = xlink (xstreams x ! k)" for k s
  proof -
    have "map (\<lambda>s. (xlink s, xid s)) ((xstreams x)[k := s]) = map (\<lambda>s. (xlink s, xid s)) (xstreams x)"
      using that by (simp add: map_update list_update_same_conv)
    then show ?thesis using inv that set_update_subset_insert [of "xstreams x" k s] by (auto simp: exit_proc_inv_def)
  qed
  have ok: "stream_ok (xnode x) (xstreams x ! k)" if "k < length (xstreams x)" for k
    using inv that by (simp add: exit_proc_inv_def)
  show ?thesis
  proof (cases ev)
    case (PNode e)
    then obtain n where n: "exit_node_step a (xnode x) e = Some n"
        "y = \<lparr>xnode = n, xstreams = map (tell_session n) (xstreams x @ serveConn (xnode x) e n)\<rparr>"
      using step by auto
    then show ?thesis
      using inv exit_inv_step [OF tm _ n(1)] serveConn_spec [OF _ n(1)] tell_session_ok [OF _ n(1)]
      by (auto simp: exit_proc_inv_def o_def)
  next
    case (PBegins k)
    then have k: "k < length (xstreams x)" "y = x\<lparr>xstreams := (xstreams x)[k := tell_session (xnode x) ((xstreams x ! k)\<lparr>xphase := SRuns watch_start\<rparr>)]\<rparr>"
      using step by (auto split: if_splits)
    have "stream_ok (xnode x) (tell_session (xnode x) ((xstreams x ! k)\<lparr>xphase := SRuns watch_start\<rparr>))"
      using ok [OF k(1)] watch_ok.start_inv by (auto simp: stream_ok_def tell_session_def watch_start_def watch_inv_def)
    then show ?thesis unfolding k(2) using k(1) by (intro upd) simp_all
  next
    case (PDeadlineFails k)
    then show ?thesis using step ok [of k] by (auto simp: stream_ok_def intro!: upd split: if_splits)
  next
    case (PStream k e)
    then obtain w w' where w: "k < length (xstreams x)" "e \<noteq> SessionEnds" "xphase (xstreams x ! k) = SRuns w" "watch_step w e = Some w'"
        "y = x\<lparr>xstreams := (xstreams x)[k := (xstreams x ! k)\<lparr>xphase := SRuns w'\<rparr>]\<rparr>"
      using step by (auto split: if_splits sphase.splits simp del: watch_step.simps)
    have "stream_ok (xnode x) ((xstreams x ! k)\<lparr>xphase := SRuns w'\<rparr>)"
      using ok [OF w(1)] w(3) watch_ok.event_inv [OF _ w(4)] watch_step_ends [OF w(4,2)] by (simp add: stream_ok_def)
    then show ?thesis unfolding w(5) using w(1) by (intro upd) simp_all
  qed
qed

lemma exit_proc_machine:
  assumes "timing_ok (aTiming a)" and "MaxBackoff (aTiming a) < 2 ^ 62"
  shows "machine_invariant (exit_proc_start a) (exit_proc_step a) (exit_proc_inv a)"
proof
  have "exit_inv a (exit_node_start a)" using machine_invariant.start_inv [OF exit_machine [OF assms]] .
  then show "exit_proc_inv a (exit_proc_start a)"
    by (simp add: exit_proc_inv_def exit_proc_start_def exit_node_start_def NewBroker_def)
qed (rule exit_proc_inv_step [OF assms])

interpretation sample_exit_proc: machine_invariant
  "exit_proc_start sampleAuth" "exit_proc_step sampleAuth" "exit_proc_inv sampleAuth"
  by (rule exit_proc_machine [OF sample_timing])

lemma exit_proc_reaches_inv:
  "timing_ok (aTiming a) \<Longrightarrow> MaxBackoff (aTiming a) < 2 ^ 62 \<Longrightarrow>
   reaches (exit_proc_step a) (exit_proc_start a) x \<Longrightarrow> exit_proc_inv a x"
  using machine_invariant.reaches_inv [OF exit_proc_machine] by blast

section \<open>Ends of streams\<close>

lemma stream_work_begun: "stream_work (s\<lparr>xphase := SRuns watch_start\<rparr>) = 3" "xphase s = SNew \<Longrightarrow> stream_work s = 4"
  by (simp_all add: stream_work_def watch_start_def)

text \<open>No step of the process adds to a goroutine's work, and the end of a link is final.\<close>

lemma stream_step:
  assumes inv: "exit_proc_inv a x" and step: "exit_proc_step a x ev = Some y" and k: "k < length (xstreams x)"
  shows "k < length (xstreams y)" and "xlink (xstreams y ! k) = xlink (xstreams x ! k)"
    and "link_ended (xnode x) (xlink (xstreams x ! k)) \<Longrightarrow> link_ended (xnode y) (xlink (xstreams x ! k))"
    and "stream_work (xstreams y ! k) \<le> stream_work (xstreams x ! k)"
proof -
  have l: "xlink (xstreams x ! k) < length (links (xconn (xnode x)))" using inv k by (auto simp: exit_proc_inv_def stream_ok_def)
  have "k < length (xstreams y) \<and> xlink (xstreams y ! k) = xlink (xstreams x ! k)
    \<and> (link_ended (xnode x) (xlink (xstreams x ! k)) \<longrightarrow> link_ended (xnode y) (xlink (xstreams x ! k)))
    \<and> stream_work (xstreams y ! k) \<le> stream_work (xstreams x ! k)"
  proof (cases ev)
    case (PNode e)
    then obtain n where n: "exit_node_step a (xnode x) e = Some n"
        "y = \<lparr>xnode = n, xstreams = map (tell_session n) (xstreams x @ serveConn (xnode x) e n)\<rparr>"
      using step by auto
    then show ?thesis using k node_step(2) [OF n(1) l] by (simp add: nth_append)
  next
    case (PBegins j)
    then have j: "j < length (xstreams x)" "xphase (xstreams x ! j) = SNew"
        "y = x\<lparr>xstreams := (xstreams x)[j := tell_session (xnode x) ((xstreams x ! j)\<lparr>xphase := SRuns watch_start\<rparr>)]\<rparr>"
      using step by (auto split: if_splits)
    then show ?thesis using k by (cases "j = k") (simp_all add: stream_work_begun)
  next
    case (PDeadlineFails j)
    then show ?thesis using step k by (cases "j = k") (auto simp: stream_work_def split: if_splits)
  next
    case (PStream j e)
    then obtain w w' where w: "j < length (xstreams x)" "e \<noteq> SessionEnds" "xphase (xstreams x ! j) = SRuns w" "watch_step w e = Some w'"
        "y = x\<lparr>xstreams := (xstreams x)[j := (xstreams x ! j)\<lparr>xphase := SRuns w'\<rparr>]\<rparr>"
      using step by (auto split: if_splits sphase.splits simp del: watch_step.simps)
    have "stream_work ((xstreams x ! j)\<lparr>xphase := SRuns w'\<rparr>) < stream_work (xstreams x ! j)"
      using w(2-4) by (cases e) (auto simp: stream_work_def split: if_splits)
    then show ?thesis using k w(1,5) by (cases "j = k") simp_all
  qed
  then show "k < length (xstreams y)" "xlink (xstreams y ! k) = xlink (xstreams x ! k)"
    "link_ended (xnode x) (xlink (xstreams x ! k)) \<Longrightarrow> link_ended (xnode y) (xlink (xstreams x ! k))"
    "stream_work (xstreams y ! k) \<le> stream_work (xstreams x ! k)" by auto
qed

text \<open>A goroutine whose link has ended can always proceed, and its stream can be cut until its watcher has ended.\<close>

lemma stream_progress:
  assumes inv: "exit_proc_inv a x" and k: "k < length (xstreams x)" and n: "\<not> over (xstreams x ! k)"
    and ended: "link_ended (xnode x) (xlink (xstreams x ! k))"
  shows "\<exists>ev y. ev \<in> {PBegins k, PStream k WatcherSeesSession, PStream k LibraryInterrupted, PStream k ServeConnReturns}
    \<and> exit_proc_step a x ev = Some y \<and> stream_work (xstreams y ! k) < stream_work (xstreams x ! k)"
proof (cases "xphase (xstreams x ! k)")
  case SNew
  then show ?thesis using k by (intro exI [of _ "PBegins k"]) (simp add: stream_work_begun)
next
  case (SRuns w)
  have s: "session_done w" "\<not> returned w" "watcher_done w \<longrightarrow> stream_cut w \<or> stop w"
    using inv k SRuns ended n by (auto simp: exit_proc_inv_def stream_ok_def over_def watch_inv_def)
  consider "\<not> watcher_done w" | "watcher_done w" "\<not> stop w" | "watcher_done w" "stop w" by blast
  then show ?thesis
  proof cases
    case 1
    then show ?thesis using k SRuns s by (intro exI [of _ "PStream k WatcherSeesSession"]) (simp add: stream_work_def)
  next
    case 2
    then show ?thesis using k SRuns s by (intro exI [of _ "PStream k LibraryInterrupted"]) (simp add: stream_work_def)
  next
    case 3
    then show ?thesis using k SRuns s by (intro exI [of _ "PStream k ServeConnReturns"]) (simp add: stream_work_def)
  qed
qed (use n in \<open>simp add: over_def\<close>)

section \<open>Properties\<close>

text \<open>A session is established and the relay opens one stream; then the exit is told to stop.\<close>

definition stream_run :: "dial_env \<Rightarrow> exit_proc_event list" where
  "stream_run env = [PNode (XAttempt env), PNode (XBroker BCheckCtx), PNode XPoll, PNode (XBroker (ACallsAccept 0)), PNode (XBroker (AAccepts 0 7)),
     PNode (XBroker BTakesStream), PBegins 0]"

definition stop_run :: "exit_proc_event list" where
  "stop_run = [PNode (XCancel (Sentinel Canceled)), PNode (XConn ParentDone), PNode (XBroker BSeesCtx), PNode (XBroker BCheckCtx)]"

lemmas exit_proc_simps = exit_proc_start_def exit_node_start_def connector_start_def NewBroker_def Snapshot_def with_conn_def
  broker_closes_def serveConn_def tell_session_def link_ended_def newLink_def set_acc_def closing_links_def upd_link_def
  Session_Close_def leave_session_def watch_start_def exit_result_def

lemma stream_run_state:
  assumes "connect_event sampleAuth env = AuthOk"
  shows "\<exists>x. run_events (exit_proc_step sampleAuth) (exit_proc_start sampleAuth) (stream_run env) = Some x
      \<and> map xid (xstreams x) = [7] \<and> map xlink (xstreams x) = [0] \<and> \<not> over (xstreams x ! 0)"
    and "\<exists>x. run_events (exit_proc_step sampleAuth) (exit_proc_start sampleAuth) (stream_run env @ stop_run) = Some x
      \<and> length (xstreams x) = 1 \<and> \<not> over (xstreams x ! 0) \<and> link_ended (xnode x) (xlink (xstreams x ! 0))
      \<and> exit_result (xnode x) = Some (Sentinel Canceled)"
  using assms by (simp_all add: stream_run_def stop_run_def exit_proc_simps over_def)

text \<open>
  C37. Every stream the broker serves gets exactly one handler goroutine, in order, which runs under
  the context of the link on whose session the stream was accepted; a handler's stream is cut only when
  that link's context has ended (so a stream of one session is never cut because of another), and a
  handler returns only after its watcher.
\<close>

theorem exit_streams_follow_link:
  assumes "timing_ok (aTiming a)" and "MaxBackoff (aTiming a) < 2 ^ 62"
    and "reaches (exit_proc_step a) (exit_proc_start a) x"
  shows "map (\<lambda>s. (xlink s, xid s)) (xstreams x) = served (xbroker (xnode x))
    \<and> mset (served (xbroker (xnode x))) \<subseteq># mset (accepted (xbroker (xnode x)))
    \<and> (\<forall>s \<in> set (xstreams x). xlink s \<in> alink ` set (accs (xbroker (xnode x)))
        \<and> (\<forall>w. xphase s = SRuns w \<longrightarrow> (stream_cut w \<longrightarrow> link_ended (xnode x) (xlink s)) \<and> (returned w \<longrightarrow> watcher_done w)))"
proof -
  note inv = exit_proc_reaches_inv [OF assms]
  then have "inv_streams (xbroker (xnode x))" by (simp add: exit_proc_inv_def exit_inv_def broker_inv_def)
  then have "mset (served (xbroker (xnode x))) \<subseteq># mset (accepted (xbroker (xnode x)))"
    by (simp add: inv_streams_def add.assoc)
  then show ?thesis using inv by (auto simp: exit_proc_inv_def stream_ok_def watch_inv_def)
qed

theorem exit_streams_follow_link_witness:
  "\<exists>x. reaches (exit_proc_step sampleAuth) (exit_proc_start sampleAuth) x \<and> served (xbroker (xnode x)) = [(0, 7)]"
proof -
  obtain env where e: "connect_event sampleAuth env = AuthOk" using sample_connects by blast
  obtain x where x: "run_events (exit_proc_step sampleAuth) (exit_proc_start sampleAuth) (stream_run env) = Some x"
      "map xid (xstreams x) = [7]" "map xlink (xstreams x) = [0]"
    using stream_run_state(1) [OF e] by (elim exE conjE)
  show ?thesis using exit_streams_follow_link [OF sample_timing run_events_reaches [OF x(1)]] run_events_reaches [OF x(1)] x(2,3) by auto
qed

text \<open>
  C38. No handler outlives its session for long: once the link's context has ended, which is final,
  a handler that is not over can always take a step that follows from it and brings its end nearer (it
  begins, its watcher cuts the stream, the SOCKS5 library returns because its connection was cut,
  \<open>ServeConn\<close> joins the watcher), whatever its client and its target do, and no step of the process
  delays it.
\<close>

theorem exit_stream_unwinds:
  assumes "timing_ok (aTiming a)" and "MaxBackoff (aTiming a) < 2 ^ 62"
    and "reaches (exit_proc_step a) (exit_proc_start a) x"
    and "k < length (xstreams x)" and "link_ended (xnode x) (xlink (xstreams x ! k))"
  shows "(over (xstreams x ! k) \<or> (\<exists>ev y.
        ev \<in> {PBegins k, PStream k WatcherSeesSession, PStream k LibraryInterrupted, PStream k ServeConnReturns}
        \<and> exit_proc_step a x ev = Some y \<and> stream_work (xstreams y ! k) < stream_work (xstreams x ! k)))
    \<and> (\<forall>ev y. exit_proc_step a x ev = Some y \<longrightarrow> k < length (xstreams y)
        \<and> link_ended (xnode y) (xlink (xstreams y ! k)) \<and> stream_work (xstreams y ! k) \<le> stream_work (xstreams x ! k))"
proof -
  note inv = exit_proc_reaches_inv [OF assms(1-3)]
  show ?thesis using stream_progress [OF inv assms(4) _ assms(5)] stream_step [OF inv _ assms(4)] assms(5) by metis
qed

theorem exit_stream_unwinds_witness:
  "\<exists>x ev y. reaches (exit_proc_step sampleAuth) (exit_proc_start sampleAuth) x \<and> exit_proc_step sampleAuth x ev = Some y
     \<and> stream_work (xstreams y ! 0) < stream_work (xstreams x ! 0)"
proof -
  obtain env where e: "connect_event sampleAuth env = AuthOk" using sample_connects by blast
  obtain x where x: "run_events (exit_proc_step sampleAuth) (exit_proc_start sampleAuth) (stream_run env @ stop_run) = Some x"
      "length (xstreams x) = 1" "\<not> over (xstreams x ! 0)" "link_ended (xnode x) (xlink (xstreams x ! 0))"
    using stream_run_state(2) [OF e] by (elim exE conjE)
  note r = run_events_reaches [OF x(1)]
  have "0 < length (xstreams x)" using x(2) by simp
  then show ?thesis using exit_stream_unwinds [OF sample_timing r _ x(4)] x(3) r by blast
qed

text \<open>
  \<open>Broker.Run\<close> does not wait for the handlers it started: \<open>runExit\<close> can return while a stream is
  still being served.
\<close>

theorem exit_returns_before_streams:
  "\<exists>x. reaches (exit_proc_step sampleAuth) (exit_proc_start sampleAuth) x
     \<and> exit_result (xnode x) = Some (Sentinel Canceled) \<and> length (xstreams x) = 1 \<and> \<not> over (xstreams x ! 0)"
proof -
  obtain env where e: "connect_event sampleAuth env = AuthOk" using sample_connects by blast
  obtain x where x: "run_events (exit_proc_step sampleAuth) (exit_proc_start sampleAuth) (stream_run env @ stop_run) = Some x"
      "length (xstreams x) = 1" "\<not> over (xstreams x ! 0)" "exit_result (xnode x) = Some (Sentinel Canceled)"
    using stream_run_state(2) [OF e] by (elim exE conjE)
  then show ?thesis using run_events_reaches [OF x(1)] by blast
qed

end
