(* ===== verification/ProxyStreams.thy ===== *)
theory ProxyStreams
  imports Nodes
begin

text \<open>
  The proxy process with the goroutines that serve its browsers: \<open>Listener.serve\<close> and \<open>bridge\<close>
  (\<open>listener.go\<close>) take the connector's link at the time of the request, open a stream on its session,
  hand the request over and copy under the link's context. What \<open>bridge\<close> writes to the stream is the
  subject of Listener; here its goroutine is followed from the accept to its end.
\<close>

section \<open>State and steps\<close>

text \<open>
  A browser's goroutine: in the SOCKS5 negotiation, with the link it took, with a stream open on that
  link, copying, or with its \<open>ServeConn\<close> over.
\<close>

datatype bphase = BNegotiates | BHasLink nat | BHasStream nat | BCopies nat | BOver

record proxy_proc =
  pnode :: proxy_node
  browsers :: "bphase list"

datatype proxy_proc_event =
    QNode proxy_node_event
  | QRefused nat
  | QSnapshot nat
  | QOpened nat bool
  | QForwarded nat bool
  | QCopyEnds nat

definition proxy_proc_start :: "Authenticator \<Rightarrow> string list \<Rightarrow> proxy_proc" where
  "proxy_proc_start a credentials = \<lparr>pnode = proxy_node_start a credentials, browsers = []\<rparr>"

text \<open>The phase a connection starts in: refused ones are over at once.\<close>

definition accepted_phase :: "proxy \<Rightarrow> bphase" where
  "accepted_phase p = (if acquire (lst p) = None then BOver else BNegotiates)"

definition set_browser :: "nat \<Rightarrow> bphase \<Rightarrow> proxy_proc \<Rightarrow> proxy_proc" where
  "set_browser i b x = x\<lparr>browsers := (browsers x)[i := b]\<rparr>"

text \<open>\<open>serve\<close> releases its slot and closes the connection only when \<open>ServeConn\<close> is over.\<close>

fun node_ready :: "proxy_proc \<Rightarrow> proxy_node_event \<Rightarrow> bool" where
  "node_ready x (NListener (PEnds i)) = (i < length (browsers x) \<and> browsers x ! i = BOver)"
| "node_ready x ev = True"

fun proxy_proc_step :: "Authenticator \<Rightarrow> proxy_proc \<Rightarrow> proxy_proc_event \<Rightarrow> proxy_proc option" where
  "proxy_proc_step a x (QNode ev) =
     (if node_ready x ev then
        map_option (\<lambda>n. \<lparr>pnode = n, browsers = browsers x @
            (if ev = NListener PAccept then [accepted_phase (pxlst (pnode x))] else [])\<rparr>)
          (proxy_node_step a (pnode x) ev)
      else None)"
| "proxy_proc_step a x (QRefused i) =
     (if i < length (browsers x) \<and> browsers x ! i = BNegotiates then Some (set_browser i BOver x) else None)"
| "proxy_proc_step a x (QSnapshot i) =
     (if i < length (browsers x) \<and> browsers x ! i = BNegotiates then
        Some (set_browser i (case Snapshot (pxconn (pnode x)) of None \<Rightarrow> BOver | Some l \<Rightarrow> BHasLink l) x)
      else None)"
| "proxy_proc_step a x (QOpened i ok) =
     (if i < length (browsers x) then
        (case browsers x ! i of BHasLink l \<Rightarrow> Some (set_browser i (if ok then BHasStream l else BOver) x) | _ \<Rightarrow> None)
      else None)"
| "proxy_proc_step a x (QForwarded i ok) =
     (if i < length (browsers x) then
        (case browsers x ! i of BHasStream l \<Rightarrow> Some (set_browser i (if ok then BCopies l else BOver) x) | _ \<Rightarrow> None)
      else None)"
| "proxy_proc_step a x (QCopyEnds i) =
     (if i < length (browsers x) then
        (case browsers x ! i of BCopies l \<Rightarrow> Some (set_browser i BOver x) | _ \<Rightarrow> None)
      else None)"

section \<open>Invariant\<close>

fun on_link :: "bphase \<Rightarrow> nat option" where
  "on_link (BHasLink l) = Some l"
| "on_link (BHasStream l) = Some l"
| "on_link (BCopies l) = Some l"
| "on_link _ = None"

definition proxy_proc_inv :: "Authenticator \<Rightarrow> proxy_proc \<Rightarrow> bool" where
  "proxy_proc_inv a x \<longleftrightarrow> connector_inv (aTiming a) (pxconn (pnode x)) \<and> proxy_inv (pxlst (pnode x))
     \<and> length (browsers x) = length (pconns (pxlst (pnode x)))
     \<and> (\<forall>i < length (browsers x). browsers x ! i \<noteq> BOver \<longrightarrow> pconns (pxlst (pnode x)) ! i = PServing)
     \<and> (\<forall>b \<in> set (browsers x). \<forall>l. on_link b = Some l \<longrightarrow> l < length (links (pxconn (pnode x))))"

text \<open>The browsers whose goroutine is still busy.\<close>

definition busy :: "proxy_proc \<Rightarrow> nat" where
  "busy x = length (filter (\<lambda>b. b \<noteq> BOver) (browsers x))"

section \<open>Every step keeps the invariant\<close>

lemma proxy_node_parts:
  assumes "proxy_node_step a n ev = Some m"
  shows "pxconn m = pxconn n \<or> (\<exists>e. connector_step (aTiming a) (pxconn n) e = Some (pxconn m))"
    and "pxlst m = pxlst n \<or> (\<exists>e. proxy_step (pxlst n) e = Some (pxlst m) \<and> (ev = NListener e \<or> (\<exists>err. e = PCancel err)))"
  using assms
  by (cases ev; auto simp del: connector_step.simps proxy_step.simps split: if_splits option.splits proxy_event.splits)+

lemma proxy_pconns:
  assumes "proxy_step p ev = Some q"
  shows "case ev of
      PAccept \<Rightarrow> pconns q = pconns p @ [if acquire (lst p) = None then PRefused else PServing]
    | PEnds i \<Rightarrow> i < length (pconns p) \<and> pconns q = (pconns p)[i := PEnded]
    | _ \<Rightarrow> pconns q = pconns p"
  using assms by (cases ev) (auto split: if_splits option.splits)

lemma older_links_ended:
  assumes "connector_inv tm c" and "l < length (links c)" and "Suc l \<noteq> length (links c)"
  shows "ctx_done (links c ! l)"
proof -
  have "list_all ldone (butlast (links c))"
    using assms(1) list_all_butlast by (auto simp: connector_inv_def pc_ok_def split: cpc.splits option.splits)
  then have "ldone (links c ! l)" using assms(2,3) by (simp add: list_all_length nth_butlast)
  then show ?thesis using assms(1,2) by (auto simp: connector_inv_def link_ok_def list_all_length)
qed

lemma proxy_proc_inv_set:
  assumes "proxy_proc_inv a x" and "i < length (browsers x)" and "browsers x ! i \<noteq> BOver"
    and "\<And>l. on_link b = Some l \<Longrightarrow> l < length (links (pxconn (pnode x)))"
  shows "proxy_proc_inv a (set_browser i b x)"
  using assms set_update_subset_insert [of "browsers x" i b]
  by (auto simp: proxy_proc_inv_def set_browser_def nth_list_update)

lemma proxy_proc_inv_node:
  assumes tm: "timing_ok (aTiming a)" "MaxBackoff (aTiming a) < 2 ^ 62" and inv: "proxy_proc_inv a x"
    and ready: "node_ready x ev" and n: "proxy_node_step a (pnode x) ev = Some n"
  shows "proxy_proc_inv a \<lparr>pnode = n, browsers = browsers x @ (if ev = NListener PAccept then [accepted_phase (pxlst (pnode x))] else [])\<rparr>"
    (is "proxy_proc_inv a \<lparr>pnode = n, browsers = ?bs\<rparr>")
proof -
  note parts = proxy_node_parts [OF n]
  have c: "connector_inv (aTiming a) (pxconn n)" "length (links (pxconn (pnode x))) \<le> length (links (pxconn n))"
    using parts(1) inv connector_inv_step [OF tm] connector_step_extends by (auto simp: proxy_proc_inv_def conn_extends_def)
  have l: "proxy_inv (pxlst n)" using parts(2) inv proxy_ok.event_inv by (auto simp: proxy_proc_inv_def)
  have b: "length ?bs = length (pconns (pxlst n)) \<and> (\<forall>i < length ?bs. ?bs ! i \<noteq> BOver \<longrightarrow> pconns (pxlst n) ! i = PServing)"
  proof (cases "\<exists>e. ev = NListener e")
    case True
    then obtain e where e: "ev = NListener e" "proxy_step (pxlst (pnode x)) e = Some (pxlst n)"
      using n by (auto simp del: proxy_step.simps split: proxy_event.splits)
    then show ?thesis using inv ready proxy_pconns [OF e(2)]
      by (cases e) (auto simp: proxy_proc_inv_def accepted_phase_def nth_append nth_list_update less_Suc_eq split: if_splits)
  next
    case False
    then have "pconns (pxlst n) = pconns (pxlst (pnode x))" using parts(2) proxy_pconns by fastforce
    then show ?thesis using inv False by (auto simp: proxy_proc_inv_def)
  qed
  have "\<forall>b \<in> set ?bs. \<forall>l. on_link b = Some l \<longrightarrow> l < length (links (pxconn n))"
    using inv c(2) by (fastforce simp: proxy_proc_inv_def accepted_phase_def split: if_splits)
  then show ?thesis using b c l by (simp add: proxy_proc_inv_def)
qed

lemma proxy_proc_inv_step:
  assumes tm: "timing_ok (aTiming a)" "MaxBackoff (aTiming a) < 2 ^ 62"
    and inv: "proxy_proc_inv a x" and step: "proxy_proc_step a x ev = Some y"
  shows "proxy_proc_inv a y"
proof -
  have on: "l < length (links (pxconn (pnode x)))" if "i < length (browsers x)" "on_link (browsers x ! i) = Some l" for i l
    using inv that by (auto simp: proxy_proc_inv_def)
  show ?thesis
  proof (cases ev)
    case (QNode e)
    then obtain n where n: "node_ready x e" "proxy_node_step a (pnode x) e = Some n"
        "y = \<lparr>pnode = n, browsers = browsers x @ (if e = NListener PAccept then [accepted_phase (pxlst (pnode x))] else [])\<rparr>"
      using step by (auto simp del: proxy_node_step.simps split: if_splits)
    show ?thesis unfolding n(3) by (rule proxy_proc_inv_node [OF tm inv n(1,2)])
  next
    case (QSnapshot i)
    then have i: "i < length (browsers x)" "browsers x ! i = BNegotiates"
        "y = set_browser i (case Snapshot (pxconn (pnode x)) of None \<Rightarrow> BOver | Some l \<Rightarrow> BHasLink l) x"
      using step by (auto split: if_splits)
    have "l < length (links (pxconn (pnode x)))" if "Snapshot (pxconn (pnode x)) = Some l" for l
    proof -
      have "Suc l = length (links (pxconn (pnode x)))"
        by (rule snapshot_newest [of "aTiming a", OF _ that]) (use inv in \<open>simp add: proxy_proc_inv_def\<close>)
      then show ?thesis by simp
    qed
    then show ?thesis unfolding i(3) using i(1,2) by (intro proxy_proc_inv_set [OF inv]) (auto split: option.splits)
  qed (use step on in \<open>auto intro!: proxy_proc_inv_set [OF inv] split: if_splits bphase.splits\<close>)
qed

lemma proxy_proc_machine:
  assumes "timing_ok (aTiming a)" and "MaxBackoff (aTiming a) < 2 ^ 62"
  shows "machine_invariant (proxy_proc_start a credentials) (proxy_proc_step a) (proxy_proc_inv a)"
proof
  have "connector_inv (aTiming a) (connector_start (aTiming a))"
    by (rule machine_invariant.start_inv [OF connector_machine [OF assms]])
  then show "proxy_proc_inv a (proxy_proc_start a credentials)"
    using proxy_ok.start_inv [of credentials] by (simp add: proxy_proc_inv_def proxy_proc_start_def proxy_node_start_def proxy_start_def)
qed (rule proxy_proc_inv_step [OF assms])

interpretation sample_proxy_proc: machine_invariant
  "proxy_proc_start sampleAuth credentials" "proxy_proc_step sampleAuth" "proxy_proc_inv sampleAuth" for credentials
  by (rule proxy_proc_machine [OF sample_timing])

lemma busy_serving: "proxy_proc_inv a x \<Longrightarrow> busy x \<le> serving (pxlst (pnode x))"
proof -
  assume inv: "proxy_proc_inv a x"
  have "length (filter (\<lambda>b. b \<noteq> BOver) bs) \<le> length (filter (\<lambda>c. c = PServing) cs)"
    if "length bs = length cs" "\<forall>i < length bs. bs ! i \<noteq> BOver \<longrightarrow> cs ! i = PServing" for bs :: "bphase list" and cs
    using that
  proof (induction bs cs rule: list_induct2)
    case (Cons b bs c cs)
    have "b \<noteq> BOver \<longrightarrow> c = PServing" using Cons.prems by auto
    moreover have "\<forall>i < length bs. bs ! i \<noteq> BOver \<longrightarrow> cs ! i = PServing" using Cons.prems by auto
    ultimately show ?case using Cons.IH by auto
  qed simp
  then show ?thesis using inv by (simp add: busy_def serving_def proxy_proc_inv_def)
qed

section \<open>Properties\<close>

text \<open>A session is established, one browser connects and its request is copied; then the proxy is stopped.\<close>

definition copy_run :: "dial_env \<Rightarrow> proxy_proc_event list" where
  "copy_run env = [QNode (NAttempt env), QNode (NListener PAccept), QSnapshot 0, QOpened 0 True, QForwarded 0 True]"

definition end_run :: "proxy_proc_event list" where
  "end_run = [QNode (NCancel (Sentinel Canceled)), QNode (NConn ParentDone), QNode (NListener (PAcceptFails (Sentinel NetErrClosed)))]"

lemmas proxy_proc_simps = proxy_proc_start_def proxy_node_start_def connector_start_def proxy_start_def NewListener_def
  Snapshot_def newLink_def upd_link_def Session_Close_def acquire_def MaxPending_def accepted_phase_def set_browser_def proxy_result_def

lemma copy_run_state:
  assumes "connect_event sampleAuth env = AuthOk"
  shows "\<exists>x. run_events (proxy_proc_step sampleAuth) (proxy_proc_start sampleAuth []) (copy_run env) = Some x \<and> browsers x = [BCopies 0]"
    and "\<exists>x. run_events (proxy_proc_step sampleAuth) (proxy_proc_start sampleAuth []) (copy_run env @ end_run) = Some x
      \<and> browsers x = [BCopies 0] \<and> proxy_result (pnode x) = Some (Sentinel Canceled)"
  using assms by (simp_all add: copy_run_def end_run_def proxy_proc_simps)

text \<open>
  C39. Browsers ride the newest session. At most 256 browsers are busy, each of them holds a slot of
  the listener; and the link a request took is still the connector's newest one, or its context has
  ended, so that its copy is being torn down: no request stays on a session that was replaced.
\<close>

theorem proxy_streams_on_newest_link:
  assumes "timing_ok (aTiming a)" and "MaxBackoff (aTiming a) < 2 ^ 62"
    and "reaches (proxy_proc_step a) (proxy_proc_start a credentials) x"
  shows "busy x \<le> serving (pxlst (pnode x)) \<and> serving (pxlst (pnode x)) \<le> 256
    \<and> (\<forall>b \<in> set (browsers x). \<forall>l. on_link b = Some l \<longrightarrow>
        Suc l = length (links (pxconn (pnode x))) \<or> ctx_done (links (pxconn (pnode x)) ! l))"
proof -
  have inv: "proxy_proc_inv a x" using machine_invariant.reaches_inv [OF proxy_proc_machine [OF assms(1,2)] assms(3)] .
  have "ctx_done (links (pxconn (pnode x)) ! l)" if "l < length (links (pxconn (pnode x)))" "Suc l \<noteq> length (links (pxconn (pnode x)))" for l
    using older_links_ended [of "aTiming a" "pxconn (pnode x)" l] inv that by (auto simp: proxy_proc_inv_def)
  then show ?thesis using inv busy_serving [OF inv] by (auto simp: proxy_proc_inv_def proxy_inv_def MaxPending_def)
qed

theorem proxy_streams_on_newest_link_witness:
  "\<exists>x. reaches (proxy_proc_step sampleAuth) (proxy_proc_start sampleAuth []) x \<and> browsers x = [BCopies 0] \<and> busy x \<le> 256"
proof -
  obtain env where e: "connect_event sampleAuth env = AuthOk" using sample_connects by blast
  obtain x where x: "run_events (proxy_proc_step sampleAuth) (proxy_proc_start sampleAuth []) (copy_run env) = Some x" "browsers x = [BCopies 0]"
    using copy_run_state(1) [OF e] by (elim exE conjE)
  then show ?thesis
    using proxy_streams_on_newest_link [OF sample_timing run_events_reaches [OF x(1)]] run_events_reaches [OF x(1)] by fastforce
qed

text \<open>
  \<open>Listener.Run\<close> does not wait for the browsers it serves: \<open>runProxy\<close> can return while one of them
  is still copying.
\<close>

theorem proxy_returns_before_browsers:
  "\<exists>x. reaches (proxy_proc_step sampleAuth) (proxy_proc_start sampleAuth []) x
     \<and> proxy_result (pnode x) = Some (Sentinel Canceled) \<and> browsers x = [BCopies 0]"
proof -
  obtain env where e: "connect_event sampleAuth env = AuthOk" using sample_connects by blast
  obtain x where x: "run_events (proxy_proc_step sampleAuth) (proxy_proc_start sampleAuth []) (copy_run env @ end_run) = Some x"
      "browsers x = [BCopies 0]" "proxy_result (pnode x) = Some (Sentinel Canceled)"
    using copy_run_state(2) [OF e] by (elim exE conjE)
  then show ?thesis using run_events_reaches [OF x(1)] by blast
qed

end
