(* ===== verification/Path.thy ===== *)
theory Path
  imports Bridge Listener Handler "HOL-Library.Sublist"
begin

text \<open>
  The way of one browser connection through the program: the proxy's copy (\<open>Listener.bridge\<close>), the
  relay's pair (\<open>Bridge.launch\<close>) and the exit's \<open>forward\<close> are three \<open>Duplex\<close> copies in a row. What one
  of them writes to its outbound connection is what the next one reads from its inbound connection,
  and the other way round for the response.
\<close>

section \<open>Chains of copies\<close>

text \<open>The connections each copy is given, inbound first.\<close>

definition path_conns :: "(nconn \<times> nconn) list" where
  "path_conns = [(RequestConn TCPConn, YamuxStream), (countedProxy, countedExit), (PayloadConn YamuxStream, TCPConn)]"

text \<open>The copy that writes what copy \<open>k\<close> reads in a direction, and the connection it writes to.\<close>

definition upstream :: "nat \<Rightarrow> side \<Rightarrow> nat \<Rightarrow> nat option" where
  "upstream n i k = (case i of
      InToOut \<Rightarrow> (if k = 0 then None else Some (k - 1))
    | OutToIn \<Rightarrow> (if Suc k < n then Some (Suc k) else None))"

definition downstream :: "nat \<Rightarrow> side \<Rightarrow> nat \<Rightarrow> nat option" where
  "downstream n i k = (case i of
      InToOut \<Rightarrow> (if Suc k < n then Some (Suc k) else None)
    | OutToIn \<Rightarrow> (if k = 0 then None else Some (k - 1)))"

definition writes_to :: "side \<Rightarrow> nconn \<times> nconn \<Rightarrow> nconn" where
  "writes_to i c = (case i of InToOut \<Rightarrow> snd c | OutToIn \<Rightarrow> fst c)"

definition chain_start :: "nat \<Rightarrow> bytes \<Rightarrow> bytes \<Rightarrow> duplex list" where
  "chain_start n a b =
     map (\<lambda>k. Duplex_start (if k = 0 then a else []) (if Suc k = n then b else [])) [0..<n]"

text \<open>
  A copy between two others sees the end of its input when the one before has closed its write
  side with an effect on the connection, or has closed the connection altogether (a yamux \<open>Close\<close> is
  a FIN in both cases). A connection whose end has been read takes no more data.
\<close>

definition eof_seen :: "(nconn \<times> nconn) list \<Rightarrow> duplex list \<Rightarrow> nat \<Rightarrow> side \<Rightarrow> bool" where
  "eof_seen cs hs k i = (case upstream (length hs) i k of
      None \<Rightarrow> True
    | Some j \<Rightarrow> (fin (get_dir i (hs ! j)) \<and> CloseWrite (writes_to i (cs ! j)) \<noteq> NoEffect) \<or> forced (hs ! j))"

definition accepts_data :: "duplex list \<Rightarrow> nat \<Rightarrow> side \<Rightarrow> bool" where
  "accepts_data hs k i = (case downstream (length hs) i k of
      None \<Rightarrow> True
    | Some j \<Rightarrow> \<not> fin (get_dir i (hs ! j)))"

text \<open>
  A connection that was closed altogether by the opposite direction's \<open>CloseWrite\<close> can no longer be
  read (\<open>requestConn\<close> closes the browser's connection when the response ends).
\<close>

definition other :: "side \<Rightarrow> side" where
  "other i = (case i of InToOut \<Rightarrow> OutToIn | OutToIn \<Rightarrow> InToOut)"

definition readable :: "(nconn \<times> nconn) list \<Rightarrow> duplex list \<Rightarrow> nat \<Rightarrow> side \<Rightarrow> bool" where
  "readable cs hs k i \<longleftrightarrow>
     \<not> (fin (get_dir (other i) (hs ! k)) \<and> CloseWrite (writes_to (other i) (cs ! k)) = ClosesAll)"

fun chain_enabled :: "(nconn \<times> nconn) list \<Rightarrow> duplex list \<Rightarrow> nat \<Rightarrow> devent \<Rightarrow> bool" where
  "chain_enabled cs hs k (Copy i n) = (accepts_data hs k i \<and> readable cs hs k i)"
| "chain_enabled cs hs k (CopyFail i n err) = (n = 0 \<or> accepts_data hs k i)"
| "chain_enabled cs hs k (EofClose i r) = (eof_seen cs hs k i \<and> readable cs hs k i)"
| "chain_enabled cs hs k ev = True"

text \<open>What a copy wrote in one step becomes readable for the next one.\<close>

definition feed :: "side \<Rightarrow> bytes \<Rightarrow> duplex \<Rightarrow> duplex" where
  "feed i bs s = set_dir i ((get_dir i s)\<lparr>src := src (get_dir i s) @ bs\<rparr>) s"

definition pass_on :: "nat \<Rightarrow> side \<Rightarrow> duplex \<Rightarrow> duplex list \<Rightarrow> duplex list" where
  "pass_on k i old hs = (case downstream (length hs) i k of
      None \<Rightarrow> hs
    | Some j \<Rightarrow> hs[j := feed i (drop (length (got (get_dir i old))) (got (get_dir i (hs ! k)))) (hs ! j)])"

fun chain_step :: "(nconn \<times> nconn) list \<Rightarrow> duplex list \<Rightarrow> nat \<times> devent \<Rightarrow> duplex list option" where
  "chain_step cs hs (k, ev) =
     (if k < length hs \<and> chain_enabled cs hs k ev then
        (case duplex_step (hs ! k) ev of
           None \<Rightarrow> None
         | Some d \<Rightarrow> Some (pass_on k OutToIn (hs ! k) (pass_on k InToOut (hs ! k) (hs[k := d]))))
      else None)"

abbreviation path_step :: "duplex list \<Rightarrow> nat \<times> devent \<Rightarrow> duplex list option" where
  "path_step \<equiv> chain_step path_conns"

abbreviation path_start :: "bytes \<Rightarrow> bytes \<Rightarrow> duplex list" where
  "path_start a b \<equiv> chain_start (length path_conns) a b"

section \<open>Invariant\<close>

text \<open>What one step of a copy wrote.\<close>

definition written :: "side \<Rightarrow> duplex \<Rightarrow> duplex \<Rightarrow> bytes" where
  "written i s t = drop (length (got (get_dir i s))) (got (get_dir i t))"

text \<open>What copy \<open>k\<close> has been given to read: all of the endpoint's data, or what the copy before wrote.\<close>

definition given :: "bytes \<Rightarrow> bytes \<Rightarrow> duplex list \<Rightarrow> side \<Rightarrow> nat \<Rightarrow> bytes" where
  "given a b hs i k = (case upstream (length hs) i k of
      None \<Rightarrow> (case i of InToOut \<Rightarrow> a | OutToIn \<Rightarrow> b)
    | Some j \<Rightarrow> got (get_dir i (hs ! j)))"

text \<open>The copies in the order in which a direction's data passes them.\<close>

definition at :: "nat \<Rightarrow> side \<Rightarrow> nat \<Rightarrow> nat" where
  "at n i p = (case i of InToOut \<Rightarrow> p | OutToIn \<Rightarrow> n - Suc p)"

definition whole :: "bytes \<Rightarrow> bytes \<Rightarrow> side \<Rightarrow> bytes" where
  "whole a b i = (case i of InToOut \<Rightarrow> a | OutToIn \<Rightarrow> b)"

text \<open>What the copy before has written.\<close>

definition before :: "bytes \<Rightarrow> bytes \<Rightarrow> nat \<Rightarrow> duplex list \<Rightarrow> side \<Rightarrow> nat \<Rightarrow> bytes" where
  "before a b n hs i p = (case p of 0 \<Rightarrow> whole a b i | Suc q \<Rightarrow> got (get_dir i (hs ! at n i q)))"

definition chain_inv :: "(nconn \<times> nconn) list \<Rightarrow> nat \<Rightarrow> bytes \<Rightarrow> bytes \<Rightarrow> duplex list \<Rightarrow> bool" where
  "chain_inv cs n a b hs \<longleftrightarrow> length hs = n
     \<and> (\<forall>k < n. duplex_inv (given a b hs InToOut k) (given a b hs OutToIn k) (hs ! k))
     \<and> (\<forall>k < n. \<forall>i. fin (get_dir i (hs ! k)) \<longrightarrow> eof_seen cs hs k i)"

text \<open>A copy that has met no failure, and a step that is none.\<close>

definition unfailed :: "duplex \<Rightarrow> bool" where
  "unfailed s \<longleftrightarrow> (\<forall>i. wres (get_dir i s) \<in> {None, Some None}) \<and> phase s \<in> {Looping, Draining None, Returned None}"

fun clean :: "devent \<Rightarrow> bool" where
  "clean (Copy i n) = True"
| "clean (EofClose i r) = (r = None)"
| "clean Recv = True"
| "clean Return = True"
| "clean ev = False"

text \<open>The work left: bytes by the number of copies they still have to pass, and the ends of the copies.\<close>

definition weight :: "nat \<Rightarrow> side \<Rightarrow> nat \<Rightarrow> nat" where
  "weight n i k = (case i of InToOut \<Rightarrow> n - k | OutToIn \<Rightarrow> Suc k)"

definition end_work :: "duplex \<Rightarrow> nat" where
  "end_work s = (if wres (d_in s) = None then 1 else 0) + (if wres (d_out s) = None then 1 else 0) + remaining s
     + (case phase s of Looping \<Rightarrow> 2 | Draining _ \<Rightarrow> 1 | Returned _ \<Rightarrow> 0)"

definition hop_work :: "nat \<Rightarrow> nat \<Rightarrow> duplex \<Rightarrow> nat" where
  "hop_work n k s = length (src (d_in s)) * weight n InToOut k + length (src (d_out s)) * weight n OutToIn k + end_work s"

definition chain_work :: "duplex list \<Rightarrow> nat" where
  "chain_work hs = (\<Sum>k < length hs. hop_work (length hs) k (hs ! k))"

section \<open>One step\<close>

lemma side_cases: "(\<forall>i. P i) \<longleftrightarrow> P InToOut \<and> P OutToIn"
  by (metis side.exhaust)

lemma updown: "upstream n i m = Some k \<and> m < n \<longleftrightarrow> downstream n i k = Some m \<and> k < n"
  by (cases i) (auto simp: upstream_def downstream_def)

lemma downstream_less: "downstream n i k = Some m \<Longrightarrow> k < n \<Longrightarrow> m < n \<and> m \<noteq> k"
  by (cases i) (auto simp: downstream_def split: if_splits)

lemma upstream_less: "upstream n i m = Some k \<Longrightarrow> m < n \<Longrightarrow> k < n \<and> k \<noteq> m"
  by (cases i) (auto simp: upstream_def split: if_splits)

lemma get_set_dir_iff: "get_dir i (set_dir j d s) = (if i = j then d else get_dir i s)"
  by (cases i; cases j) (simp_all add: get_dir_def set_dir_def)

lemma set_dir_ctl [simp]:
  "results (set_dir i d s) = results s" "recvd (set_dir i d s) = recvd s" "remaining (set_dir i d s) = remaining s"
  "timer (set_dir i d s) = timer s" "forced (set_dir i d s) = forced s" "phase (set_dir i d s) = phase s"
  by (cases i; simp add: set_dir_def)+

text \<open>A step of one copy only ever adds to what was written, and only a copying step does.\<close>

lemma loop_step_dirs:
  assumes "duplex_step s ev = Some t" and "ev \<in> {Recv, TimerFires, JoinRecv, Return} \<or> (\<exists>e. ev = CtxDone e)"
  shows "d_in t = d_in s" and "d_out t = d_out s" and "forced s \<longrightarrow> forced t"
  using assms by (auto simp: Let_def leave_def split: if_splits list.splits option.splits dphase.splits)

text \<open>The result of a worker's step, by the direction it belongs to.\<close>

lemma worker_step:
  "duplex_step s (Copy j n) = Some t \<Longrightarrow> t = set_dir j (move n (get_dir j s)) s"
  "duplex_step s (EofClose j r) = Some t \<Longrightarrow> t = send_result j r (set_dir j ((get_dir j s)\<lparr>fin := True\<rparr>) s)"
  "duplex_step s (CopyFail j n e) = Some t \<Longrightarrow> t = send_result j (Some e) (set_dir j (move n (get_dir j s)) s)"
  "duplex_step s (Interrupted j e) = Some t \<Longrightarrow> t = send_result j (Some e) s"
  by (auto split: if_splits)

lemma get_dir_results [simp]: "get_dir i (s\<lparr>results := r\<rparr>) = get_dir i s"
  by (cases i) (simp_all add: get_dir_def)

lemma send_result_sel:
  "got (get_dir i (send_result j r s)) = got (get_dir i s)" "fin (get_dir i (send_result j r s)) = fin (get_dir i s)"
  "src (get_dir i (send_result j r s)) = src (get_dir i s)" "forced (send_result j r s) = forced s"
  by (simp_all add: send_result_def get_set_dir_iff)

lemmas worker_simps = send_result_sel get_set_dir_iff move_def

lemma step_writes:
  assumes "duplex_step s ev = Some t"
  obtains bs where "got (get_dir i t) = got (get_dir i s) @ bs"
    "bs \<noteq> [] \<Longrightarrow> (\<exists>n. ev = Copy i n) \<or> (\<exists>n err. ev = CopyFail i n err \<and> n \<noteq> 0)"
proof -
  have main: "get_dir i t = get_dir i s" if "ev \<in> {Recv, TimerFires, JoinRecv, Return} \<or> (\<exists>e. ev = CtxDone e)"
    using loop_step_dirs(1,2) [OF assms that] by (cases i) (simp_all add: get_dir_def)
  have "\<exists>bs. got (get_dir i t) = got (get_dir i s) @ bs \<and>
      (bs \<noteq> [] \<longrightarrow> (\<exists>n. ev = Copy i n) \<or> (\<exists>n err. ev = CopyFail i n err \<and> n \<noteq> 0))"
    using assms main by (cases ev) (auto simp: worker_simps simp del: duplex_step.simps dest!: worker_step)
  then show ?thesis using that by blast
qed

lemma step_keeps:
  assumes "duplex_step s ev = Some t"
  shows "forced s \<Longrightarrow> forced t" and "fin (get_dir i s) \<Longrightarrow> fin (get_dir i t)"
    and "fin (get_dir i t) \<Longrightarrow> fin (get_dir i s) \<or> (\<exists>r. ev = EofClose i r)"
proof -
  have main: "get_dir i t = get_dir i s \<and> (forced s \<longrightarrow> forced t)"
    if "ev \<in> {Recv, TimerFires, JoinRecv, Return} \<or> (\<exists>e. ev = CtxDone e)"
    using loop_step_dirs [OF assms that] by (cases i) (simp_all add: get_dir_def)
  show "forced s \<Longrightarrow> forced t" and "fin (get_dir i s) \<Longrightarrow> fin (get_dir i t)"
    and "fin (get_dir i t) \<Longrightarrow> fin (get_dir i s) \<or> (\<exists>r. ev = EofClose i r)"
    using assms main
    by (cases ev; auto simp: worker_simps simp del: duplex_step.simps split: if_splits dest!: worker_step)+
qed

lemma pass_on_length [simp]: "length (pass_on k i old hs) = length hs"
  by (simp add: pass_on_def split: option.splits)

lemma pass_on_nth:
  "m < length hs \<Longrightarrow> pass_on k i old hs ! m =
     (if downstream (length hs) i k = Some m then feed i (written i old (hs ! k)) (hs ! m) else hs ! m)"
  by (auto simp: pass_on_def written_def nth_list_update split: option.splits)

lemma downstream_opposite: "downstream n InToOut k = Some m \<Longrightarrow> downstream n OutToIn k \<noteq> Some m"
  by (auto simp: downstream_def split: if_splits)

lemma chain_step_cases:
  assumes "chain_step cs hs (k, ev) = Some hs'"
  obtains d where "k < length hs" "chain_enabled cs hs k ev" "duplex_step (hs ! k) ev = Some d" "length hs' = length hs"
    "hs' ! k = d"
    "\<And>m. m < length hs \<Longrightarrow> m \<noteq> k \<Longrightarrow> hs' ! m =
       (if downstream (length hs) InToOut k = Some m then feed InToOut (written InToOut (hs ! k) d) (hs ! m)
        else if downstream (length hs) OutToIn k = Some m then feed OutToIn (written OutToIn (hs ! k) d) (hs ! m)
        else hs ! m)"
proof -
  obtain d where d: "k < length hs" "chain_enabled cs hs k ev" "duplex_step (hs ! k) ev = Some d"
      "hs' = pass_on k OutToIn (hs ! k) (pass_on k InToOut (hs ! k) (hs[k := d]))"
    using assms by (auto simp del: duplex_step.simps split: if_splits option.splits)
  have self: "downstream (length hs) i k \<noteq> Some k" for i using d(1) downstream_less by blast
  then have k: "pass_on k i (hs ! k) xs ! k = xs ! k" if "length xs = length hs" for i xs
    using that d(1) by (simp add: pass_on_nth)
  show ?thesis
  proof (rule that [OF d(1-3)])
    show "hs' ! k = d" using d(1) by (simp add: d(4) k)
    show "hs' ! m = (if downstream (length hs) InToOut k = Some m then feed InToOut (written InToOut (hs ! k) d) (hs ! m)
        else if downstream (length hs) OutToIn k = Some m then feed OutToIn (written OutToIn (hs ! k) d) (hs ! m)
        else hs ! m)" if "m < length hs" "m \<noteq> k" for m
      using that d(1) downstream_opposite [of "length hs" k m] by (simp add: d(4) pass_on_nth k self)
  qed (simp add: d(4))
qed

declare chain_step.simps [simp del]

lemma chain_step_length: "chain_step cs hs (k, ev) = Some hs' \<Longrightarrow> length hs' = length hs \<and> k < length hs"
  by (auto elim: chain_step_cases)

lemma feed_nil [simp]: "feed i [] s = s"
  by (cases i) (simp_all add: feed_def set_dir_def get_dir_def)

lemma feed_sel [simp]:
  "got (get_dir j (feed i bs s)) = got (get_dir j s)" "fin (get_dir j (feed i bs s)) = fin (get_dir j s)"
  "forced (feed i bs s) = forced s" "wres (get_dir j (feed i bs s)) = wres (get_dir j s)" "phase (feed i bs s) = phase s"
  by (simp_all add: feed_def get_set_dir_iff)

lemma feed_inv:
  assumes "duplex_inv a b s" and "fin (get_dir i s) \<Longrightarrow> bs = []"
  shows "duplex_inv (case i of InToOut \<Rightarrow> a @ bs | OutToIn \<Rightarrow> a) (case i of InToOut \<Rightarrow> b | OutToIn \<Rightarrow> b @ bs) (feed i bs s)"
  using assms
  by (cases i) (auto simp: feed_def set_dir_def get_dir_def duplex_inv_def dir_ok_def outcomes_def)

section \<open>The invariant is kept\<close>

lemma written_append: "duplex_step s ev = Some t \<Longrightarrow> got (get_dir i t) = got (get_dir i s) @ written i s t"
  by (rule step_writes [of s ev t i]) (auto simp: written_def)

lemma written_cases:
  "duplex_step s ev = Some t \<Longrightarrow> written i s t \<noteq> [] \<Longrightarrow> (\<exists>n. ev = Copy i n) \<or> (\<exists>n err. ev = CopyFail i n err \<and> n \<noteq> 0)"
  by (rule step_writes [of s ev t i]) (auto simp: written_def)

lemma written_enabled:
  assumes "duplex_step (hs ! k) ev = Some d" and "chain_enabled cs hs k ev" and "written i (hs ! k) d \<noteq> []"
  shows "accepts_data hs k i"
  using written_cases [OF assms(1,3)] assms(2) by auto

text \<open>What every copy has written and been given after a step.\<close>

lemma step_got:
  assumes "chain_step cs hs (k, ev) = Some hs'" and "m < length hs"
  shows "got (get_dir i (hs' ! m)) = got (get_dir i (hs ! m)) @ (if m = k then written i (hs ! k) (hs' ! k) else [])"
  using assms(1)
proof (cases rule: chain_step_cases)
  case (1 d)
  then show ?thesis using assms(2) written_append [OF 1(3), of i] by (cases "m = k") auto
qed

lemma step_given:
  assumes "chain_step cs hs (k, ev) = Some hs'" and "m < length hs"
  shows "given a b hs' i m = given a b hs i m @ (if downstream (length hs) i k = Some m then written i (hs ! k) (hs' ! k) else [])"
proof (cases "upstream (length hs) i m")
  case None
  then show ?thesis using assms(2) updown [of "length hs" i m k] chain_step_length [OF assms(1)] by (auto simp: given_def)
next
  case (Some j)
  have "length hs' = length hs" "k < length hs" using chain_step_length [OF assms(1)] by simp_all
  moreover have "j < length hs" using upstream_less [OF Some assms(2)] by simp
  moreover have "downstream (length hs) i k = Some m \<and> k < length hs \<longleftrightarrow> j = k \<and> k < length hs"
    using updown [of "length hs" i m k] Some assms(2) by auto
  ultimately show ?thesis using Some step_got [OF assms(1), of j i] by (auto simp: given_def)
qed

lemma eof_seen_mono:
  assumes "chain_step cs hs (k, ev) = Some hs'" and "m < length hs" and "eof_seen cs hs m i"
  shows "eof_seen cs hs' m i"
proof (cases "upstream (length hs) i m")
  case None
  then show ?thesis using chain_step_length [OF assms(1)] by (simp add: eof_seen_def)
next
  case (Some j)
  then have j: "j < length hs" using upstream_less assms(2) by blast
  from assms(1) show ?thesis
  proof (cases rule: chain_step_cases)
    case (1 d)
    have "forced (hs ! j) \<Longrightarrow> forced (hs' ! j)" "fin (get_dir i (hs ! j)) \<Longrightarrow> fin (get_dir i (hs' ! j))"
      using 1(5) 1(6) [OF j] step_keeps(1,2) [OF 1(3)] by (cases "j = k"; auto)+
    then show ?thesis using assms(3) Some 1(4) by (auto simp: eof_seen_def)
  qed
qed

lemma step_fin:
  assumes "chain_step cs hs (k, ev) = Some hs'" and "m < length hs" and "fin (get_dir i (hs' ! m))"
  shows "fin (get_dir i (hs ! m)) \<or> eof_seen cs hs m i"
  using assms(1)
proof (cases rule: chain_step_cases)
  case (1 d)
  show ?thesis
  proof (cases "m = k")
    case True
    then show ?thesis using assms(3) 1(2,5) step_keeps(3) [OF 1(3), of i] by auto
  next
    case False
    then show ?thesis using assms(3) 1(6) [OF assms(2)] by (auto split: if_splits)
  qed
qed

lemma step_inv_at:
  assumes step: "chain_step cs hs (k, ev) = Some hs'" and m: "m < length hs"
    and inv: "\<forall>j < length hs. duplex_inv (given a b hs InToOut j) (given a b hs OutToIn j) (hs ! j)"
  shows "duplex_inv (given a b hs' InToOut m) (given a b hs' OutToIn m) (hs' ! m)"
  using step
proof (cases rule: chain_step_cases)
  case (1 d)
  note g = step_given [OF step m, of a b]
  have w: "fin (get_dir i (hs ! m)) \<Longrightarrow> written i (hs ! k) d = []" if "downstream (length hs) i k = Some m" for i
    using written_enabled [OF 1(3,2), of i] that by (auto simp: accepts_data_def)
  show ?thesis
  proof (cases "m = k")
    case True
    then have "downstream (length hs) i k \<noteq> Some m" for i using downstream_less 1(1) by blast
    then show ?thesis using g True 1(5) inv m duplex_inv_step [OF _ 1(3)] by simp
  next
    case False
    then show ?thesis
      using g 1(5) 1(6) [OF m False] inv m downstream_opposite [of "length hs" k m]
        feed_inv [of _ _ "hs ! m" InToOut, OF _ w] feed_inv [of _ _ "hs ! m" OutToIn, OF _ w]
      by (auto split: if_splits)
  qed
qed

lemma chain_inv_step:
  assumes "chain_inv cs n a b hs" and "chain_step cs hs e = Some hs'"
  shows "chain_inv cs n a b hs'"
proof -
  obtain k ev where e: "chain_step cs hs (k, ev) = Some hs'" using assms(2) by (cases e) auto
  have len: "length hs' = length hs" using chain_step_length [OF e] by simp
  have "eof_seen cs hs' m i" if "m < n" "fin (get_dir i (hs' ! m))" for m i
    using assms(1) that step_fin [OF e, of m i] eof_seen_mono [OF e, of m i] by (auto simp: chain_inv_def)
  then show ?thesis using assms(1) len step_inv_at [OF e, of _ a b] by (auto simp: chain_inv_def)
qed

lemma chain_inv_start: "chain_inv cs n a b (chain_start n a b)"
proof -
  have "given a b (chain_start n a b) InToOut k = (if k = 0 then a else [])"
    "given a b (chain_start n a b) OutToIn k = (if Suc k = n then b else [])" if "k < n" for k
    using that by (auto simp: given_def upstream_def chain_start_def Duplex_start_def new_dir_def get_dir_def)
  moreover have "\<not> fin (get_dir i (chain_start n a b ! k))" if "k < n" for i k
    using that by (cases i) (auto simp: chain_start_def Duplex_start_def new_dir_def get_dir_def)
  ultimately show ?thesis using duplex_inv_start by (auto simp: chain_inv_def chain_start_def)
qed

interpretation chain_ok: machine_invariant "chain_start n a b" "chain_step cs" "chain_inv cs n a b" for n a b cs
  by unfold_locales (auto intro: chain_inv_start chain_inv_step)

section \<open>Along a direction\<close>

lemma at_less: "p < n \<Longrightarrow> at n i p < n"
  by (cases i) (simp_all add: at_def)

lemma upstream_at:
  "0 < n \<Longrightarrow> upstream n i (at n i 0) = None" "Suc p < n \<Longrightarrow> upstream n i (at n i (Suc p)) = Some (at n i p)"
  by (cases i; auto simp: upstream_def at_def)+

lemma chain_dir_ok:
  assumes "chain_inv cs n a b hs" and "k < n"
  shows "dir_ok (given a b hs i k) (get_dir i (hs ! k))"
  using assms by (cases i) (auto simp: chain_inv_def duplex_inv_def get_dir_def)

lemma given_at:
  assumes "length hs = n"
  shows "0 < n \<Longrightarrow> given a b hs i (at n i 0) = whole a b i"
    and "Suc p < n \<Longrightarrow> given a b hs i (at n i (Suc p)) = got (get_dir i (hs ! at n i p))"
  using assms upstream_at(1) [of n i] upstream_at(2) [of p n i] by (auto simp: given_def whole_def)

lemma dir_at:
  assumes "chain_inv cs n a b hs" and "p < n"
  shows "got (get_dir i (hs ! at n i p)) @ src (get_dir i (hs ! at n i p)) = before a b n hs i p"
    and "fin (get_dir i (hs ! at n i p)) \<or> wres (get_dir i (hs ! at n i p)) = Some None \<Longrightarrow> src (get_dir i (hs ! at n i p)) = []"
proof -
  have len: "length hs = n" using assms(1) by (simp add: chain_inv_def)
  have "given a b hs i (at n i p) = before a b n hs i p"
    using assms(2) given_at(1) [OF len] given_at(2) [OF len] by (cases p) (simp_all add: before_def)
  then show "got (get_dir i (hs ! at n i p)) @ src (get_dir i (hs ! at n i p)) = before a b n hs i p"
    "fin (get_dir i (hs ! at n i p)) \<or> wres (get_dir i (hs ! at n i p)) = Some None \<Longrightarrow> src (get_dir i (hs ! at n i p)) = []"
    using chain_dir_ok [OF assms(1) at_less [OF assms(2)], of i i] by (auto simp: dir_ok_def)
qed

lemma got_prefix:
  assumes "chain_inv cs n a b hs" and "p < n"
  shows "prefix (got (get_dir i (hs ! at n i p))) (whole a b i)"
  using assms(2)
proof (induction p)
  case 0
  then show ?case using dir_at(1) [OF assms(1) 0, of i] by (simp add: before_def prefix_def) metis
next
  case (Suc p)
  then have "prefix (got (get_dir i (hs ! at n i (Suc p)))) (got (get_dir i (hs ! at n i p)))"
    using dir_at(1) [OF assms(1) Suc(2), of i] by (simp add: before_def prefix_def) metis
  then show ?case using Suc by (auto intro: prefix_order.trans)
qed

lemma fin_complete:
  assumes "chain_inv cs n a b hs" and "p < n" and "fin (get_dir i (hs ! at n i p))" and "\<forall>q < p. \<not> forced (hs ! at n i q)"
  shows "got (get_dir i (hs ! at n i p)) = whole a b i"
  using assms(2-)
proof (induction p)
  case 0
  then show ?case using dir_at [OF assms(1) 0(1), of i] by (simp add: before_def)
next
  case (Suc p)
  have len: "length hs = n" using assms(1) by (simp add: chain_inv_def)
  have "eof_seen cs hs (at n i (Suc p)) i" using assms(1) Suc.prems at_less [of "Suc p" n i] by (auto simp: chain_inv_def)
  then have "fin (get_dir i (hs ! at n i p))" using Suc.prems len upstream_at(2) [of p n i] by (auto simp: eof_seen_def)
  then show ?case using Suc dir_at [OF assms(1) Suc.prems(1), of i] by (simp add: before_def)
qed

lemma returned_clean:
  assumes "duplex_inv x y s" and "phase s = Returned None"
  shows "wres (get_dir i s) = Some None"
proof -
  have r: "remaining s = 0" "set (recvd s) \<subseteq> {None}" using assms by (simp_all add: duplex_inv_def ctl_ok_def)
  obtain u v where uv: "wres (d_in s) = Some u" "wres (d_out s) = Some v" "mset (recvd s) = {#u, v#}"
    using wres_both [OF assms(1) r(1)] by auto
  have "set (recvd s) = {u, v}" by (metis set_mset_mset set_mset_add_mset_insert set_mset_empty uv(3))
  then show ?thesis using r(2) uv by (cases i) (auto simp: get_dir_def)
qed

lemma returned_complete:
  assumes inv: "chain_inv cs n a b hs" and "\<forall>k < n. phase (hs ! k) = Returned None" and "p < n"
  shows "got (get_dir i (hs ! at n i p)) = whole a b i"
  using assms(3)
proof (induction p)
  case 0
  have "wres (get_dir i (hs ! at n i 0)) = Some None"
    using inv assms(2) at_less [OF 0, of i] returned_clean by (auto simp: chain_inv_def)
  then show ?case using dir_at [OF inv 0, of i] by (simp add: before_def)
next
  case (Suc p)
  have "wres (get_dir i (hs ! at n i (Suc p))) = Some None"
    using inv assms(2) at_less [OF Suc(2), of i] returned_clean by (auto simp: chain_inv_def)
  then show ?case using Suc dir_at [OF inv Suc(2), of i] by (simp add: before_def)
qed

section \<open>Progress\<close>


lemma sum_less_one:
  fixes f g :: "nat \<Rightarrow> nat"
  assumes "k < n" and "f k < g k" and "\<And>m. m < n \<Longrightarrow> m \<noteq> k \<Longrightarrow> f m = g m"
  shows "(\<Sum>m < n. f m) < (\<Sum>m < n. g m)"
proof -
  have "(\<Sum>m \<in> {..<n} - {k}. f m) = (\<Sum>m \<in> {..<n} - {k}. g m)" using assms(3) by (intro sum.cong) auto
  then show ?thesis using assms(1,2) by (simp add: sum.remove [of "{..<n}" k])
qed

lemma sum_less_two:
  fixes f g :: "nat \<Rightarrow> nat"
  assumes "k < n" and "j < n" and "j \<noteq> k" and "f k + f j < g k + g j"
    and "\<And>m. m < n \<Longrightarrow> m \<noteq> k \<Longrightarrow> m \<noteq> j \<Longrightarrow> f m = g m"
  shows "(\<Sum>m < n. f m) < (\<Sum>m < n. g m)"
proof -
  have split: "(\<Sum>m < n. h m) = h k + (h j + (\<Sum>m \<in> {..<n} - {k} - {j}. h m))" for h :: "nat \<Rightarrow> nat"
    using assms(1-3) by (simp add: sum.remove [of "{..<n}" k] sum.remove [of "{..<n} - {k}" j])
  have "(\<Sum>m \<in> {..<n} - {k} - {j}. f m) = (\<Sum>m \<in> {..<n} - {k} - {j}. g m)"
    using assms(5) by (intro sum.cong) auto
  then show ?thesis using assms(4) by (simp add: split)
qed

lemma clean_end_work:
  assumes "duplex_step s ev = Some t" and "clean ev" and "\<And>i n. ev \<noteq> Copy i n"
  shows "end_work t < end_work s" and "src (get_dir i t) = src (get_dir i s)"
proof -
  consider j where "ev = EofClose j None" | "ev = Recv" | "ev = Return" using assms(2,3) by (cases ev) auto
  then have "end_work t < end_work s \<and> src (get_dir i t) = src (get_dir i s)"
  proof cases
    case (1 j)
    then have "wres (get_dir j s) = None" using assms(1) by (auto split: if_splits)
    then show ?thesis using assms(1) unfolding 1
      by (cases j) (auto simp: end_work_def set_dir_def get_dir_def send_result_def split: if_splits side.splits)
  next
    case 2
    then show ?thesis using assms(1) loop_step_dirs(1,2) [OF assms(1)]
      by (auto simp: end_work_def get_dir_def Let_def leave_def split: if_splits list.splits option.splits side.splits)
  next
    case 3
    then show ?thesis using assms(1)
      by (auto simp: end_work_def get_dir_def split: if_splits dphase.splits side.splits)
  qed
  then show "end_work t < end_work s" "src (get_dir i t) = src (get_dir i s)" by auto
qed

lemma copy_src:
  assumes "duplex_step s (Copy i n) = Some t"
  shows "length (src (get_dir j s)) = length (src (get_dir j t)) + (if j = i then n else 0)" and "0 < n"
    and "end_work t = end_work s" and "length (written j s t) = (if j = i then n else 0)"
  using assms by (cases i; cases j; auto simp: step_simps end_work_def written_def split: if_splits)+

lemma hop_work_alt:
  "hop_work n k s = length (src (get_dir i s)) * weight n i k + length (src (get_dir (other i) s)) * weight n (other i) k + end_work s"
  by (cases i) (simp_all add: hop_work_def get_dir_def other_def)

lemma hop_work_feed:
  "hop_work n j (feed i bs s) = hop_work n j s + length bs * weight n i j"
  by (cases i) (simp_all add: hop_work_def feed_def set_dir_def get_dir_def end_work_def algebra_simps)

lemma weight_downstream: "downstream n i k = Some j \<Longrightarrow> k < n \<Longrightarrow> weight n i k = Suc (weight n i j)"
  by (cases i) (auto simp: downstream_def weight_def split: if_splits)

lemma weight_pos: "k < n \<Longrightarrow> 0 < weight n i k"
  by (cases i) (simp_all add: weight_def)

lemma other_neq: "other i \<noteq> i" "other (other i) = i" "j \<noteq> i \<longleftrightarrow> j = other i"
  by (cases i; cases j; simp add: other_def)+

text \<open>Every step that is no failure reduces the work.\<close>

lemma clean_step_work:
  assumes step: "chain_step cs hs (k, ev) = Some hs'" and "clean ev"
  shows "chain_work hs' < chain_work hs"
  using step
proof (cases rule: chain_step_cases)
  case (1 d)
  let ?n = "length hs"
  show ?thesis
  proof (cases "\<exists>i m. ev = Copy i m")
    case False
    then have w: "written i (hs ! k) d = []" for i
      using written_cases [OF 1(3), of i] assms(2) by (cases "written i (hs ! k) d = []") auto
    have "hop_work ?n k d < hop_work ?n k (hs ! k)"
      using clean_end_work [OF 1(3) assms(2)] False by (simp add: hop_work_alt [of _ _ _ InToOut])
    moreover have "hs' ! m = hs ! m" if "m < ?n" "m \<noteq> k" for m using 1(6) [OF that] w by simp
    ultimately show ?thesis unfolding chain_work_def 1(4) using 1(1,5) by (intro sum_less_one [of k]) simp_all
  next
    case True
    then obtain i m where ev: "ev = Copy i m" by blast
    note c = copy_src [OF 1(3) [unfolded ev]]
    have o: "written (other i) (hs ! k) d = []" using c(4) [of "other i"] other_neq(1) [of i] by auto
    have dk: "hop_work ?n k (hs ! k) = hop_work ?n k d + m * weight ?n i k"
      using c(1) [of i] c(1) [of "other i"] c(3) other_neq(1) [of i] by (simp add: hop_work_alt [of _ _ _ i] algebra_simps)
    have rest: "hs' ! j = (if downstream ?n i k = Some j then feed i (written i (hs ! k) d) (hs ! j) else hs ! j)"
      if "j < ?n" "j \<noteq> k" for j
      using 1(6) [OF that] o downstream_opposite [of ?n k j] by (cases i) (auto simp: other_def)
    show ?thesis
    proof (cases "downstream ?n i k")
      case None
      then have "hop_work ?n k d < hop_work ?n k (hs ! k)" using dk c(2) weight_pos [OF 1(1), of i] by simp
      then show ?thesis unfolding chain_work_def 1(4) using None 1(1,5) rest by (intro sum_less_one [of k]) simp_all
    next
      case (Some j)
      then have j: "j < ?n" "j \<noteq> k" "hop_work ?n j (hs' ! j) = hop_work ?n j (hs ! j) + m * weight ?n i j"
        using downstream_less [OF Some 1(1)] rest [of j] c(4) [of i] by (simp_all add: hop_work_feed)
      have "hop_work ?n k d + hop_work ?n j (hs' ! j) < hop_work ?n k (hs ! k) + hop_work ?n j (hs ! j)"
        using dk j(3) c(2) weight_downstream [OF Some 1(1)] by simp
      then show ?thesis unfolding chain_work_def 1(4) using Some 1(1,5) rest j(1,2) by (intro sum_less_two [of k _ j]) simp_all
    qed
  qed
qed

text \<open>A copy without failures that has not returned can take a step of its own, or has an unfinished direction.\<close>

lemma unfailed_cases:
  assumes inv: "duplex_inv x y s" and "unfailed s" and "phase s \<noteq> Returned None"
  obtains ev where "clean ev" "ev \<in> {Recv, Return}" "duplex_step s ev \<noteq> None"
  | i where "wres (get_dir i s) = None" "phase s = Looping"
proof (cases "phase s")
  case Looping
  show ?thesis
  proof (cases "results s")
    case Nil
    have r: "0 < remaining s" "remaining s + length (recvd s) = 2" "mset (outcomes s) = mset (recvd s)"
      using inv Looping Nil by (simp_all add: duplex_inv_def ctl_ok_def)
    then have "length (outcomes s) < 2" using mset_eq_length [of "outcomes s" "recvd s"] by simp
    then have "wres (d_in s) = None \<or> wres (d_out s) = None" by (auto simp: outcomes_def split: option.splits)
    then show ?thesis using that(2) [of InToOut] that(2) [of OutToIn] Looping by (auto simp: get_dir_def)
  next
    case (Cons r rs)
    have "0 < remaining s" using inv Looping by (simp add: duplex_inv_def ctl_ok_def)
    then show ?thesis using that(1) [of Recv] Looping Cons by (auto simp: Let_def split: option.splits)
  qed
next
  case (Draining e)
  then have "e = None" "remaining s = 0" using assms by (auto simp: unfailed_def duplex_inv_def ctl_ok_def)
  then show ?thesis using that(1) [of Return] Draining by simp
qed (use assms in \<open>auto simp: unfailed_def\<close>)

text \<open>The first unfinished copy of a direction can copy or close.\<close>

lemma first_unfinished:
  assumes inv: "chain_inv cs n a b hs" and p: "p < n" and w: "wres (get_dir i (hs ! at n i p)) = None" "phase (hs ! at n i p) = Looping"
    and up: "\<forall>q < p. wres (get_dir i (hs ! at n i q)) = Some None" and ne: "\<forall>q < p. CloseWrite (writes_to i (cs ! at n i q)) \<noteq> NoEffect"
    and rd: "readable cs hs (at n i p) i"
  shows "\<exists>ev. clean ev \<and> chain_step cs hs (at n i p, ev) \<noteq> None"
proof -
  let ?k = "at n i p"
  have len: "length hs = n" using inv by (simp add: chain_inv_def)
  have k: "?k < n" using p by (rule at_less)
  have nfin: "\<not> fin (get_dir i (hs ! ?k))" using chain_dir_ok [OF inv k, of i] w by (auto simp: dir_ok_def)
  have nforced: "\<not> forced (hs ! ?k)" using inv k w by (auto simp: chain_inv_def duplex_inv_def ctl_ok_def)
  have eof: "eof_seen cs hs ?k i"
  proof (cases p)
    case 0
    then show ?thesis using upstream_at(1) [of n i] p len by (simp add: eof_seen_def)
  next
    case (Suc q)
    then have "fin (get_dir i (hs ! at n i q))" using chain_dir_ok [OF inv at_less [of q n i], of i] up p by (auto simp: dir_ok_def)
    then show ?thesis using Suc upstream_at(2) [of q n i] p len ne by (simp add: eof_seen_def)
  qed
  have acc: "accepts_data hs ?k i"
  proof (cases "downstream n i ?k")
    case (Some j)
    then have "upstream n i j = Some ?k" "j < n" using updown [of n i j ?k] k downstream_less by auto
    then have "\<not> fin (get_dir i (hs ! j))" using inv nfin nforced len by (fastforce simp: chain_inv_def eof_seen_def)
    then show ?thesis using Some len by (simp add: accepts_data_def)
  qed (simp add: accepts_data_def len)
  have "chain_step cs hs (?k, if src (get_dir i (hs ! ?k)) = [] then EofClose i None else Copy i 1) \<noteq> None"
    using eof acc rd w k len by (auto simp: chain_step.simps Suc_le_eq)
  moreover have "clean (if src (get_dir i (hs ! ?k)) = [] then EofClose i None else Copy i 1)" by simp
  ultimately show ?thesis by blast
qed

lemma path_conns_simps:
  "length path_conns = 3" "k < 3 \<Longrightarrow> CloseWrite (writes_to i (path_conns ! k)) \<noteq> NoEffect"
  "k < 3 \<Longrightarrow> CloseWrite (writes_to i (path_conns ! k)) = ClosesAll \<longleftrightarrow> k = 0 \<and> i = OutToIn"
  by (cases i; auto simp: path_conns_def writes_to_def countedProxy_def countedExit_def NewAdapter_def yamux_Close_def
      less_Suc_eq numeral_3_eq_3)+

lemma path_can_proceed:
  assumes inv: "chain_inv path_conns 3 a b hs" and ok: "\<forall>k < 3. unfailed (hs ! k)" and "\<exists>k < 3. phase (hs ! k) \<noteq> Returned None"
    and browser: "fin (d_out (hs ! 0)) \<longrightarrow> wres (d_in (hs ! 0)) \<noteq> None"
  shows "\<exists>k ev. clean ev \<and> path_step hs (k, ev) \<noteq> None"
proof -
  obtain k where k: "k < 3" "phase (hs ! k) \<noteq> Returned None" using assms(3) by blast
  have len: "length hs = 3" using inv by (simp add: chain_inv_def)
  have hop: "duplex_inv (given a b hs InToOut k) (given a b hs OutToIn k) (hs ! k)" "unfailed (hs ! k)" if "k < 3" for k
    using inv ok that by (auto simp: chain_inv_def)
  from hop [OF k(1)] k(2) show ?thesis
  proof (cases rule: unfailed_cases)
    case (1 ev)
    then have "path_step hs (k, ev) \<noteq> None" using k(1) len by (auto simp: chain_step.simps split: option.splits)
    then show ?thesis using 1(1) by blast
  next
    case (2 i)
    let ?P = "\<lambda>p. p < 3 \<and> wres (get_dir i (hs ! at 3 i p)) = None"
    have "at 3 i (at 3 i k) = k" using k(1) by (cases i) (simp_all add: at_def)
    then have "?P (at 3 i k)" using 2 at_less [OF k(1), of i] by simp
    then obtain p where p: "?P p" "\<forall>q < p. \<not> ?P q" using exists_least_iff [of ?P] by blast
    have up: "\<forall>q < p. wres (get_dir i (hs ! at 3 i q)) = Some None"
    proof (intro allI impI)
      fix q assume q: "q < p"
      then have "q < 3" using p(1) by simp
      then have "wres (get_dir i (hs ! at 3 i q)) \<in> {None, Some None}" using ok at_less [of q 3 i] unfolding unfailed_def by blast
      then show "wres (get_dir i (hs ! at 3 i q)) = Some None" using p(2) q \<open>q < 3\<close> by auto
    qed
    have ph: "phase (hs ! at 3 i p) = Looping"
    proof -
      have q: "at 3 i p < 3" using p(1) at_less by blast
      then have "remaining (hs ! at 3 i p) \<noteq> 0" using wres_both [OF hop(1) [OF q]] p(1) by (cases i) (auto simp: get_dir_def)
      then show ?thesis using hop [OF q] by (auto simp: unfailed_def duplex_inv_def ctl_ok_def)
    qed
    have rd: "readable path_conns hs (at 3 i p) i"
      using p(1) browser path_conns_simps(3) [of "at 3 i p" "other i"] at_less [of p 3 i]
      by (cases i) (auto simp: readable_def other_def get_dir_def)
    have ne: "\<forall>q < p. CloseWrite (writes_to i (path_conns ! at 3 i q)) \<noteq> NoEffect"
      using p(1) path_conns_simps(2) at_less [of _ 3 i] by auto
    show ?thesis using first_unfinished [OF inv conjunct1 [OF p(1)] conjunct2 [OF p(1)] ph up ne rd] by blast
  qed
qed

lemma path_reaches_inv: "reaches path_step (path_start a b) hs \<Longrightarrow> chain_inv path_conns 3 a b hs"
  unfolding path_conns_simps(1) by (rule chain_ok.reaches_inv)

lemma at_ends: "at 3 InToOut 2 = 2" "at 3 OutToIn 2 = 0"
  by (simp_all add: at_def)

text \<open>Once the response has ended at the proxy, an upload that is not finished cannot continue.\<close>

lemma response_end_cuts_upload:
  "fin (d_out (hs ! 0)) \<Longrightarrow> path_step hs (0, Copy InToOut n) = None \<and> path_step hs (0, EofClose InToOut r) = None"
  by (simp add: chain_step.simps readable_def other_def get_dir_def writes_to_def path_conns_def)

text \<open>A run in which everything goes well, and one in which the browser's connection fails.\<close>

definition good_run :: "(nat \<times> devent) list" where
  "good_run = [(0, Copy InToOut 1), (1, Copy InToOut 1), (2, Copy InToOut 1), (0, EofClose InToOut None), (1, EofClose InToOut None),
     (2, EofClose InToOut None), (2, Copy OutToIn 1), (1, Copy OutToIn 1), (0, Copy OutToIn 1), (2, EofClose OutToIn None),
     (1, EofClose OutToIn None), (0, EofClose OutToIn None), (0, Recv), (0, Recv), (0, Return), (1, Recv), (1, Recv), (1, Return),
     (2, Recv), (2, Recv), (2, Return)]"

definition reset_run :: "(nat \<times> devent) list" where
  "reset_run = [(0, Copy InToOut 1), (0, CopyFail InToOut 0 (Sentinel (Env ''connection reset''))), (0, Recv), (1, Copy InToOut 1),
     (1, EofClose InToOut None), (2, Copy InToOut 1), (2, EofClose InToOut None), (2, EofClose OutToIn None), (2, Recv), (2, Recv),
     (2, Return), (1, EofClose OutToIn None), (1, Recv), (1, Recv), (1, Return)]"

lemmas run_simps = chain_step.simps chain_start_def path_conns_def Duplex_start_def new_dir_def step_simps pass_on_def
  downstream_def upstream_def accepts_data_def eof_seen_def readable_def other_def writes_to_def feed_def countedProxy_def
  countedExit_def NewAdapter_def yamux_Close_def upt_rec

section \<open>Properties\<close>

text \<open>
  C4. End to end, through proxy, relay and exit: whatever is lost or fails on the way, the target
  receives a prefix of what the browser sent and the browser a prefix of what the target sent, in
  order. A direction that ended with a FIN while no copy before it was torn down is complete, and if
  all three copies returned without an error both directions are.
\<close>

theorem path_delivery:
  assumes "reaches path_step (path_start a b) hs"
  shows "prefix (got (d_in (hs ! 2))) a \<and> prefix (got (d_out (hs ! 0))) b
    \<and> (fin (d_in (hs ! 2)) \<and> \<not> forced (hs ! 0) \<and> \<not> forced (hs ! 1) \<longrightarrow> got (d_in (hs ! 2)) = a)
    \<and> (fin (d_out (hs ! 0)) \<and> \<not> forced (hs ! 2) \<and> \<not> forced (hs ! 1) \<longrightarrow> got (d_out (hs ! 0)) = b)
    \<and> ((\<forall>k < 3. phase (hs ! k) = Returned None) \<longrightarrow> got (d_in (hs ! 2)) = a \<and> got (d_out (hs ! 0)) = b)"
proof -
  note inv = path_reaches_inv [OF assms]
  have "prefix (got (d_in (hs ! 2))) a" "prefix (got (d_out (hs ! 0))) b"
    using got_prefix [OF inv, of 2 InToOut] got_prefix [OF inv, of 2 OutToIn] by (simp_all add: at_ends get_dir_def whole_def)
  moreover have "(\<forall>q < 2. \<not> forced (hs ! at 3 InToOut q)) \<longleftrightarrow> \<not> forced (hs ! 0) \<and> \<not> forced (hs ! 1)"
    "(\<forall>q < 2. \<not> forced (hs ! at 3 OutToIn q)) \<longleftrightarrow> \<not> forced (hs ! 2) \<and> \<not> forced (hs ! 1)"
    by (auto simp: at_def less_2_cases_iff)
  ultimately show ?thesis
    using fin_complete [OF inv, of 2 InToOut] fin_complete [OF inv, of 2 OutToIn]
      returned_complete [OF inv, of 2 InToOut] returned_complete [OF inv, of 2 OutToIn]
    by (simp add: at_ends get_dir_def whole_def)
qed

theorem path_delivery_witness:
  "\<exists>hs. run_events path_step (path_start [1] [2]) good_run = Some hs \<and> got (d_in (hs ! 2)) = [1] \<and> got (d_out (hs ! 0)) = [2]"
proof -
  obtain hs where hs: "run_events path_step (path_start [1] [2]) good_run = Some hs" "\<forall>k < 3. phase (hs ! k) = Returned None"
    by (simp add: good_run_def run_simps less_Suc_eq numeral_3_eq_3)
  show ?thesis using path_delivery [OF run_events_reaches [OF hs(1)]] hs by blast
qed

text \<open>
  C5. Nothing gets stuck. As long as no copy has failed, and the response has not ended at the
  proxy before the upload was finished, either everything has been delivered and all copies have
  returned, or some copy can take another step that is no failure; and every such step reduces the
  work that is left, so a run without failures ends with complete delivery.
\<close>

theorem path_completes:
  assumes "reaches path_step (path_start a b) hs" and "\<forall>k < 3. unfailed (hs ! k)"
    and "fin (d_out (hs ! 0)) \<longrightarrow> wres (d_in (hs ! 0)) \<noteq> None"
  shows "((\<forall>k < 3. phase (hs ! k) = Returned None) \<and> got (d_in (hs ! 2)) = a \<and> got (d_out (hs ! 0)) = b
      \<or> (\<exists>k ev. clean ev \<and> path_step hs (k, ev) \<noteq> None))
    \<and> (\<forall>k ev hs'. clean ev \<and> path_step hs (k, ev) = Some hs' \<longrightarrow> chain_work hs' < chain_work hs)"
proof -
  note inv = path_reaches_inv [OF assms(1)]
  have "(\<forall>k < 3. phase (hs ! k) = Returned None) \<Longrightarrow> got (d_in (hs ! 2)) = a \<and> got (d_out (hs ! 0)) = b"
    using returned_complete [OF inv, of 2 InToOut] returned_complete [OF inv, of 2 OutToIn]
    by (simp add: at_ends get_dir_def whole_def)
  then show ?thesis using path_can_proceed [OF inv assms(2) _ assms(3)] clean_step_work [of path_conns hs] by blast
qed

theorem path_completes_witness:
  "\<exists>k ev. clean ev \<and> path_step (path_start [1] [2]) (k, ev) \<noteq> None"
proof -
  have r: "reaches path_step (path_start [1] [2]) (path_start [1] [2])" by (rule reachable_init) simp
  have u: "\<forall>k < 3. unfailed (path_start [1] [2] ! k)"
    and p: "phase (path_start [1] [2] ! 0) \<noteq> Returned None" "\<not> fin (d_out (path_start [1] [2] ! 0))"
    by (auto simp: unfailed_def chain_start_def path_conns_simps Duplex_start_def new_dir_def get_dir_def split: side.splits)
  have "(0 :: nat) < 3" by simp
  then show ?thesis using path_completes [OF r u] p by blast
qed

text \<open>
  A failure before a copy looks like a clean end behind it. If the browser's connection breaks
  in the middle of an upload, the proxy's copy fails and closes its stream, which the relay reads as an
  ordinary end of input: the relay and the exit finish without an error and the target receives a FIN
  after a part of the data.
\<close>

theorem path_truncation_unnoticed:
  "\<exists>hs. reaches path_step (path_start [1, 2] []) hs \<and> (\<exists>e. phase (hs ! 0) = Draining (Some e))
     \<and> phase (hs ! 1) = Returned None \<and> phase (hs ! 2) = Returned None
     \<and> got (d_in (hs ! 2)) = [1] \<and> fin (d_in (hs ! 2))"
proof -
  obtain hs where hs: "run_events path_step (path_start [1, 2] []) reset_run = Some hs"
      "(\<exists>e. phase (hs ! 0) = Draining (Some e)) \<and> phase (hs ! 1) = Returned None \<and> phase (hs ! 2) = Returned None
       \<and> got (d_in (hs ! 2)) = [1] \<and> fin (d_in (hs ! 2))"
    by (simp add: reset_run_def run_simps)
  then show ?thesis using run_events_reaches [OF hs(1)] by blast
qed

end
