(* ===== verification/Program.thy ===== *)
theory Program
  imports Config Logging Nodes Service
begin

text \<open>
  \<open>src/cmd/mhp/main.go\<close>: flag parsing with the rules of Go's \<open>flag\<close> package, the construction of
  each role's objects from the loaded configuration, the three runners and the exit code. The
  operating system is a record of answers; what happens while a runner is active is the list of events
  of its machine.
\<close>

section \<open>Flags\<close>

text \<open>
  \<open>FlagSet.parseOne\<close>: what the next argument is. A flag is \<open>-name\<close>, \<open>--name\<close>, \<open>-name=value\<close> or
  \<open>--name=value\<close>; the first argument that is not a flag, or \<open>--\<close>, ends the flags.
\<close>

datatype arg = NotFlag | Terminator | BadSyntax | Flag string "string option"

text \<open>The name ends at the first \<open>=\<close> that is not its first character.\<close>

definition split_value :: "string \<Rightarrow> string \<times> string option" where
  "split_value name = (case name of
      [] \<Rightarrow> ([], None)
    | c # cs \<Rightarrow>
        (case dropWhile (\<lambda>x. x \<noteq> CHR ''='') cs of
           [] \<Rightarrow> (name, None)
         | _ # v \<Rightarrow> (c # takeWhile (\<lambda>x. x \<noteq> CHR ''='') cs, Some v)))"

definition flag_of_name :: "string \<Rightarrow> arg" where
  "flag_of_name name = (case name of
      [] \<Rightarrow> BadSyntax
    | c # cs \<Rightarrow> if c = CHR ''-'' \<or> c = CHR ''='' then BadSyntax else (case split_value name of (n, v) \<Rightarrow> Flag n v))"

definition parse_arg :: "string \<Rightarrow> arg" where
  "parse_arg s = (case s of
      c # d # rest \<Rightarrow>
        if c \<noteq> CHR ''-'' then NotFlag
        else if d = CHR ''-'' then (if rest = [] then Terminator else flag_of_name rest)
        else flag_of_name (d # rest)
    | _ \<Rightarrow> NotFlag)"

text \<open>\<open>strconv.ParseBool\<close>.\<close>

definition ParseBool :: "string \<Rightarrow> bool option" where
  "ParseBool s =
     (if s \<in> {''1'', ''t'', ''T'', ''TRUE'', ''true'', ''True''} then Some True
      else if s \<in> {''0'', ''f'', ''F'', ''FALSE'', ''false'', ''False''} then Some False
      else None)"

text \<open>The string flags \<open>parseFlags\<close> declares, each with the variable it sets.\<close>

definition string_flags :: "(string \<times> (string \<Rightarrow> ParsedFlags \<Rightarrow> ParsedFlags)) list" where
  "string_flags =
     [(''mode'', \<lambda>v p. p\<lparr>fMode := v\<rparr>), (''listen'', \<lambda>v p. p\<lparr>fListen := v\<rparr>), (''relay'', \<lambda>v p. p\<lparr>fRelay := v\<rparr>),
      (''tls-name'', \<lambda>v p. p\<lparr>fTLSName := v\<rparr>), (''ca'', \<lambda>v p. p\<lparr>fCAPath := v\<rparr>), (''tls-cert'', \<lambda>v p. p\<lparr>fTLSCert := v\<rparr>),
      (''tls-key'', \<lambda>v p. p\<lparr>fTLSKey := v\<rparr>), (''token-file'', \<lambda>v p. p\<lparr>fTokenFile := v\<rparr>),
      (''exit-token-file'', \<lambda>v p. p\<lparr>fExitTokenFile := v\<rparr>), (''proxy-token-file'', \<lambda>v p. p\<lparr>fProxyTokenFile := v\<rparr>),
      (''username'', \<lambda>v p. p\<lparr>fUsername := v\<rparr>), (''password'', \<lambda>v p. p\<lparr>fPassword := v\<rparr>)]"

definition no_flags :: ParsedFlags where
  "no_flags = \<lparr>fMode = [], fListen = [], fRelay = [], fTLSName = [], fCAPath = [], fTLSCert = [], fTLSKey = [],
     fTokenFile = [], fExitTokenFile = [], fProxyTokenFile = [], fUsername = [], fPassword = [], fDebug = False\<rparr>"

text \<open>\<open>FlagSet.Parse\<close>. A string flag without \<open>=\<close> takes the next argument, whatever it is.\<close>

fun parse_flags :: "ParsedFlags \<Rightarrow> string list \<Rightarrow> ParsedFlags result" where
  "parse_flags p [] = Inr p"
| "parse_flags p (s # args) = (case parse_arg s of
      NotFlag \<Rightarrow> Inr p
    | Terminator \<Rightarrow> Inr p
    | BadSyntax \<Rightarrow> Inl (Errorf ''bad flag syntax: %s'' [])
    | Flag name value \<Rightarrow>
        if name = ''debug'' then
          (case value of
             None \<Rightarrow> parse_flags (p\<lparr>fDebug := True\<rparr>) args
           | Some v \<Rightarrow>
               (case ParseBool v of
                  None \<Rightarrow> Inl (Errorf ''invalid boolean value %q for -%s: %v'' [])
                | Some b \<Rightarrow> parse_flags (p\<lparr>fDebug := b\<rparr>) args))
        else
          (case map_of string_flags name of
             None \<Rightarrow>
               if name = ''help'' \<or> name = ''h'' then Inl (Sentinel (Env ''flag: help requested''))
               else Inl (Errorf ''flag provided but not defined: -%s'' [])
           | Some assign \<Rightarrow>
               (case value of
                  Some v \<Rightarrow> parse_flags (assign v p) args
                | None \<Rightarrow>
                    (case args of
                       [] \<Rightarrow> Inl (Errorf ''flag needs an argument: -%s'' [])
                     | v # rest \<Rightarrow> parse_flags (assign v p) rest))))"

definition parseFlags :: "string list \<Rightarrow> ParsedFlags result" where
  "parseFlags argv = parse_flags no_flags argv"

section \<open>Roles\<close>

definition relay_handshake :: "Config \<Rightarrow> nat \<Rightarrow> Handshake" where
  "relay_handshake cfg cert = \<lparr>
     hTLSConfig = \<lparr>ServerName = [], RootCAs = None, Certificate = Some cert, MinTLSVersion = DefaultMinTLSVersion\<rparr>,
     hTiming = DefaultTiming, hLogger = True,
     hVerifier = \<lparr>ExpectedExits =
       [ModeExit \<mapsto> string_of_bytes (Secret_Value (cExitToken cfg)), ModeProxy \<mapsto> string_of_bytes (Secret_Value (cProxyToken cfg))]\<rparr>\<rparr>"

text \<open>Both client runners: a failed \<open>LoadTrustPool\<close> is logged and leaves a nil pool.\<close>

definition trust_pool :: "files \<Rightarrow> (bytes \<Rightarrow> nat option) \<Rightarrow> Config \<Rightarrow> nat option" where
  "trust_pool fs appendCerts cfg = (case LoadTrustPool fs appendCerts (cCAPath cfg) of Inl err \<Rightarrow> None | Inr pool \<Rightarrow> Some pool)"

definition client_authenticator :: "Mode \<Rightarrow> Config \<Rightarrow> nat option \<Rightarrow> Authenticator" where
  "client_authenticator role cfg rootCAs = \<lparr>Addr = cRelay cfg, Role = role, Token = string_of_bytes (Secret_Value (cToken cfg)),
     aTiming = DefaultTiming, aServerName = cTLSName cfg, aRootCAs = rootCAs, aMinTLSVersion = DefaultMinTLSVersion\<rparr>"

text \<open>
  The environment of a process: file system, map iteration order, certificate loading, \<open>net.Listen\<close>,
  the debug file's exclusive create, the clock, the context's error if a signal arrives before a
  runner starts its loops, and the events of the loops.
\<close>

record os_env =
  eOrd :: map_order
  eFiles :: files
  eLower :: "string \<Rightarrow> string"
  eOpen :: "string \<Rightarrow> gerr option"
  eUnix :: nat
  eKeyPair :: "string \<Rightarrow> string \<Rightarrow> nat result"
  eAppendCerts :: "bytes \<Rightarrow> nat option"
  eListen :: "string \<Rightarrow> gerr option"
  eEarly :: "gerr option"
  eService :: "svc_event list"
  eExit :: "exit_event list"
  eProxy :: "proxy_node_event list"

text \<open>
  A runner that has returned: the context's error at that moment and the error it returned.
  \<open>None\<close>: it has not returned.
\<close>

type_synonym ran = "(gerr option \<times> gerr option) option"

definition runRelay :: "os_env \<Rightarrow> Config \<Rightarrow> ran" where
  "runRelay env cfg = (case eKeyPair env (cTLSCert cfg) (cTLSKey cfg) of
      Inl err \<Rightarrow> Some (eEarly env, Some (Errorf ''load relay certificate: %w'' [err]))
    | Inr cert \<Rightarrow>
        (case eListen env (cListen cfg) of
           Some err \<Rightarrow> Some (eEarly env, Some (Errorf ''listen on %s: %w'' [err]))
         | None \<Rightarrow>
             (case run_events service_step NewService (eService env) of
                None \<Rightarrow> None
              | Some s \<Rightarrow> (case spc s of Service.Returned err \<Rightarrow> Some (ctx s, err) | _ \<Rightarrow> None))))"

definition runExit :: "os_env \<Rightarrow> Config \<Rightarrow> ran" where
  "runExit env cfg =
     (let a = client_authenticator ModeExit cfg (trust_pool (eFiles env) (eAppendCerts env) cfg)
      in case run_events (exit_node_step a) (exit_node_start a) (eExit env) of
           None \<Rightarrow> None
         | Some x \<Rightarrow> (case exit_result x of None \<Rightarrow> None | Some err \<Rightarrow> Some (parent (xconn x), Some err)))"

definition runProxy :: "os_env \<Rightarrow> Config \<Rightarrow> ran" where
  "runProxy env cfg =
     (let a = client_authenticator ModeProxy cfg (trust_pool (eFiles env) (eAppendCerts env) cfg)
      in case eListen env (cListen cfg) of
           Some err \<Rightarrow> Some (eEarly env, Some (Errorf ''listen on %s: %w'' [err]))
         | None \<Rightarrow>
             (case run_events (proxy_node_step a) (proxy_node_start a [cUsername cfg, cPassword cfg]) (eProxy env) of
                None \<Rightarrow> None
              | Some y \<Rightarrow> (case proxy_result y of None \<Rightarrow> None | Some err \<Rightarrow> Some (parent (pxconn y), Some err))))"

text \<open>\<open>Error\<close> of an error value is an argument.\<close>

definition reason :: "(gerr \<Rightarrow> string) \<Rightarrow> gerr option \<Rightarrow> string" where
  "reason text_of err = (case err of None \<Rightarrow> ''interrupt'' | Some e \<Rightarrow> text_of e)"

definition runMode :: "os_env \<Rightarrow> Config \<Rightarrow> gerr option option" where
  "runMode env cfg =
     (let r = (if cMode cfg = ModeRelay then runRelay env cfg
               else if cMode cfg = ModeExit then runExit env cfg
               else if cMode cfg = ModeProxy then runProxy env cfg
               else Some (eEarly env, Some (Errorf ''unsupported mode %q'' [])))
      in case r of
           None \<Rightarrow> None
         | Some (ctxErr, err) \<Rightarrow> Some (if err \<noteq> None \<and> ctxErr \<noteq> None then None else err))"

definition runWithContext :: "os_env \<Rightarrow> ParsedFlags \<Rightarrow> gerr option option" where
  "runWithContext env flags = (case Load (eOrd env) (eFiles env) flags of
      Inl err \<Rightarrow> Some (Some err)
    | Inr cfg \<Rightarrow>
        (case NewSetup (eLower env) (eOpen env) (fMode flags) (fDebug flags) (eUnix env) of
           Inl err \<Rightarrow> Some (Some err)
         | Inr logger \<Rightarrow> runMode env cfg))"

definition run :: "os_env \<Rightarrow> string list \<Rightarrow> gerr option option" where
  "run env argv = (case parseFlags argv of Inl err \<Rightarrow> Some (Some err) | Inr flags \<Rightarrow> runWithContext env flags)"

definition exitOK :: nat where "exitOK = 0"
definition exitProvision :: nat where "exitProvision = 2"

text \<open>The exit code of \<open>main\<close>; \<open>None\<close> while the process runs.\<close>

definition main :: "os_env \<Rightarrow> string list \<Rightarrow> nat option" where
  "main env argv = map_option (\<lambda>err. if err \<noteq> None then exitProvision else exitOK) (run env argv)"

section \<open>Specification\<close>

text \<open>A setting as it may be written on the command line: one or two dashes, joined or separate.\<close>

datatype setting = SetString bool bool string string | SetDebug bool "bool option"

definition dashes :: "bool \<Rightarrow> string" where
  "dashes two = (if two then ''--'' else ''-'')"

fun render :: "setting \<Rightarrow> string list" where
  "render (SetString two joined n v) = (if joined then [dashes two @ n @ ''='' @ v] else [dashes two @ n, v])"
| "render (SetDebug two None) = [dashes two @ ''debug'']"
| "render (SetDebug two (Some b)) = [dashes two @ ''debug='' @ (if b then ''true'' else ''false'')]"

fun apply_setting :: "setting \<Rightarrow> ParsedFlags \<Rightarrow> ParsedFlags" where
  "apply_setting (SetString two joined n v) p = (case map_of string_flags n of None \<Rightarrow> p | Some assign \<Rightarrow> assign v p)"
| "apply_setting (SetDebug two v) p = p\<lparr>fDebug := (case v of None \<Rightarrow> True | Some b \<Rightarrow> b)\<rparr>"

fun declared :: "setting \<Rightarrow> bool" where
  "declared (SetString two joined n v) = (n \<in> set (map fst string_flags))"
| "declared (SetDebug two v) = True"

text \<open>A command line for given flag values.\<close>

definition command_line :: "ParsedFlags \<Rightarrow> string list" where
  "command_line p = concat (map render
     (map (\<lambda>(n, v). SetString False True n v)
       [(''mode'', fMode p), (''listen'', fListen p), (''relay'', fRelay p), (''tls-name'', fTLSName p), (''ca'', fCAPath p),
        (''tls-cert'', fTLSCert p), (''tls-key'', fTLSKey p), (''token-file'', fTokenFile p),
        (''exit-token-file'', fExitTokenFile p), (''proxy-token-file'', fProxyTokenFile p), (''username'', fUsername p),
        (''password'', fPassword p)]
      @ [SetDebug False (Some (fDebug p))]))"

definition good_name :: "string \<Rightarrow> bool" where
  "good_name n \<longleftrightarrow> (case n of [] \<Rightarrow> False | c # cs \<Rightarrow> c \<noteq> CHR ''-'' \<and> c \<noteq> CHR ''='' \<and> CHR ''='' \<notin> set cs)"

text \<open>The start-up failures of a configured process.\<close>

definition startup_failure :: "os_env \<Rightarrow> Config \<Rightarrow> gerr \<Rightarrow> bool" where
  "startup_failure env cfg err \<longleftrightarrow>
     (cMode cfg = ModeRelay \<and> (case eKeyPair env (cTLSCert cfg) (cTLSKey cfg) of
         Inl e \<Rightarrow> err = Errorf ''load relay certificate: %w'' [e]
       | Inr _ \<Rightarrow> (\<exists>e. eListen env (cListen cfg) = Some e \<and> err = Errorf ''listen on %s: %w'' [e])))
     \<or> (cMode cfg = ModeProxy \<and> (\<exists>e. eListen env (cListen cfg) = Some e \<and> err = Errorf ''listen on %s: %w'' [e]))"

text \<open>A relay whose accept loop ends by itself.\<close>

definition relayFlags :: ParsedFlags where
  "relayFlags = no_flags\<lparr>fMode := ModeRelay, fListen := '':443'', fTLSCert := ''c'', fTLSKey := ''k'', fExitTokenFile := ''e'',
     fProxyTokenFile := ''p''\<rparr>"

definition sampleOS :: os_env where
  "sampleOS = \<lparr>eOrd = (\<lambda>xs. xs), eFiles = (\<lambda>_. Inr [0x61]), eLower = ascii_lower, eOpen = (\<lambda>_. None), eUnix = 0,
     eKeyPair = (\<lambda>_ _. Inr 1), eAppendCerts = (\<lambda>_. Some 1), eListen = (\<lambda>_. None), eEarly = None,
     eService = [AcceptEnds, ShutdownStarts, AcceptJoined, WorkersJoined], eExit = [], eProxy = []\<rparr>"

section \<open>Lemmas on flags\<close>

lemma flag_of_good:
  assumes "good_name n"
  shows "flag_of_name n = Flag n None" and "flag_of_name (n @ CHR ''='' # v) = Flag n (Some v)"
proof -
  obtain c cs where n: "n = c # cs" "c \<noteq> CHR ''-''" "c \<noteq> CHR ''=''" "CHR ''='' \<notin> set cs"
    using assms by (auto simp: good_name_def split: list.splits)
  then have "\<forall>x \<in> set cs. x \<noteq> CHR ''=''" by auto
  then have d: "dropWhile (\<lambda>x. x \<noteq> CHR ''='') cs = []"
    "dropWhile (\<lambda>x. x \<noteq> CHR ''='') (cs @ CHR ''='' # v) = CHR ''='' # v"
    "takeWhile (\<lambda>x. x \<noteq> CHR ''='') (cs @ CHR ''='' # v) = cs"
    by (simp_all add: dropWhile_append takeWhile_append)
  show "flag_of_name n = Flag n None" "flag_of_name (n @ CHR ''='' # v) = Flag n (Some v)"
    using n(2-) unfolding n(1) flag_of_name_def split_value_def append_Cons list.case d by simp_all
qed

lemma parse_arg_good:
  assumes "good_name n"
  shows "parse_arg (dashes two @ n) = Flag n None" and "parse_arg (dashes two @ n @ CHR ''='' # v) = Flag n (Some v)"
  using flag_of_good [OF assms] assms
  by (auto simp: parse_arg_def dashes_def good_name_def split: list.splits)

lemma declared_name: "n \<in> set (map fst string_flags) \<Longrightarrow> good_name n \<and> n \<noteq> ''debug''"
  by (auto simp: string_flags_def good_name_def)

lemma good_debug: "good_name ''debug''"
  by (simp add: good_name_def)

lemma parse_setting: "declared x \<Longrightarrow> parse_flags p (render x @ rest) = parse_flags (apply_setting x p) rest"
proof (cases x)
  case (SetString two joined n v)
  assume d: "declared x"
  then have n: "good_name n" "n \<noteq> ''debug''" using SetString declared_name by auto
  obtain assign where "map_of string_flags n = Some assign"
    using d SetString by (cases "map_of string_flags n") (auto simp: map_of_eq_None_iff)
  then show ?thesis using SetString n parse_arg_good [OF n(1)] by simp
next
  case (SetDebug two v)
  then show ?thesis
    using parse_arg_good(1) [OF good_debug, of two] parse_arg_good(2) [OF good_debug, of two]
    by (cases v) (auto simp: ParseBool_def)
qed

lemma parse_settings: "list_all declared xs \<Longrightarrow> parse_flags p (concat (map render xs)) = Inr (fold apply_setting xs p)"
proof (induction xs arbitrary: p)
  case (Cons x xs)
  then show ?case using parse_setting [of x p "concat (map render xs)"] by simp
qed simp

lemma parse_command_line: "parseFlags (command_line p) = Inr p"
  unfolding parseFlags_def command_line_def
  by (subst parse_settings) (simp_all add: string_flags_def no_flags_def)

section \<open>Lemmas on the runners\<close>

text \<open>\<open>Service.Run\<close> returns either the context's error or nil.\<close>

lemma service_returned_ctx:
  "run_events service_step s evs = Some t \<Longrightarrow> (\<forall>e. spc s = Service.Returned (Some e) \<longrightarrow> ctx s = Some e)
   \<Longrightarrow> spc t = Service.Returned (Some e) \<Longrightarrow> ctx t = Some e"
proof (induction evs arbitrary: s)
  case (Cons ev evs)
  then obtain u where u: "service_step s ev = Some u" "run_events service_step u evs = Some t"
    by (auto split: option.splits)
  have "\<forall>e. spc u = Service.Returned (Some e) \<longrightarrow> ctx u = Some e"
    using u(1) Cons.prems(2)
    by (cases ev) (auto simp: Let_def closeAll_def split: if_splits option.splits prod.splits wphase.splits)
  then show ?case using Cons.IH [OF u(2)] Cons.prems(3) by blast
qed simp

lemma client_timing: "timing_ok (aTiming (client_authenticator r cfg pool))" "MaxBackoff (aTiming (client_authenticator r cfg pool)) < 2 ^ 62"
  by (simp_all add: client_authenticator_def DefaultTiming_ok, simp add: DefaultTiming_def Second_def)

lemma runRelay_error:
  "runRelay env cfg = Some (None, Some err) \<longleftrightarrow> eEarly env = None \<and>
     (case eKeyPair env (cTLSCert cfg) (cTLSKey cfg) of
         Inl e \<Rightarrow> err = Errorf ''load relay certificate: %w'' [e]
       | Inr _ \<Rightarrow> (\<exists>e. eListen env (cListen cfg) = Some e \<and> err = Errorf ''listen on %s: %w'' [e]))"
proof -
  have "ctx s = Some e" if "run_events service_step NewService evs = Some s" "spc s = Service.Returned (Some e)" for evs s e
    using service_returned_ctx [OF that(1) _ that(2)] by (simp add: NewService_def)
  then show ?thesis by (auto simp: runRelay_def split: sum.splits option.splits spc.splits)
qed

lemma runExit_cancelled: "runExit env cfg = Some (c, err) \<Longrightarrow> c \<noteq> None \<and> err = c"
proof -
  assume r: "runExit env cfg = Some (c, err)"
  let ?a = "client_authenticator ModeExit cfg (trust_pool (eFiles env) (eAppendCerts env) cfg)"
  obtain x e where x: "run_events (exit_node_step ?a) (exit_node_start ?a) (eExit env) = Some x" "exit_result x = Some e"
      "c = parent (xconn x)" "err = Some e"
    using r by (fastforce simp: runExit_def Let_def split: option.splits)
  have "exit_inv ?a x" using exit_reaches_inv [OF client_timing run_events_reaches [OF x(1)]] .
  then show ?thesis using x(2-)
    by (auto simp: exit_inv_def broker_inv_def inv_stop_def exit_result_def split: bpc.splits cpc.splits)
qed

lemma runProxy_error:
  assumes "list_all proxy_attempt_ok (eProxy env)"
  shows "runProxy env cfg = Some (None, Some err) \<longleftrightarrow> eEarly env = None
    \<and> (\<exists>e. eListen env (cListen cfg) = Some e \<and> err = Errorf ''listen on %s: %w'' [e])"
proof -
  have "parent (pxconn y) \<noteq> None"
    if "run_events (proxy_node_step a) (proxy_node_start a cr) (eProxy env) = Some y" "proxy_result y = Some e" for a cr y e
    using proxy_stops_cancelled [OF that(1) assms] that(2)
    by (auto simp: proxy_node_start_def connector_start_def stops_cancelled_def proxy_result_def split: cpc.splits)
  then show ?thesis by (auto simp: runProxy_def Let_def split: option.splits)
qed

lemma Load_mode: "Load ord fs p = Inr c \<Longrightarrow> cMode c = fMode p \<and> cMode c \<in> {ModeRelay, ModeExit, ModeProxy}"
  by (auto simp: load_defs split: if_splits sum.splits)

lemma runMode_error:
  assumes "list_all proxy_attempt_ok (eProxy env)" and "cMode cfg \<in> {ModeRelay, ModeExit, ModeProxy}"
  shows "runMode env cfg = Some (Some err) \<longleftrightarrow> eEarly env = None \<and> startup_failure env cfg err"
proof -
  have r: "runMode env cfg = Some (Some err) \<longleftrightarrow>
      (if cMode cfg = ModeRelay then runRelay env cfg else if cMode cfg = ModeExit then runExit env cfg else runProxy env cfg)
        = Some (None, Some err)"
    using assms(2) by (auto simp: runMode_def Let_def split: option.splits)
  show ?thesis
    using assms(2) runRelay_error [of env cfg err] runExit_cancelled [of env cfg None "Some err"] runProxy_error [OF assms(1), of cfg err]
    unfolding r by (auto simp: startup_failure_def)
qed

lemma sample_relay_starts:
  obtains cfg lg where "Load (\<lambda>xs. xs) (\<lambda>_. Inr [0x61]) relayFlags = Inr cfg" "cMode cfg = ModeRelay"
    "NewSetup ascii_lower (\<lambda>_. None) (fMode relayFlags) (fDebug relayFlags) 0 = Inr lg"
  by (simp add: load_defs loadToken_def relayFlags_def no_flags_def config_validate_def relay_required_def NewSetup_def)

section \<open>Properties\<close>

text \<open>
  C32. Command line: for any sequence of settings of declared flags, each written with one or
  two dashes and with its value joined by \<open>=\<close> or as the next argument (which may itself start with a
  dash), \<open>parseFlags\<close> returns the values with the last setting of each flag in force; in particular
  every combination of flag values can be written so that it is parsed back.
\<close>

theorem parseFlags_settings:
  assumes "list_all declared xs"
  shows "parseFlags (concat (map render xs)) = Inr (fold apply_setting xs no_flags) \<and> parseFlags (command_line p) = Inr p"
  using parse_settings [OF assms] parse_command_line by (simp add: parseFlags_def)

theorem parseFlags_settings_witness:
  "parseFlags [''-mode'', ''proxy'', ''--listen=-x'', ''-debug'', ''--mode'', ''-relay''] = Inr (no_flags\<lparr>fMode := ''-relay'', fListen := ''-x'', fDebug := True\<rparr>)"
  using parseFlags_settings [of "[SetString False False ''mode'' ''proxy'', SetString True True ''listen'' ''-x'', SetDebug False None,
      SetString True False ''mode'' ''-relay'']"]
  by (simp add: dashes_def string_flags_def no_flags_def)

text \<open>
  C33. Exit status. Once flags, configuration and logging are in order, the process ends with an
  error exactly if no signal arrived and start-up failed: the relay's certificate or listen address, or
  the proxy's listen address. Every other end is reported as success; in particular the exit node never
  reports an error.
\<close>

theorem process_fails_iff_startup:
  assumes "parseFlags argv = Inr flags" and "Load (eOrd env) (eFiles env) flags = Inr cfg"
    and "NewSetup (eLower env) (eOpen env) (fMode flags) (fDebug flags) (eUnix env) = Inr lg"
    and "list_all proxy_attempt_ok (eProxy env)"
  shows "(run env argv = Some (Some err) \<longleftrightarrow> eEarly env = None \<and> startup_failure env cfg err)
    \<and> (main env argv = Some exitProvision \<longleftrightarrow> eEarly env = None \<and> (\<exists>err. startup_failure env cfg err))"
proof -
  have "run env argv = runMode env cfg" using assms(1-3) by (simp add: run_def runWithContext_def)
  then have e: "run env argv = Some (Some err) \<longleftrightarrow> eEarly env = None \<and> startup_failure env cfg err" for err
    using runMode_error [OF assms(4) conjunct2 [OF Load_mode [OF assms(2)]], of err] by simp
  then show ?thesis by (auto simp: main_def exitProvision_def exitOK_def)
qed

theorem process_fails_iff_startup_witness:
  "main (sampleOS\<lparr>eKeyPair := (\<lambda>_ _. Inl (Sentinel (Env ''no such file'')))\<rparr>) (command_line relayFlags) = Some 2"
proof -
  obtain cfg lg where c: "Load (\<lambda>xs. xs) (\<lambda>_. Inr [0x61]) relayFlags = Inr cfg" "cMode cfg = ModeRelay"
    "NewSetup ascii_lower (\<lambda>_. None) (fMode relayFlags) (fDebug relayFlags) 0 = Inr lg"
    by (rule sample_relay_starts)
  show ?thesis
    using process_fails_iff_startup [of "command_line relayFlags" relayFlags
        "sampleOS\<lparr>eKeyPair := (\<lambda>_ _. Inl (Sentinel (Env ''no such file'')))\<rparr>" cfg lg undefined] c
    by (simp add: parse_command_line sampleOS_def startup_failure_def exitProvision_def)
qed

text \<open>
  A relay whose accept loop fails although nobody asked it to stop ends with exit code 0 and
  the shutdown reason ``interrupt'': the loop's own error is not reported.
\<close>

theorem relay_accept_failure_unreported:
  assumes "parseFlags argv = Inr flags" and "Load (eOrd env) (eFiles env) flags = Inr cfg" and "cMode cfg = ModeRelay"
    and "NewSetup (eLower env) (eOpen env) (fMode flags) (fDebug flags) (eUnix env) = Inr lg"
    and "eKeyPair env (cTLSCert cfg) (cTLSKey cfg) = Inr cert" and "eListen env (cListen cfg) = None"
    and "run_events service_step NewService (eService env) = Some s" and "spc s = Service.Returned err" and "ctx s = None"
  shows "\<not> accepting s \<and> main env argv = Some exitOK \<and> reason text_of (ctx s) = ''interrupt''"
proof -
  have "service_inv s" using run_events_reaches [OF assms(7)] by (rule service_ok.reaches_inv)
  then have "\<not> accepting s" using assms(8) by (simp add: service_inv_def inv_shutdown_def)
  moreover have "err = None"
    using service_returned_ctx [OF assms(7)] assms(8,9) by (cases err) (auto simp: NewService_def)
  ultimately show ?thesis using assms
    by (simp add: main_def run_def runWithContext_def runMode_def runRelay_def reason_def)
qed

theorem relay_accept_failure_unreported_witness:
  "main sampleOS (command_line relayFlags) = Some exitOK"
proof -
  obtain cfg lg where c: "Load (\<lambda>xs. xs) (\<lambda>_. Inr [0x61]) relayFlags = Inr cfg" "cMode cfg = ModeRelay"
    "NewSetup ascii_lower (\<lambda>_. None) (fMode relayFlags) (fDebug relayFlags) 0 = Inr lg"
    by (rule sample_relay_starts)
  obtain s where s: "run_events service_step NewService (eService sampleOS) = Some s" "spc s = Service.Returned None" "ctx s = None"
    by (simp add: sampleOS_def NewService_def closeAll_def)
  show ?thesis
    using relay_accept_failure_unreported [OF parse_command_line _ c(2) _ _ _ s, of relayFlags lg 1] c by (simp add: sampleOS_def)
qed

end
