(* ===== verification/Spec2Isabelle.thy ===== *)
theory Spec2Isabelle
  imports Framing Registry Access Bridge Connector Handshake Resolver Handler Service Listener Broker Logging Nodes Relay ExitStreams ProxyStreams Path Program
begin

text \<open>
  mhp is a reverse proxy in three roles that one binary plays (\<open>src/cmd/mhp/main.go\<close>). The relay
  accepts TLS connections from clients, authenticates them by role and bearer token, and bridges every
  stream the proxy opens to the exit's session. The proxy listens for browsers, and hands each SOCKS5
  request to a new stream of its relay session. The exit node serves those streams: it parses the
  request, checks the destination against a policy, dials it and copies the payload.

  Which theory models what. A definition has the name of its Go function where that name is free.

  \<^item> Prelude: bytes and strings, Go errors with \<open>errors.Is\<close>, 64-bit durations, reachable states and
    event sequences; the interfaces \<open>inductive_invariant\<close>, \<open>machine_invariant\<close>,
    \<open>machine_refinement\<close> and \<open>bounded_slots\<close>.
  \<^item> NetAddr: the part of Go's \<open>net\<close> and \<open>net/netip\<close> that the program uses, \<open>IP.String\<close>, \<open>ParseIP\<close>,
    \<open>JoinHostPort\<close>, \<open>SplitHostPort\<close> and their round trips.
  \<^item> Config: \<open>internal/config/config.go\<close>, modes, flags record, validation, token files.
  \<^item> Framing, Json, Records: \<open>transport/framing.go\<close> and \<open>records.go\<close>, with the part of
    \<open>encoding/json\<close> that the records use; the interface \<open>json_codec\<close>.
  \<^item> Timing: \<open>transport/timing.go\<close> and the jittered backoff of \<open>authenticator.go\<close>.
  \<^item> Handshake: \<open>transport/tls.go\<close>, \<open>yamux.go\<close>, \<open>handshake.go\<close>, \<open>authenticator.go\<close>, the set-up of a
    session at both ends, with the deadline under which each read and write runs.
  \<^item> Connector: \<open>transport/session.go\<close> and \<open>connector.go\<close>, the reconnect loop and its watchers.
  \<^item> Registry, Bridge, Service: \<open>relay/registry.go\<close>, \<open>bridge.go\<close>, \<open>service.go\<close>; Relay: the relay
    process, the three under one machine, with each serve loop followed statement by statement.
  \<^item> Streams: \<open>stream/addr.go\<close>, \<open>adapter.go\<close>, \<open>duplex.go\<close>.
  \<^item> Access, Resolver, Handler, Broker: \<open>exit/access.go\<close>, \<open>resolver.go\<close>, \<open>handler.go\<close>, \<open>broker.go\<close>.
  \<^item> Listener: \<open>proxy/listener.go\<close>.
  \<^item> Logging: \<open>logging/logging.go\<close> and \<open>redacting.go\<close>.
  \<^item> Nodes: the exit and the proxy process, connector and broker or listener under one context;
    ExitStreams and ProxyStreams: the same with the goroutines that serve their streams and browsers.
  \<^item> Path: the way of one browser connection, the copies of proxy, relay and exit in a row.
  \<^item> Program: flags, runners and exit code of \<open>cmd/mhp/main.go\<close>.

  How it is modelled. Sequential code is a function; an operating-system or library call is an
  argument that gives its outcome. A connection is a reader with pending chunks and a writer with a
  script of outcomes. Code with goroutines (Duplex, Bridge, Connector, Service, Broker, Resolver,
  Listener, Handler's watcher, and the processes of Nodes, Relay, ExitStreams and ProxyStreams) is a state with a step function: an event
  is one atomic step of one goroutine, of the peer, of the clock or of the context, \<open>None\<close> means that
  the event is not enabled, and the order of events is arbitrary. What happens in every reachable state
  is proved by an invariant of the machine, once for each machine, by interpreting
  \<open>machine_invariant\<close>. Durations and stream counters are 64-bit, frame lengths 32-bit, generations
  64-bit words that wrap.

  What the lemmas show. Framing and Records: what one side writes the other reads back, under any
  chunking, and errors otherwise. Handshake: a session exists only for the expected bearer, both
  ends agree, failures close the connection. Registry and Service: one live session per role, but for a
  replaced one that its successor is about to close, no eviction by a stale worker, shutdown ends. Relay:
  running pairs join the two registered sessions, with the same exception, the process implements the
  switchboard of its specification, a pair ends with its sessions.
  Bridge, Resolver, Listener: ceilings hold and slots are not lost. Streams: copied data is a prefix
  in order, half-close, join. Access and Handler: no refused destination is dialled, also after the
  address is printed and read again. Connector, Broker, Nodes: the newest session is used, sessions
  and streams are accounted for, cancellation leads to the return; every stream has one handler,
  which does not outlive its session; browsers ride the newest session. Path: what arrives at either
  end is a prefix of what the other end sent, and all of it when the copies return without an error.
  Logging: registered keys are masked. Program and this theory: flags, exit status, and the effect
  of provisioning on authentication and on trust.

  What makes progress. A liveness property names the steps that carry it. Where a peer or a target may
  be silent for ever, its own end is a separate event (\<open>CopyEnds\<close>, \<open>LibraryReturns\<close>) on which no such
  property relies: only steps that follow from a closed session or a cancelled context count.

  Bounds and fuel. The JSON parser takes fuel; \<open>parse_json\<close> gives it twice the length of its input plus
  two, and lemma \<open>parse_json_fuel\<close> shows that more never changes its answer. \<open>Resolve\<close> follows at most 100
  values as \<open>log/slog\<close> does. \<open>openDebugFile\<close> makes the source's 64 attempts. All other loops are
  structurally recursive or have a termination proof; loops that run for ever are machines.

  Assumptions, each a named hypothesis or an argument: \<open>map_order_ok\<close> (ranging over a Go map visits its
  entries), \<open>socks_contract\<close> (what the SOCKS5 library does with a rule and a connect handle),
  the step \<open>LibraryInterrupted\<close> of Handler's watcher machine (the library's call returns once the stream
  under it has been closed), \<open>deadline_documented\<close> (an error of \<open>SetDeadline\<close> is not \<open>context.Canceled\<close>), \<open>relay_ready\<close> (the relay's
  environment answers without an error).

  Not modelled: the TLS, yamux, SOCKS5 and TCP implementations, the text of log records and most error
  messages, the documentation files. The three processes are composed as far as their copies (Path); that
  a stream the proxy opens is the one the relay accepts is yamux's.
\<close>

section \<open>Specification\<close>

text \<open>The relay's token file for a client role.\<close>

definition token_path :: "Mode \<Rightarrow> Config \<Rightarrow> string" where
  "token_path role c = (if role = ModeExit then cExitTokenFile c else cProxyTokenFile c)"

definition clientFlags :: ParsedFlags where
  "clientFlags = no_flags\<lparr>fMode := ModeProxy, fRelay := ''relay:443'', fTokenFile := ''t''\<rparr>"

section \<open>Lemmas\<close>

lemma Load_relay_tokens:
  assumes "Load ord fs p = Inr c" and "fMode p = ModeRelay"
  shows "loadToken fs (cExitTokenFile c) = Inr (cExitToken c)" and "loadToken fs (cProxyTokenFile c) = Inr (cProxyToken c)"
  using assms by (auto simp: load_defs split: sum.splits)

lemma Load_client_token:
  assumes "Load ord fs p = Inr c" and "fMode p \<in> {ModeExit, ModeProxy}"
  shows "loadToken fs (cTokenFile c) = Inr (cToken c)" and "cMode c = fMode p"
proof -
  obtain c0 where c0: "build p = Inr c0" "loadTokens fs c0 = Inr c" using assms(1) by (auto simp: Load_Inr_iff)
  then have "cMode c0 = fMode p" using assms(2) by (auto simp: build_def zeroConfig_def)
  then show "loadToken fs (cTokenFile c) = Inr (cToken c)" "cMode c = fMode p"
    using assms(2) c0(2) by (auto simp: loadTokens_def split: sum.splits)
qed

lemma string_of_bytes_inj: "string_of_bytes a = string_of_bytes b \<longleftrightarrow> a = b"
  by (metis bytes_of_string_of_bytes)

lemma string_of_bytes_Nil: "string_of_bytes b = [] \<longleftrightarrow> b = []"
  by (simp add: string_of_bytes_def)

text \<open>The relay expects of a role the bytes of its token file.\<close>

lemma relay_expects:
  assumes "Load ord fs rp = Inr rc" and "fMode rp = ModeRelay" and "role \<in> {ModeExit, ModeProxy}"
  shows "\<exists>t. loadToken fs (token_path role rc) = Inr t
    \<and> ExpectedExits (hVerifier (relay_handshake rc cert)) role = Some (string_of_bytes (sbytes t))"
  using assms(3) Load_relay_tokens [OF assms(1,2)] by (auto simp: relay_handshake_def token_path_def Secret_Value_def)

lemma mode_utf8: "role \<in> {ModeExit, ModeProxy} \<Longrightarrow> valid_utf8 role"
  by (auto simp: valid_utf8_def ModeExit_def ModeProxy_def to_valid_ascii simp del: to_valid.simps(2))

text \<open>A concrete relay and client that share the token file content \<open>a\<close>.\<close>

lemma trim_a: "TrimSpace [0x61] = [0x61]"
proof -
  have "no_lead space_encodings [0x61]" "no_lead (map rev space_encodings) [0x61]"
    by (auto simp: no_lead_def space_encodings_def)
  then show ?thesis by (simp add: TrimSpace_def trim_left_id del: set_map)
qed

lemma sample_pair:
  obtains rc cc where "Load (\<lambda>xs. xs) (\<lambda>_. Inr [0x61]) relayFlags = Inr rc" "Load (\<lambda>xs. xs) (\<lambda>_. Inr [0x61]) clientFlags = Inr cc"
    "cMode cc = ModeProxy" "cToken cc = \<lparr>sbytes = [0x61]\<rparr>"
  by (simp add: load_defs loadToken_def relayFlags_def clientFlags_def no_flags_def config_validate_def relay_required_def trim_a)

lemma char_a: "char_of (97 :: nat) = CHR ''a''"
  by code_simp

lemma sample_client_hello:
  assumes "cMode cc = ModeProxy" and "cToken cc = \<lparr>sbytes = [0x61]\<rparr>"
  shows "\<exists>d. marshal_hello (helloOf (client_authenticator (cMode cc) cc pool)) = Inr d \<and> length d \<le> 4096"
    and "valid_utf8 (Token (client_authenticator (cMode cc) cc pool))"
proof -
  have t: "Token (client_authenticator (cMode cc) cc pool) = ''a''" "Role (client_authenticator (cMode cc) cc pool) = ModeProxy"
    using assms char_a by (simp_all add: client_authenticator_def Secret_Value_def string_of_bytes_def char_of_byte_def)
  then show "\<exists>d. marshal_hello (helloOf (client_authenticator (cMode cc) cc pool)) = Inr d \<and> length d \<le> 4096"
    using show_nat_one
    by (simp add: marshal_hello_def helloOf_def helloVersion_def encode_object_def quote_def esc_ascii_def rune_len_def ModeProxy_def)
  show "valid_utf8 (Token (client_authenticator (cMode cc) cc pool))"
    unfolding t by (simp add: valid_utf8_def to_valid_ascii del: to_valid.simps(2))
qed

lemma sample_ready: "relay_ready (relay_handshake rc 1) sampleAccept (sampleConn bs)"
  by (simp add: relay_ready_def relay_handshake_def sampleAccept_def sampleConn_def)

section \<open>Properties\<close>

text \<open>
  C6. Provisioning decides who gets in. A relay and a client, each with the configuration it loaded
  from its own flags and files; the client's token is valid UTF-8 and its hello fits a frame; the
  relay's environment answers and each side reads what the other wrote, in any chunks. If the relay's
  token file for the client's role and the client's token file hold the same non-empty token after
  trimming, both ends hold a session with the same identifier and the client's role; otherwise the relay
  creates no session and the client fails with \<open>ErrAuthentication\<close>.
\<close>

theorem provisioned_pair_authenticates:
  assumes "Load ord fs rp = Inr rc" and "fMode rp = ModeRelay"
    and "Load ord' fs' cp = Inr cc" and "fMode cp \<in> {ModeExit, ModeProxy}"
    and "a = client_authenticator (cMode cc) cc pool" and "h = relay_handshake rc cert"
    and "valid_utf8 (Token a)" and "marshal_hello (helloOf a) = Inr d" and "length d \<le> 4096"
    and "relay_ready h env raw" and "dSetup cenv = None" and "wscript (wr k) = []" and "sent (wr k) = []"
    and "concat (pending (rd raw)) = frame_bytes d" and "handshake h env raw = (out, c)"
    and "concat (pending (rd k)) = sent (wr c)"
  shows "if loadToken fs (token_path (fMode cp) rc) = loadToken fs' (cTokenFile cc) \<and> cToken cc \<noteq> emptySecret
    then \<exists>s resp. out = Yields s \<and> fst (exchange a cenv k) = Inr resp \<and> rSessionID resp = ID s \<and> SRole s = fMode cp
    else (\<exists>err. out = Fails err) \<and> fst (exchange a cenv k) = Inl (Errorf ''%w: %s'' [Sentinel ErrAuthentication])"
proof -
  have cc: "loadToken fs' (cTokenFile cc) = Inr (cToken cc)" "cMode cc = fMode cp" using Load_client_token assms(3,4) by blast+
  obtain t where t: "loadToken fs (token_path (fMode cp) rc) = Inr t"
      "ExpectedExits (hVerifier h) (fMode cp) = Some (string_of_bytes (sbytes t))"
    using relay_expects [OF assms(1,2,4)] assms(6) by blast
  have a: "Role a = fMode cp" "Token a = string_of_bytes (sbytes (cToken cc))"
    using assms(5) cc(2) by (simp_all add: client_authenticator_def Secret_Value_def)
  have "Token a \<noteq> [] \<and> ExpectedExits (hVerifier h) (Role a) = Some (Token a)
      \<longleftrightarrow> loadToken fs (token_path (fMode cp) rc) = loadToken fs' (cTokenFile cc) \<and> cToken cc \<noteq> emptySecret"
    using a t cc(1) by (cases t; cases "cToken cc") (auto simp: string_of_bytes_inj string_of_bytes_Nil emptySecret_def)
  then show ?thesis
    using auth_agreement [OF assms(10-13) _ _ assms(7-9,14-16)] a(1) assms(4) mode_utf8 [OF assms(4)] by auto
qed

theorem provisioned_pair_authenticates_witness:
  "\<exists>rc cc a bs reply s c resp.
     Load (\<lambda>xs. xs) (\<lambda>_. Inr [0x61]) relayFlags = Inr rc \<and> Load (\<lambda>xs. xs) (\<lambda>_. Inr [0x61]) clientFlags = Inr cc
     \<and> a = client_authenticator (cMode cc) cc None
     \<and> handshake (relay_handshake rc 1) sampleAccept (sampleConn bs) = (Yields s, c)
     \<and> fst (exchange a (sampleDial (sampleConn [])) (sampleConn reply)) = Inr resp \<and> rSessionID resp = ID s"
proof -
  obtain rc cc where l: "Load (\<lambda>xs. xs) (\<lambda>_. Inr [0x61]) relayFlags = Inr rc"
      "Load (\<lambda>xs. xs) (\<lambda>_. Inr [0x61]) clientFlags = Inr cc" and c: "cMode cc = ModeProxy" "cToken cc = \<lparr>sbytes = [0x61]\<rparr>"
    by (rule sample_pair)
  let ?a = "client_authenticator (cMode cc) cc None" and ?h = "relay_handshake rc 1"
  obtain d where d: "marshal_hello (helloOf ?a) = Inr d" "length d \<le> 4096" using sample_client_hello [OF c] by blast
  obtain out k where h: "handshake ?h sampleAccept (sampleConn (frame_bytes d)) = (out, k)" by fastforce
  have f: "fMode relayFlags = ModeRelay" "fMode clientFlags \<in> {ModeExit, ModeProxy}" "cToken cc \<noteq> emptySecret"
    "loadToken (\<lambda>_. Inr [0x61]) x = loadToken (\<lambda>_. Inr [0x61]) y" for x y
    using c by (simp_all add: relayFlags_def clientFlags_def emptySecret_def loadToken_def)
  from provisioned_pair_authenticates [OF l(1) f(1) l(2) f(2) refl refl sample_client_hello(2) [OF c] d sample_ready
      sample_facts(10) [of "sampleConn []"] sample_facts(7,8,9) h sample_facts(9)]
  obtain s resp where "out = Yields s" "fst (exchange ?a (sampleDial (sampleConn [])) (sampleConn (sent (wr k)))) = Inr resp"
    "rSessionID resp = ID s"
    using f(3,4) by auto
  then show ?thesis using l h by blast
qed

text \<open>
  C26. What a client trusts. A session exists only if the TLS handshake succeeded with verification
  on, TLS 1.3 as the minimum, the configured server name, and as roots the pool read from the
  configured CA file; if that file could not be read or holds no certificate, the roots are left unset for
  every later attempt, which makes Go's TLS verify against the host's own roots.
\<close>

theorem client_trust_roots:
  assumes "authenticate (client_authenticator role cfg (trust_pool fs appendCerts cfg)) env = (Inr s, c)"
  shows "dTLS env \<lparr>cfgServerName = cTLSName cfg,
      cfgRootCAs = (case LoadTrustPool fs appendCerts (cCAPath cfg) of Inl err \<Rightarrow> None | Inr pool \<Rightarrow> Some pool),
      cfgCertificates = [], cfgMinVersion = 0x0304, cfgInsecureSkipVerify = False\<rparr> = None"
  using authenticate_tls [OF assms] by (simp add: client_authenticator_def trust_pool_def DefaultMinTLSVersion_def)

theorem client_trust_roots_witness:
  "\<exists>reply s c. authenticate (client_authenticator ModeProxy zeroConfig
        (trust_pool (\<lambda>_. Inl (Sentinel (Env ''no such file''))) (\<lambda>_. None) zeroConfig)) (sampleDial (sampleConn reply)) = (Inr s, c)
     \<and> dTLS (sampleDial (sampleConn reply)) \<lparr>cfgServerName = [], cfgRootCAs = None, cfgCertificates = [], cfgMinVersion = 0x0304,
         cfgInsecureSkipVerify = False\<rparr> = None"
proof -
  obtain reply s c where s: "authenticate (client_authenticator ModeProxy zeroConfig
        (trust_pool (\<lambda>_. Inl (Sentinel (Env ''no such file''))) (\<lambda>_. None) zeroConfig)) (sampleDial (sampleConn reply)) = (Inr s, c)"
    using sample_authenticates by blast
  show ?thesis using s client_trust_roots [OF s] by (auto simp: LoadTrustPool_def zeroConfig_def)
qed

end
